theory Spec2Isabelle
  imports Complex_Main
begin

section \<open>Tensors\<close>

text \<open>
  The environment of \<^verbatim>\<open>env/fjsp_env.py\<close> keeps its whole state in torch tensors whose
  first dimension is the batch slot.  A tensor of shape \<open>(batch, d1, d2)\<close> is modelled
  as an index function \<open>nat \<Rightarrow> nat \<Rightarrow> nat \<Rightarrow> 'a\<close>; the dimensions are the fields
  \<open>batch_size\<close>, \<open>num_opes\<close>, \<open>num_mas\<close>, \<open>num_jobs\<close> of the environment, and every
  reduction takes the length of the reduced dimension explicitly.  An index outside a
  dimension, which torch answers with an exception, is a branch of the model that
  returns an \<open>error\<close>.  Float tensors hold reals.  The definitions of the first sections
  compute on them exactly; the sections on float32 arithmetic further down give the
  operations of the code with the rounding of every float32 operation.
  Index tensors (\<open>long\<close>) that the code only fills with non-negative values hold
  naturals; the adjacency of operations and machines is a \<open>long\<close> tensor that the
  code multiplies into the processing times and holds integers.
\<close>

datatype error = IndexError | ShapeError

definition tsum :: "(nat \<Rightarrow> real) \<Rightarrow> nat \<Rightarrow> real" where
  "tsum f n = sum_list (map f [0..<n])"

definition count_nonzero :: "(nat \<Rightarrow> int) \<Rightarrow> nat \<Rightarrow> nat" where
  "count_nonzero f n = length (filter (\<lambda>i. f i \<noteq> 0) [0..<n])"

primrec max_to :: "(nat \<Rightarrow> real) \<Rightarrow> nat \<Rightarrow> real" where
  "max_to f 0 = f 0"
| "max_to f (Suc n) = max (max_to f n) (f (Suc n))"

primrec min_to :: "(nat \<Rightarrow> real) \<Rightarrow> nat \<Rightarrow> real" where
  "min_to f 0 = f 0"
| "min_to f (Suc n) = min (min_to f n) (f (Suc n))"

text \<open>\<open>torch.max\<close> and \<open>torch.min\<close> over a dimension of length \<open>n\<close>; the callers
  rule out \<open>n = 0\<close>, where torch raises.\<close>

definition tmax :: "(nat \<Rightarrow> real) \<Rightarrow> nat \<Rightarrow> real" where
  "tmax f n = max_to f (n - 1)"

definition tmin :: "(nat \<Rightarrow> real) \<Rightarrow> nat \<Rightarrow> real" where
  "tmin f n = min_to f (n - 1)"

definition tall :: "(nat \<Rightarrow> bool) \<Rightarrow> nat \<Rightarrow> bool" where
  "tall p n = list_all p [0..<n]"

definition tany :: "(nat \<Rightarrow> bool) \<Rightarrow> nat \<Rightarrow> bool" where
  "tany p n = list_ex p [0..<n]"

text \<open>\<open>Tensor.long()\<close> and Python's \<open>int()\<close> on a float truncate towards zero.\<close>

definition trunc :: "real \<Rightarrow> int" where
  "trunc x = (if 0 \<le> x then \<lfloor>x\<rfloor> else \<lceil>x\<rceil>)"

text \<open>Indexing a Python list or a tensor dimension of length \<open>n\<close> with an integer:
  a negative index counts from the end, anything else out of range raises.\<close>

definition py_index :: "int \<Rightarrow> nat \<Rightarrow> nat option" where
  "py_index i n =
     (if 0 \<le> i \<and> i < int n then Some (nat i)
      else if - int n \<le> i \<and> i < 0 then Some (nat (int n + i))
      else None)"

section \<open>The state snapshot and the environment\<close>

text \<open>The dataclass \<open>EnvState\<close>; its fields carry the prefix \<open>st_\<close> because the
  environment has attributes of the same names.\<close>

record EnvState =
  st_opes_appertain_batch :: "nat \<Rightarrow> nat \<Rightarrow> nat"
  st_ope_pre_adj_batch :: "nat \<Rightarrow> nat \<Rightarrow> nat \<Rightarrow> bool"
  st_ope_sub_adj_batch :: "nat \<Rightarrow> nat \<Rightarrow> nat \<Rightarrow> bool"
  st_end_ope_biases_batch :: "nat \<Rightarrow> nat \<Rightarrow> nat"
  st_nums_opes_batch :: "nat \<Rightarrow> nat"
  st_batch_idxes :: "nat list"
  st_feat_opes_batch :: "nat \<Rightarrow> nat \<Rightarrow> nat \<Rightarrow> real"
  st_feat_mas_batch :: "nat \<Rightarrow> nat \<Rightarrow> nat \<Rightarrow> real"
  st_proc_times_batch :: "nat \<Rightarrow> nat \<Rightarrow> nat \<Rightarrow> real"
  st_ope_ma_adj_batch :: "nat \<Rightarrow> nat \<Rightarrow> nat \<Rightarrow> int"
  st_mask_job_procing_batch :: "nat \<Rightarrow> nat \<Rightarrow> bool"
  st_mask_job_finish_batch :: "nat \<Rightarrow> nat \<Rightarrow> bool"
  st_mask_ma_procing_batch :: "nat \<Rightarrow> nat \<Rightarrow> bool"
  st_ope_step_batch :: "nat \<Rightarrow> nat \<Rightarrow> nat"
  st_time_batch :: "nat \<Rightarrow> real"

text \<open>
  The attributes of \<open>FJSPEnv\<close>.  \<open>feat_opes_batch b k o\<close> is feature \<open>k\<close> of operation
  \<open>o\<close> (0 status, 1 number of neighbouring machines, 2 processing time, 3 unscheduled
  operations of the job, 4 job completion time, 5 start time); \<open>feat_mas_batch b k m\<close>
  is feature \<open>k\<close> of machine \<open>m\<close> (0 neighbouring operations, 1 available time,
  2 utilisation); \<open>schedules_batch b o k\<close> has \<open>k\<close> = 0 status, 1 machine, 2 start,
  3 end; \<open>machines_batch b m k\<close> has \<open>k\<close> = 0 idle, 1 available time, 2 utilisation
  time, 3 job.  \<open>reward_batch\<close> and \<open>done_flag\<close> (the attribute \<open>done\<close>) do not exist
  before the first \<open>step\<close>.

  \<open>state_shared\<close> records the one aliasing fact the methods depend on: after
  \<open>__init__\<close> and after \<open>state.update\<close> the tensors of the snapshot are the very
  objects the environment mutates in place, after \<open>reset\<close> (a deep copy) they are not.
\<close>

record FJSPEnv =
  batch_size :: nat
  num_jobs :: nat
  num_mas :: nat
  num_opes :: nat
  proc_times_batch :: "nat \<Rightarrow> nat \<Rightarrow> nat \<Rightarrow> real"
  ope_ma_adj_batch :: "nat \<Rightarrow> nat \<Rightarrow> nat \<Rightarrow> int"
  cal_cumul_adj_batch :: "nat \<Rightarrow> nat \<Rightarrow> nat \<Rightarrow> real"
  ope_pre_adj_batch :: "nat \<Rightarrow> nat \<Rightarrow> nat \<Rightarrow> bool"
  ope_sub_adj_batch :: "nat \<Rightarrow> nat \<Rightarrow> nat \<Rightarrow> bool"
  opes_appertain_batch :: "nat \<Rightarrow> nat \<Rightarrow> nat"
  num_ope_biases_batch :: "nat \<Rightarrow> nat \<Rightarrow> nat"
  nums_ope_batch :: "nat \<Rightarrow> nat \<Rightarrow> nat"
  end_ope_biases_batch :: "nat \<Rightarrow> nat \<Rightarrow> nat"
  nums_opes :: "nat \<Rightarrow> nat"
  batch_idxes :: "nat list"
  time :: "nat \<Rightarrow> real"
  N :: "nat \<Rightarrow> nat"
  ope_step_batch :: "nat \<Rightarrow> nat \<Rightarrow> nat"
  feat_opes_batch :: "nat \<Rightarrow> nat \<Rightarrow> nat \<Rightarrow> real"
  feat_mas_batch :: "nat \<Rightarrow> nat \<Rightarrow> nat \<Rightarrow> real"
  mask_job_procing_batch :: "nat \<Rightarrow> nat \<Rightarrow> bool"
  mask_job_finish_batch :: "nat \<Rightarrow> nat \<Rightarrow> bool"
  mask_ma_procing_batch :: "nat \<Rightarrow> nat \<Rightarrow> bool"
  schedules_batch :: "nat \<Rightarrow> nat \<Rightarrow> nat \<Rightarrow> real"
  machines_batch :: "nat \<Rightarrow> nat \<Rightarrow> nat \<Rightarrow> real"
  makespan_batch :: "nat \<Rightarrow> real"
  done_batch :: "nat \<Rightarrow> bool"
  reward_batch :: "(nat \<Rightarrow> real) option"
  done_flag :: "bool option"
  state :: EnvState
  state_shared :: bool
  old_proc_times_batch :: "nat \<Rightarrow> nat \<Rightarrow> nat \<Rightarrow> real"
  old_ope_ma_adj_batch :: "nat \<Rightarrow> nat \<Rightarrow> nat \<Rightarrow> int"
  old_cal_cumul_adj_batch :: "nat \<Rightarrow> nat \<Rightarrow> nat \<Rightarrow> real"
  old_feat_opes_batch :: "nat \<Rightarrow> nat \<Rightarrow> nat \<Rightarrow> real"
  old_feat_mas_batch :: "nat \<Rightarrow> nat \<Rightarrow> nat \<Rightarrow> real"
  old_state :: EnvState

text \<open>
  The eight tensors that \<open>load_fjs\<close> returns for every instance, stacked over the
  batch as \<open>__init__\<close> stacks them.  \<open>env/load_data.py\<close> is not among the sources, so
  the loaded data is a parameter of the model.
\<close>

record load_data =
  ld_proc_times :: "nat \<Rightarrow> nat \<Rightarrow> nat \<Rightarrow> real"
  ld_ope_ma_adj :: "nat \<Rightarrow> nat \<Rightarrow> nat \<Rightarrow> int"
  ld_ope_pre_adj :: "nat \<Rightarrow> nat \<Rightarrow> nat \<Rightarrow> bool"
  ld_ope_sub_adj :: "nat \<Rightarrow> nat \<Rightarrow> nat \<Rightarrow> bool"
  ld_opes_appertain :: "nat \<Rightarrow> nat \<Rightarrow> nat"
  ld_num_ope_biases :: "nat \<Rightarrow> nat \<Rightarrow> nat"
  ld_nums_ope :: "nat \<Rightarrow> nat \<Rightarrow> nat"
  ld_cal_cumul_adj :: "nat \<Rightarrow> nat \<Rightarrow> nat \<Rightarrow> real"

text \<open>\<open>convert_feat_job_2_ope\<close>: \<open>result[i, j] = feat_job_batch[i, opes_appertain_batch[i, j]]\<close>.\<close>

definition convert_feat_job_2_ope ::
  "(nat \<Rightarrow> nat \<Rightarrow> 'a) \<Rightarrow> (nat \<Rightarrow> nat \<Rightarrow> nat) \<Rightarrow> nat \<Rightarrow> nat \<Rightarrow> 'a" where
  "convert_feat_job_2_ope feat_job_batch opes_appertain = (\<lambda>b i. feat_job_batch b (opes_appertain b i))"

text \<open>\<open>EnvState.update\<close>: only the dynamic fields are replaced.\<close>

definition update ::
  "EnvState \<Rightarrow> nat list \<Rightarrow> (nat \<Rightarrow> nat \<Rightarrow> nat \<Rightarrow> real) \<Rightarrow> (nat \<Rightarrow> nat \<Rightarrow> nat \<Rightarrow> real) \<Rightarrow>
   (nat \<Rightarrow> nat \<Rightarrow> nat \<Rightarrow> real) \<Rightarrow> (nat \<Rightarrow> nat \<Rightarrow> nat \<Rightarrow> int) \<Rightarrow> (nat \<Rightarrow> nat \<Rightarrow> bool) \<Rightarrow>
   (nat \<Rightarrow> nat \<Rightarrow> bool) \<Rightarrow> (nat \<Rightarrow> nat \<Rightarrow> bool) \<Rightarrow> (nat \<Rightarrow> nat \<Rightarrow> nat) \<Rightarrow> (nat \<Rightarrow> real) \<Rightarrow> EnvState" where
  "update st bi fo fm pt adj mjp mjf mmp os tb =
     st\<lparr>st_batch_idxes := bi, st_feat_opes_batch := fo, st_feat_mas_batch := fm,
        st_proc_times_batch := pt, st_ope_ma_adj_batch := adj,
        st_mask_job_procing_batch := mjp, st_mask_job_finish_batch := mjf,
        st_mask_ma_procing_batch := mmp, st_ope_step_batch := os, st_time_batch := tb\<rparr>"

section \<open>Construction\<close>

text \<open>
  \<open>__init__\<close>.  Its arguments are the parameters \<open>batch_size\<close>, \<open>num_jobs\<close>, \<open>num_mas\<close>
  of \<open>env_paras\<close>, the padded operation count \<open>num_opes\<close> (the maximum that
  \<open>nums_detec\<close> reports over the batch) and the loaded tensors.  The callers in
  \<^verbatim>\<open>test.py\<close> and \<^verbatim>\<open>train.py\<close> set \<open>num_jobs\<close> and \<open>num_mas\<close> of \<open>env_paras\<close> to the sizes
  of the instance, so the model has one \<open>num_jobs\<close> and one \<open>num_mas\<close>.

  The exceptions of torch that the constructor can meet are branches: \<open>torch.stack\<close>
  of an empty list, \<open>squeeze()\<close> removing the operation dimension when it has length
  one (the assignment to \<open>feat_opes_batch[:, 5, :]\<close> then fails for a batch of more
  than one), \<open>gather\<close> with an index outside its dimension, and \<open>torch.max\<close> over an
  empty dimension.
\<close>

definition init :: "nat \<Rightarrow> nat \<Rightarrow> nat \<Rightarrow> nat \<Rightarrow> load_data \<Rightarrow> error + FJSPEnv" where
  "init bs nj nm n_opes ld =
    (let proc_times = ld_proc_times ld;
         ope_ma_adj = ld_ope_ma_adj ld;
         cal_cumul_adj = ld_cal_cumul_adj ld;
         opes_appertain = ld_opes_appertain ld;
         num_ope_biases = ld_num_ope_biases ld;
         nums_ope = ld_nums_ope ld;
         end_ope_biases = (\<lambda>b j. num_ope_biases b j + nums_ope b j - 1);
         nums_opes_v = (\<lambda>b. sum_list (map (nums_ope b) [0..<nj]));
         feat1 = (\<lambda>b i. real (count_nonzero (ope_ma_adj b i) nm));
         feat2 = (\<lambda>b i. tsum (proc_times b i) nm / (feat1 b i + 1 / 10 ^ 9));
         feat3 = convert_feat_job_2_ope (\<lambda>b j. real (nums_ope b j)) opes_appertain;
         feat5 = (\<lambda>b i. tsum (\<lambda>k. feat2 b k * cal_cumul_adj b k i) n_opes);
         end_time_batch = (\<lambda>b j. feat5 b (end_ope_biases b j) + feat2 b (end_ope_biases b j));
         feat4 = convert_feat_job_2_ope end_time_batch opes_appertain;
         feat_opes = (\<lambda>b k i. if k = 1 then feat1 b i else if k = 2 then feat2 b i
                        else if k = 3 then feat3 b i else if k = 4 then feat4 b i
                        else if k = 5 then feat5 b i else 0);
         feat_mas = (\<lambda>b k m. if k = 0 then real (count_nonzero (\<lambda>i. ope_ma_adj b i m) n_opes) else 0);
         mask_job_procing = (\<lambda>b j. False);
         mask_job_finish = (\<lambda>b j. False);
         mask_ma_procing = (\<lambda>b m. False);
         schedules = (\<lambda>b i k. if k = 2 then feat_opes b 5 i
                        else if k = 3 then feat_opes b 5 i + feat_opes b 2 i else 0);
         machines = (\<lambda>b m k. if k = 0 then 1 else 0);
         st = \<lparr>st_opes_appertain_batch = opes_appertain,
               st_ope_pre_adj_batch = ld_ope_pre_adj ld,
               st_ope_sub_adj_batch = ld_ope_sub_adj ld,
               st_end_ope_biases_batch = end_ope_biases,
               st_nums_opes_batch = nums_opes_v,
               st_batch_idxes = [0..<bs],
               st_feat_opes_batch = feat_opes,
               st_feat_mas_batch = feat_mas,
               st_proc_times_batch = proc_times,
               st_ope_ma_adj_batch = ope_ma_adj,
               st_mask_job_procing_batch = mask_job_procing,
               st_mask_job_finish_batch = mask_job_finish,
               st_mask_ma_procing_batch = mask_ma_procing,
               st_ope_step_batch = num_ope_biases,
               st_time_batch = (\<lambda>b. 0)\<rparr>
     in if bs = 0 then Inl ShapeError
        else if n_opes = 1 \<and> 1 < bs then Inl ShapeError
        else if \<not> tall (\<lambda>b. tall (\<lambda>i. opes_appertain b i < nj) n_opes) bs then Inl IndexError
        else if \<not> tall (\<lambda>b. tall (\<lambda>j. 0 \<le> int (num_ope_biases b j) + int (nums_ope b j) - 1
                    \<and> int (num_ope_biases b j) + int (nums_ope b j) - 1 < int n_opes) nj) bs
          then Inl IndexError
        else if n_opes = 0 then Inl ShapeError
        else Inr \<lparr>batch_size = bs, num_jobs = nj, num_mas = nm, num_opes = n_opes,
                  proc_times_batch = proc_times,
                  ope_ma_adj_batch = ope_ma_adj,
                  cal_cumul_adj_batch = cal_cumul_adj,
                  ope_pre_adj_batch = ld_ope_pre_adj ld,
                  ope_sub_adj_batch = ld_ope_sub_adj ld,
                  opes_appertain_batch = opes_appertain,
                  num_ope_biases_batch = num_ope_biases,
                  nums_ope_batch = nums_ope,
                  end_ope_biases_batch = end_ope_biases,
                  nums_opes = nums_opes_v,
                  batch_idxes = [0..<bs],
                  time = (\<lambda>b. 0),
                  N = (\<lambda>b. 0),
                  ope_step_batch = num_ope_biases,
                  feat_opes_batch = feat_opes,
                  feat_mas_batch = feat_mas,
                  mask_job_procing_batch = mask_job_procing,
                  mask_job_finish_batch = mask_job_finish,
                  mask_ma_procing_batch = mask_ma_procing,
                  schedules_batch = schedules,
                  machines_batch = machines,
                  makespan_batch = (\<lambda>b. tmax (feat_opes b 4) n_opes),
                  done_batch = (\<lambda>b. tall (mask_job_finish b) nj),
                  reward_batch = None,
                  done_flag = None,
                  state = st,
                  state_shared = True,
                  old_proc_times_batch = proc_times,
                  old_ope_ma_adj_batch = ope_ma_adj,
                  old_cal_cumul_adj_batch = cal_cumul_adj,
                  old_feat_opes_batch = feat_opes,
                  old_feat_mas_batch = feat_mas,
                  old_state = st\<rparr>)"

section \<open>The transition\<close>

text \<open>
  \<open>actions\<close> is a tensor of shape \<open>(3, k)\<close>; column \<open>i\<close> is the decision
  \<open>(ope, ma, job)\<close> for the instance \<open>batch_idxes[i]\<close>.  It is modelled as the list of
  its columns.  The entries come from the policy as indices and are naturals.
\<close>

type_synonym action = "nat \<times> nat \<times> nat"

definition act_of :: "FJSPEnv \<Rightarrow> action list \<Rightarrow> nat \<Rightarrow> action option" where
  "act_of s actions = map_of (zip (batch_idxes s) actions)"

text \<open>
  The exceptions \<open>step\<close> can meet before it changes anything that a later line reads:
  a column count that differs from the number of active instances (the \<open>torch.stack\<close>
  calls need equal lengths), an index outside its dimension, the \<open>squeeze()\<close> of a
  single-operation dimension, a \<open>gather\<close> index out of range, a reduction over an
  empty dimension.  The code has no check of its own on the decision.
\<close>

definition step_check :: "FJSPEnv \<Rightarrow> action list \<Rightarrow> error option" where
  "step_check s actions =
    (if length actions \<noteq> length (batch_idxes s) then Some ShapeError
     else if \<not> list_all (\<lambda>b. b < batch_size s) (batch_idxes s) then Some IndexError
     else if \<not> list_all (\<lambda>(ope, ma, job). ope < num_opes s \<and> ma < num_mas s \<and> job < num_jobs s) actions
       then Some IndexError
     else if num_opes s = 1 \<and> 1 < length (batch_idxes s) then Some ShapeError
     else if \<not> list_all (\<lambda>b. tall (\<lambda>j. end_ope_biases_batch s b j < num_opes s) (num_jobs s)
                \<and> tall (\<lambda>i. opes_appertain_batch s b i < num_jobs s) (num_opes s)) (batch_idxes s)
       then Some IndexError
     else if num_opes s = 0 then Some ShapeError
     else None)"

text \<open>
  Lines 272 to 354 of \<open>step\<close>, in the order of the source.  Every update written with
  \<open>self.batch_idxes\<close> touches the active instances only (\<open>A b = Some (ope, ma, job)\<close>);
  \<open>self.N += 1\<close>, \<open>self.proc_times_batch *= self.ope_ma_adj_batch\<close>, the finish mask,
  the done flags and the reward are computed for the whole batch.
\<close>

definition step_update :: "FJSPEnv \<Rightarrow> action list \<Rightarrow> FJSPEnv" where
  "step_update s actions =
    (let A = act_of s actions;
         N1 = (\<lambda>b. N s b + 1);
         remain_ope_ma_adj = (\<lambda>b m. case A b of None \<Rightarrow> (0::int)
                                | Some (ope, ma, job) \<Rightarrow> if m = ma then 1 else 0);
         ope_ma_adj = (\<lambda>b i m. case A b of None \<Rightarrow> ope_ma_adj_batch s b i m
                         | Some (ope, ma, job) \<Rightarrow>
                             if i = ope then remain_ope_ma_adj b m else ope_ma_adj_batch s b i m);
         proc_times_b = (\<lambda>b i m. proc_times_batch s b i m * of_int (ope_ma_adj b i m));
         proc_times = (\<lambda>b. case A b of None \<Rightarrow> 0 | Some (ope, ma, job) \<Rightarrow> proc_times_b b ope ma);
         feat_a = (\<lambda>b k i. case A b of None \<Rightarrow> feat_opes_batch s b k i
                     | Some (ope, ma, job) \<Rightarrow>
                         if i = ope \<and> k < 3 then (if k = 2 then proc_times b else 1)
                         else feat_opes_batch s b k i);
         last_opes = (\<lambda>b. case A b of None \<Rightarrow> 0
                        | Some (ope, ma, job) \<Rightarrow>
                            if int ope - 1 < int (num_ope_biases_batch s b job)
                            then num_opes s - 1 else ope - 1);
         cal_cumul_adj = (\<lambda>b i k. case A b of None \<Rightarrow> cal_cumul_adj_batch s b i k
                            | Some a \<Rightarrow> if i = last_opes b then 0 else cal_cumul_adj_batch s b i k);
         feat_b = (\<lambda>b k i. case A b of None \<Rightarrow> feat_a b k i
                     | Some (ope, ma, job) \<Rightarrow>
                         if k = 3 \<and> num_ope_biases_batch s b job \<le> i
                            \<and> i < end_ope_biases_batch s b job + 1 \<and> i < num_opes s
                         then feat_a b k i - 1 else feat_a b k i);
         feat_c = (\<lambda>b k i. case A b of None \<Rightarrow> feat_b b k i
                     | Some (ope, ma, job) \<Rightarrow> if k = 5 \<and> i = ope then time s b else feat_b b k i);
         is_scheduled = (\<lambda>b i. feat_c b 0 i);
         mean_proc_time = (\<lambda>b i. feat_c b 2 i);
         start_times = (\<lambda>b i. feat_c b 5 i * is_scheduled b i);
         un_scheduled = (\<lambda>b i. 1 - is_scheduled b i);
         estimate_times = (\<lambda>b i. tsum (\<lambda>k. (start_times b k + mean_proc_time b k) * cal_cumul_adj b k i)
                                     (num_opes s) * un_scheduled b i);
         feat_d = (\<lambda>b k i. case A b of None \<Rightarrow> feat_c b k i
                     | Some a \<Rightarrow> if k = 5 then start_times b i + estimate_times b i else feat_c b k i);
         end_time_batch = (\<lambda>b j. feat_d b 5 (end_ope_biases_batch s b j)
                                  + feat_d b 2 (end_ope_biases_batch s b j));
         feat_e = (\<lambda>b k i. case A b of None \<Rightarrow> feat_d b k i
                     | Some a \<Rightarrow> if k = 4 then convert_feat_job_2_ope end_time_batch (opes_appertain_batch s) b i
                                 else feat_d b k i);
         schedules = (\<lambda>b i k. case A b of None \<Rightarrow> schedules_batch s b i k
                        | Some (ope, ma, job) \<Rightarrow>
                            if k = 2 then feat_e b 5 i
                            else if k = 3 then feat_e b 5 i + feat_e b 2 i
                            else if i = ope \<and> k = 0 then 1
                            else if i = ope \<and> k = 1 then real ma
                            else schedules_batch s b i k);
         machines = (\<lambda>b m k. case A b of None \<Rightarrow> machines_batch s b m k
                       | Some (ope, ma, job) \<Rightarrow>
                           if m = ma then
                             (if k = 0 then 0
                              else if k = 1 then time s b + proc_times b
                              else if k = 2 then machines_batch s b m 2 + proc_times b
                              else if k = 3 then real job
                              else machines_batch s b m k)
                           else machines_batch s b m k);
         utiliz = (\<lambda>b m. min (machines b m 2) (time s b) / (time s b + 1 / 10 ^ 9));
         feat_mas = (\<lambda>b k m. case A b of None \<Rightarrow> feat_mas_batch s b k m
                       | Some (ope, ma, job) \<Rightarrow>
                           if k = 0 then real (count_nonzero (\<lambda>i. ope_ma_adj b i m) (num_opes s))
                           else if k = 1 \<and> m = ma then time s b + proc_times b
                           else if k = 2 then utiliz b m
                           else feat_mas_batch s b k m);
         ope_step = (\<lambda>b j. case A b of None \<Rightarrow> ope_step_batch s b j
                       | Some (ope, ma, job) \<Rightarrow>
                           if j = job then ope_step_batch s b j + 1 else ope_step_batch s b j);
         mask_job_procing = (\<lambda>b j. case A b of None \<Rightarrow> mask_job_procing_batch s b j
                               | Some (ope, ma, job) \<Rightarrow> if j = job then True else mask_job_procing_batch s b j);
         mask_ma_procing = (\<lambda>b m. case A b of None \<Rightarrow> mask_ma_procing_batch s b m
                              | Some (ope, ma, job) \<Rightarrow> if m = ma then True else mask_ma_procing_batch s b m);
         mask_job_finish = (\<lambda>b j. if ope_step b j = end_ope_biases_batch s b j + 1 then True
                                   else mask_job_finish_batch s b j);
         done_b = (\<lambda>b. tall (mask_job_finish b) (num_jobs s));
         max_val = (\<lambda>b. tmax (feat_e b 4) (num_opes s))
     in s\<lparr>N := N1,
          ope_ma_adj_batch := ope_ma_adj,
          proc_times_batch := proc_times_b,
          cal_cumul_adj_batch := cal_cumul_adj,
          feat_opes_batch := feat_e,
          schedules_batch := schedules,
          machines_batch := machines,
          feat_mas_batch := feat_mas,
          ope_step_batch := ope_step,
          mask_job_procing_batch := mask_job_procing,
          mask_ma_procing_batch := mask_ma_procing,
          mask_job_finish_batch := mask_job_finish,
          done_batch := done_b,
          done_flag := Some (tall done_b (batch_size s)),
          reward_batch := Some (\<lambda>b. makespan_batch s b - max_val b),
          makespan_batch := max_val\<rparr>)"

text \<open>
  \<open>if_no_eligible\<close>: for every instance the sum, over the jobs and the machines, of
  the processing time of the job's current operation on the machine, counted where
  the machine is not in process and the job is neither in process nor finished.  A
  value of 0 says that the instance has no eligible pair.  The \<open>gather\<close> raises when
  the clipped operation pointer lies outside the operation dimension.
\<close>

definition if_no_eligible :: "FJSPEnv \<Rightarrow> error + (nat \<Rightarrow> real)" where
  "if_no_eligible s =
    (let ope_step = (\<lambda>b j. if ope_step_batch s b j > end_ope_biases_batch s b j
                             then end_ope_biases_batch s b j else ope_step_batch s b j);
         op_proc_time = (\<lambda>b j m. proc_times_batch s b (ope_step b j) m);
         ma_eligible = (\<lambda>b j m. \<not> mask_ma_procing_batch s b m);
         job_eligible = (\<lambda>b j m. \<not> (mask_job_procing_batch s b j \<or> mask_job_finish_batch s b j));
         flag_trans_2_next_time =
           (\<lambda>b. tsum (\<lambda>m. tsum (\<lambda>j. if ma_eligible b j m \<and> job_eligible b j m
                                         then op_proc_time b j m else 0) (num_jobs s)) (num_mas s))
     in if \<not> tall (\<lambda>b. tall (\<lambda>j. ope_step b j < num_opes s) (num_jobs s)) (batch_size s)
        then Inl IndexError
        else Inr flag_trans_2_next_time)"

text \<open>
  \<open>next_time\<close>, first its intermediate tensors: \<open>flag_need_trans\<close>; the largest job
  completion feature of the whole batch, \<open>torch.max(self.feat_opes_batch[:, 4, :])\<close>;
  the time \<open>c\<close> an instance moves to, the minimum over the machines of \<open>b\<close>, which is
  the available time where that is later than the clock and the largest feature
  plus 1 elsewhere; the mask \<open>d\<close> of the machines that are released; and \<open>jobs\<close>, the
  job field of a released machine and -1 elsewhere.
\<close>

definition flag_need_trans :: "(nat \<Rightarrow> real) \<Rightarrow> FJSPEnv \<Rightarrow> nat \<Rightarrow> bool" where
  "flag_need_trans flag_trans_2_next_time s b \<longleftrightarrow>
     flag_trans_2_next_time b = 0 \<and> \<not> done_batch s b"

definition max_feat :: "FJSPEnv \<Rightarrow> real" where
  "max_feat s = tmax (\<lambda>b. tmax (feat_opes_batch s b 4) (num_opes s)) (batch_size s)"

definition next_clock :: "FJSPEnv \<Rightarrow> nat \<Rightarrow> real" where
  "next_clock s b =
     tmin (\<lambda>m. if machines_batch s b m 1 > time s b then machines_batch s b m 1 else max_feat s + 1)
       (num_mas s)"

definition freed :: "(nat \<Rightarrow> real) \<Rightarrow> FJSPEnv \<Rightarrow> nat \<Rightarrow> nat \<Rightarrow> bool" where
  "freed flag s b m \<longleftrightarrow>
     machines_batch s b m 1 = next_clock s b \<and> machines_batch s b m 0 = 0 \<and> flag_need_trans flag s b"

definition freed_jobs :: "(nat \<Rightarrow> real) \<Rightarrow> FJSPEnv \<Rightarrow> nat \<Rightarrow> nat \<Rightarrow> real" where
  "freed_jobs flag s b m = (if freed flag s b m then machines_batch s b m 3 else - 1)"

text \<open>
  \<open>torch.min\<close> over no machine and \<open>torch.max\<close> over an empty feature tensor raise, and
  so does the write to \<open>mask_job_procing_batch\<close> when a job read back from a released
  machine (with \<open>.long()\<close>) is no job.
\<close>

definition next_time_check :: "(nat \<Rightarrow> real) \<Rightarrow> FJSPEnv \<Rightarrow> error option" where
  "next_time_check flag s =
     (if num_mas s = 0 \<or> num_opes s = 0 \<or> batch_size s = 0 then Some ShapeError
      else if tany (\<lambda>b. tany (\<lambda>m. freed_jobs flag s b m \<ge> 0
                                  \<and> py_index (trunc (freed_jobs flag s b m)) (num_jobs s) = None)
                           (num_mas s)) (batch_size s)
        then Some IndexError
      else None)"

text \<open>
  The writes of \<open>next_time\<close>.  \<open>aa[d, 0] = 1\<close> on the transposed machine tensor sets
  field 0 (idle) of the machines selected by \<open>d\<close>.  \<open>self.time\<close>,
  \<open>self.machines_batch\<close> and \<open>self.mask_job_finish_batch\<close> are rebound to new tensors;
  the utilisation feature and the two in-process masks are written in place, so the
  snapshot sees them exactly when it shares the tensors.
\<close>

definition next_time_update :: "(nat \<Rightarrow> real) \<Rightarrow> FJSPEnv \<Rightarrow> FJSPEnv" where
  "next_time_update flag s =
    (let e = (\<lambda>b. if flag_need_trans flag s b then next_clock s b else time s b);
         machines = (\<lambda>b m k. if freed flag s b m \<and> k = 0 then 1 else machines_batch s b m k);
         utiliz = (\<lambda>b m. min (machines b m 2) (e b) / (e b + 1 / 10 ^ 5));
         feat_mas = (\<lambda>b k m. if k = 2 then utiliz b m else feat_mas_batch s b k m);
         released = (\<lambda>b j. tany (\<lambda>m. freed_jobs flag s b m \<ge> 0
                                    \<and> py_index (trunc (freed_jobs flag s b m)) (num_jobs s) = Some j)
                             (num_mas s));
         mask_job_procing = (\<lambda>b j. if released b j then False else mask_job_procing_batch s b j);
         mask_ma_procing = (\<lambda>b m. if freed flag s b m then False else mask_ma_procing_batch s b m);
         mask_job_finish = (\<lambda>b j. if ope_step_batch s b j = end_ope_biases_batch s b j + 1 then True
                                   else mask_job_finish_batch s b j)
     in s\<lparr>time := e,
          machines_batch := machines,
          feat_mas_batch := feat_mas,
          mask_job_procing_batch := mask_job_procing,
          mask_ma_procing_batch := mask_ma_procing,
          mask_job_finish_batch := mask_job_finish,
          state := (if state_shared s
                    then (state s)\<lparr>st_feat_mas_batch := feat_mas,
                           st_mask_job_procing_batch := mask_job_procing,
                           st_mask_ma_procing_batch := mask_ma_procing\<rparr>
                    else state s)\<rparr>)"

definition next_time :: "(nat \<Rightarrow> real) \<Rightarrow> FJSPEnv \<Rightarrow> error + FJSPEnv" where
  "next_time flag_trans_2_next_time s =
     (case next_time_check flag_trans_2_next_time s of
        Some err \<Rightarrow> Inl err
      | None \<Rightarrow> Inr (next_time_update flag_trans_2_next_time s))"

text \<open>
  The loop of lines 357 to 360: while some instance has flag 0 and is not done,
  call \<open>next_time\<close>.  The loop has no bound in the code, so it is a partial function:
  \<open>None\<close> is a loop that never ends.
\<close>

definition need_trans :: "FJSPEnv \<Rightarrow> (nat \<Rightarrow> real) \<Rightarrow> bool" where
  "need_trans s flag = tany (\<lambda>b. flag b = 0 \<and> \<not> done_batch s b) (batch_size s)"

partial_function (option) time_advance :: "FJSPEnv \<Rightarrow> (error + FJSPEnv) option" where
  "time_advance s =
    (case if_no_eligible s of
       Inl err \<Rightarrow> Some (Inl err)
     | Inr flag \<Rightarrow>
         if need_trans s flag
         then (case next_time flag s of
                 Inl err \<Rightarrow> Some (Inl err)
               | Inr s' \<Rightarrow> time_advance s')
         else Some (Inr s))"

text \<open>The same loop with a bound on the number of calls of \<open>next_time\<close>: \<open>None\<close> when
  the bound does not suffice.\<close>

primrec time_advance_within :: "nat \<Rightarrow> FJSPEnv \<Rightarrow> (error + FJSPEnv) option" where
  "time_advance_within 0 s =
    (case if_no_eligible s of
       Inl err \<Rightarrow> Some (Inl err)
     | Inr flag \<Rightarrow> if need_trans s flag then None else Some (Inr s))"
| "time_advance_within (Suc n) s =
    (case if_no_eligible s of
       Inl err \<Rightarrow> Some (Inl err)
     | Inr flag \<Rightarrow>
         if need_trans s flag
         then (case next_time flag s of
                 Inl err \<Rightarrow> Some (Inl err)
               | Inr s' \<Rightarrow> time_advance_within n s')
         else Some (Inr s))"

text \<open>Lines 362 to 371: the active instances are recomputed when some instance has
  all its operations counted, and the snapshot takes the dynamic tensors.\<close>

definition step_finish :: "FJSPEnv \<Rightarrow> FJSPEnv" where
  "step_finish s =
    (let mask_finish = (\<lambda>b. N s b + 1 \<le> nums_opes s b);
         bi = (if \<not> tall mask_finish (batch_size s)
               then filter mask_finish [0..<batch_size s] else batch_idxes s)
     in s\<lparr>batch_idxes := bi,
          state := update (state s) bi (feat_opes_batch s) (feat_mas_batch s) (proc_times_batch s)
                     (ope_ma_adj_batch s) (mask_job_procing_batch s) (mask_job_finish_batch s)
                     (mask_ma_procing_batch s) (ope_step_batch s) (time s),
          state_shared := True\<rparr>)"

text \<open>\<open>step\<close> returns the environment after the call; the triple of the source is
  \<open>(state, reward_batch, done_batch)\<close> of that environment.\<close>

definition step :: "FJSPEnv \<Rightarrow> action list \<Rightarrow> (error + FJSPEnv) option" where
  "step s actions =
    (case step_check s actions of
       Some err \<Rightarrow> Some (Inl err)
     | None \<Rightarrow>
         (case time_advance (step_update s actions) of
            None \<Rightarrow> None
          | Some (Inl err) \<Rightarrow> Some (Inl err)
          | Some (Inr s') \<Rightarrow> Some (Inr (step_finish s'))))"

section \<open>Reset\<close>

definition reset :: "FJSPEnv \<Rightarrow> FJSPEnv" where
  "reset s =
    (let feat_opes = old_feat_opes_batch s;
         mask_job_finish = (\<lambda>b j. False)
     in s\<lparr>proc_times_batch := old_proc_times_batch s,
          ope_ma_adj_batch := old_ope_ma_adj_batch s,
          cal_cumul_adj_batch := old_cal_cumul_adj_batch s,
          feat_opes_batch := feat_opes,
          feat_mas_batch := old_feat_mas_batch s,
          state := old_state s,
          state_shared := False,
          batch_idxes := [0..<batch_size s],
          time := (\<lambda>b. 0),
          N := (\<lambda>b. 0),
          ope_step_batch := num_ope_biases_batch s,
          mask_job_procing_batch := (\<lambda>b j. False),
          mask_job_finish_batch := mask_job_finish,
          mask_ma_procing_batch := (\<lambda>b m. False),
          schedules_batch := (\<lambda>b i k. if k = 2 then feat_opes b 5 i
                                else if k = 3 then feat_opes b 5 i + feat_opes b 2 i else 0),
          machines_batch := (\<lambda>b m k. if k = 0 then 1 else 0),
          makespan_batch := (\<lambda>b. tmax (feat_opes b 4) (num_opes s)),
          done_batch := (\<lambda>b. tall (mask_job_finish b) (num_jobs s))\<rparr>)"

section \<open>The validator\<close>

text \<open>
  \<open>validate_gantt\<close>.  \<open>ma_gantt s b i\<close> is the list \<open>ma_gantt_batch[b][i]\<close> after the
  sort by start time: the entries \<open>[operation, start, end]\<close> of the first
  \<open>nums_opes[b]\<close> operations whose schedule names machine \<open>i\<close>.  Python's sort is
  stable, as \<open>sort_key\<close> is.
\<close>

type_synonym gantt_entry = "nat \<times> real \<times> real"

definition ma_gantt :: "FJSPEnv \<Rightarrow> nat \<Rightarrow> nat \<Rightarrow> gantt_entry list" where
  "ma_gantt s b i =
     sort_key (\<lambda>(p, st, en). st)
       (map (\<lambda>p. (p, schedules_batch s b p 2, schedules_batch s b p 3))
          (filter (\<lambda>p. py_index (trunc (schedules_batch s b p 1)) (num_mas s) = Some i)
             [0..<nums_opes s b]))"

text \<open>The loop over \<open>j\<close> leaves at \<open>j = len - 1\<close> (and at once when the list has at
  most one entry), so its body runs for \<open>j < len - 1\<close>.\<close>

definition ma_overlap_count :: "gantt_entry list \<Rightarrow> nat" where
  "ma_overlap_count g =
     length (filter (\<lambda>j. snd (snd (g ! j)) > fst (snd (g ! (j + 1)))) [0..<length g - 1])"

definition proc_time_count :: "(nat \<Rightarrow> real) \<Rightarrow> gantt_entry list \<Rightarrow> nat" where
  "proc_time_count proc_time_i g =
     length (filter (\<lambda>j. snd (snd (g ! j)) - fst (snd (g ! j)) \<noteq> proc_time_i (fst (g ! j)))
               [0..<length g - 1])"

definition flag_ma_overlap_of :: "FJSPEnv \<Rightarrow> nat \<Rightarrow> nat" where
  "flag_ma_overlap_of s b =
     sum_list (map (\<lambda>i. ma_overlap_count (ma_gantt s b i)) [0..<num_mas s])"

definition flag_proc_time_of :: "FJSPEnv \<Rightarrow> nat \<Rightarrow> nat" where
  "flag_proc_time_of s b =
     sum_list (map (\<lambda>i. proc_time_count (\<lambda>p. proc_times_batch s b p i) (ma_gantt s b i))
                 [0..<num_mas s])"

definition flag_ope_overlap_of :: "FJSPEnv \<Rightarrow> nat \<Rightarrow> nat" where
  "flag_ope_overlap_of s b =
     sum_list (map (\<lambda>i. if nums_ope_batch s b i \<le> 1 then 0
                         else length (filter (\<lambda>j. schedules_batch s b (num_ope_biases_batch s b i + j) 3
                                                   > schedules_batch s b (num_ope_biases_batch s b i + j + 1) 2)
                                        [0..<nums_ope_batch s b i - 1]))
                 [0..<num_jobs s])"

definition flag_unscheduled_of :: "FJSPEnv \<Rightarrow> nat \<Rightarrow> nat" where
  "flag_unscheduled_of s b =
     (let count = length (filter (\<lambda>i. schedules_batch s b i 0 = 1) [0..<num_opes s])
      in if count = nums_opes s b then 0 else 1)"


text \<open>The index errors of the validator: more operations than the schedule has rows,
  a machine entry that is no machine, a job whose operations leave the schedule.\<close>

definition validate_index_ok :: "FJSPEnv \<Rightarrow> nat \<Rightarrow> bool" where
  "validate_index_ok s b =
     (nums_opes s b \<le> num_opes s
      \<and> list_all (\<lambda>p. py_index (trunc (schedules_batch s b p 1)) (num_mas s) \<noteq> None) [0..<nums_opes s b]
      \<and> list_all (\<lambda>i. nums_ope_batch s b i \<le> 1
                        \<or> num_ope_biases_batch s b i + nums_ope_batch s b i \<le> num_opes s) [0..<num_jobs s])"

definition validate_gantt :: "FJSPEnv \<Rightarrow> error + (bool \<times> (nat \<Rightarrow> nat \<Rightarrow> nat \<Rightarrow> real))" where
  "validate_gantt s =
     (if \<not> list_all (validate_index_ok s) [0..<batch_size s] then Inl IndexError
      else if sum_list (map (flag_ma_overlap_of s) [0..<batch_size s])
              + sum_list (map (flag_ope_overlap_of s) [0..<batch_size s])
              + sum_list (map (flag_proc_time_of s) [0..<batch_size s])
              + sum_list (map (flag_unscheduled_of s) [0..<batch_size s]) \<noteq> 0
      then Inr (False, schedules_batch s)
      else Inr (True, schedules_batch s))"

section \<open>An example instance\<close>

text \<open>
  One instance with one job of two operations and two machines.  Operation 0 runs on
  machine 0 only (3 time units); operation 1 runs on machine 0 (2) or machine 1 (4).
\<close>

definition ld_a :: load_data where
  "ld_a = \<lparr>ld_proc_times = (\<lambda>b i m. [[3, 0], [2, 4]] ! i ! m),
          ld_ope_ma_adj = (\<lambda>b i m. [[1, 0], [1, 1]] ! i ! m),
          ld_ope_pre_adj = (\<lambda>b i k. i = 0 \<and> k = 1),
          ld_ope_sub_adj = (\<lambda>b i k. i = 1 \<and> k = 0),
          ld_opes_appertain = (\<lambda>b i. 0),
          ld_num_ope_biases = (\<lambda>b j. 0),
          ld_nums_ope = (\<lambda>b j. 2),
          ld_cal_cumul_adj = (\<lambda>b i k. if i = 0 \<and> k = 1 then 1 else 0)\<rparr>"

definition env_a :: FJSPEnv where
  "env_a = projr (init 1 1 2 2 ld_a)"

section \<open>Predicates used in the statements\<close>

text \<open>\<open>kept s s'\<close>: everything \<open>next_time\<close> leaves alone is the same in \<open>s'\<close> as in \<open>s\<close>.\<close>

definition kept :: "FJSPEnv \<Rightarrow> FJSPEnv \<Rightarrow> bool" where
  "kept s s' \<longleftrightarrow>
     batch_size s' = batch_size s \<and> num_jobs s' = num_jobs s \<and> num_mas s' = num_mas s
     \<and> num_opes s' = num_opes s
     \<and> proc_times_batch s' = proc_times_batch s \<and> ope_ma_adj_batch s' = ope_ma_adj_batch s
     \<and> cal_cumul_adj_batch s' = cal_cumul_adj_batch s
     \<and> opes_appertain_batch s' = opes_appertain_batch s
     \<and> num_ope_biases_batch s' = num_ope_biases_batch s \<and> nums_ope_batch s' = nums_ope_batch s
     \<and> end_ope_biases_batch s' = end_ope_biases_batch s \<and> nums_opes s' = nums_opes s
     \<and> batch_idxes s' = batch_idxes s \<and> N s' = N s \<and> ope_step_batch s' = ope_step_batch s
     \<and> feat_opes_batch s' = feat_opes_batch s \<and> schedules_batch s' = schedules_batch s
     \<and> makespan_batch s' = makespan_batch s \<and> done_batch s' = done_batch s
     \<and> reward_batch s' = reward_batch s \<and> done_flag s' = done_flag s
     \<and> old_proc_times_batch s' = old_proc_times_batch s
     \<and> old_ope_ma_adj_batch s' = old_ope_ma_adj_batch s
     \<and> old_cal_cumul_adj_batch s' = old_cal_cumul_adj_batch s
     \<and> old_feat_opes_batch s' = old_feat_opes_batch s
     \<and> old_feat_mas_batch s' = old_feat_mas_batch s \<and> old_state s' = old_state s"

text \<open>
  One instance with one job of one operation and two machines; the operation runs on
  machine 0 only (3 time units), its entry for machine 1 is 0.
\<close>

definition ld_b :: load_data where
  "ld_b = \<lparr>ld_proc_times = (\<lambda>b i m. [3, 0] ! m),
          ld_ope_ma_adj = (\<lambda>b i m. [1, 0] ! m),
          ld_ope_pre_adj = (\<lambda>b i k. False),
          ld_ope_sub_adj = (\<lambda>b i k. False),
          ld_opes_appertain = (\<lambda>b i. 0),
          ld_num_ope_biases = (\<lambda>b j. 0),
          ld_nums_ope = (\<lambda>b j. 1),
          ld_cal_cumul_adj = (\<lambda>b i k. 0)\<rparr>"

definition env_b :: FJSPEnv where
  "env_b = projr (init 1 1 2 1 ld_b)"

text \<open>The environment of \<open>ld_a\<close> with a schedule written into it: both operations
  marked as scheduled, operation 0 on machine 0 from 0 to 5 (its processing time there
  is 3), operation 1 on machine 1 from 5 to 9.\<close>

definition env_bad :: FJSPEnv where
  "env_bad = env_a\<lparr>schedules_batch := (\<lambda>b i k. [[1, 0, 0, 5], [1, 1, 5, 9]] ! i ! k)\<rparr>"

text \<open>
  Runs.  \<open>reaches s0 s\<close>: the environment \<open>s\<close> is what a sequence of calls of \<open>step\<close>
  (with any decisions) and of \<open>next_time\<close> (with any flags), each of which returned,
  makes of \<open>s0\<close>.  \<open>run_steps s0 acts\<close> calls \<open>step\<close> once for every decision batch of
  \<open>acts\<close> and gives the last environment with the rewards the calls returned, in
  order; it is \<open>None\<close> when a call raised or did not return.
\<close>

inductive reaches :: "FJSPEnv \<Rightarrow> FJSPEnv \<Rightarrow> bool" for s0 :: FJSPEnv where
  reaches_start: "reaches s0 s0"
| reaches_step: "reaches s0 s \<Longrightarrow> step s actions = Some (Inr s') \<Longrightarrow> reaches s0 s'"
| reaches_next_time: "reaches s0 s \<Longrightarrow> next_time flag s = Inr s' \<Longrightarrow> reaches s0 s'"

fun run_steps :: "FJSPEnv \<Rightarrow> action list list \<Rightarrow> (FJSPEnv \<times> (nat \<Rightarrow> real) list) option" where
  "run_steps s [] = Some (s, [])"
| "run_steps s (a # acts) =
     (case step s a of
        Some (Inr s') \<Rightarrow>
          (case reward_batch s' of
             Some r \<Rightarrow> (case run_steps s' acts of
                          Some (t, rs) \<Rightarrow> Some (t, r # rs)
                        | None \<Rightarrow> None)
           | None \<Rightarrow> None)
      | _ \<Rightarrow> None)"

text \<open>The dynamic components of \<open>s\<close> are those of \<open>s0\<close>.\<close>

definition dynamic_eq :: "FJSPEnv \<Rightarrow> FJSPEnv \<Rightarrow> bool" where
  "dynamic_eq s0 s \<longleftrightarrow>
     proc_times_batch s = proc_times_batch s0 \<and> ope_ma_adj_batch s = ope_ma_adj_batch s0
     \<and> cal_cumul_adj_batch s = cal_cumul_adj_batch s0
     \<and> feat_opes_batch s = feat_opes_batch s0 \<and> feat_mas_batch s = feat_mas_batch s0
     \<and> mask_job_procing_batch s = mask_job_procing_batch s0
     \<and> mask_job_finish_batch s = mask_job_finish_batch s0
     \<and> mask_ma_procing_batch s = mask_ma_procing_batch s0
     \<and> schedules_batch s = schedules_batch s0 \<and> machines_batch s = machines_batch s0
     \<and> time s = time s0 \<and> N s = N s0 \<and> ope_step_batch s = ope_step_batch s0
     \<and> batch_idxes s = batch_idxes s0
     \<and> makespan_batch s = makespan_batch s0 \<and> done_batch s = done_batch s0
     \<and> state s = state s0"

text \<open>What \<open>reset\<close> reads: the saved copies and the static attributes.\<close>

definition same_saved :: "FJSPEnv \<Rightarrow> FJSPEnv \<Rightarrow> bool" where
  "same_saved s0 s \<longleftrightarrow>
     batch_size s = batch_size s0 \<and> num_jobs s = num_jobs s0 \<and> num_mas s = num_mas s0
     \<and> num_opes s = num_opes s0 \<and> num_ope_biases_batch s = num_ope_biases_batch s0
     \<and> old_proc_times_batch s = old_proc_times_batch s0
     \<and> old_ope_ma_adj_batch s = old_ope_ma_adj_batch s0
     \<and> old_cal_cumul_adj_batch s = old_cal_cumul_adj_batch s0
     \<and> old_feat_opes_batch s = old_feat_opes_batch s0
     \<and> old_feat_mas_batch s = old_feat_mas_batch s0 \<and> old_state s = old_state s0"

text \<open>
  \<open>chosen_machine s b i\<close> is the machine the schedule names for operation \<open>i\<close>, read as
  the validator reads it.  \<open>pruned_row s b i ma\<close>: the row of operation \<open>i\<close> in the
  adjacency of operations and machines has its one non-zero entry, a 1, at machine
  \<open>ma\<close>, and the processing times of the row are 0 at every other machine.
\<close>

definition chosen_machine :: "FJSPEnv \<Rightarrow> nat \<Rightarrow> nat \<Rightarrow> nat" where
  "chosen_machine s b i = nat (trunc (schedules_batch s b i 1))"

definition pruned_row :: "FJSPEnv \<Rightarrow> nat \<Rightarrow> nat \<Rightarrow> nat \<Rightarrow> bool" where
  "pruned_row s b i ma \<longleftrightarrow>
     ma < num_mas s
     \<and> tall (\<lambda>m. ope_ma_adj_batch s b i m = (if m = ma then 1 else 0)) (num_mas s)
     \<and> tall (\<lambda>m. m = ma \<or> proc_times_batch s b i m = 0) (num_mas s)"

text \<open>The invariant behind it, for all operations of all instances at once.\<close>

definition rows_pruned :: "FJSPEnv \<Rightarrow> bool" where
  "rows_pruned s \<longleftrightarrow>
     (\<forall>b i. schedules_batch s b i 0 = 1 \<longrightarrow>
        (\<exists>ma<num_mas s. schedules_batch s b i 1 = real ma
           \<and> (\<forall>m. ope_ma_adj_batch s b i m = (if m = ma then 1 else 0))
           \<and> (\<forall>m. m \<noteq> ma \<longrightarrow> proc_times_batch s b i m = 0)))"


text \<open>The environment after the one legal decision on \<open>ld_b\<close>: operation 0 on machine 0.\<close>

definition env_b1 :: FJSPEnv where
  "env_b1 = step_finish (step_update env_b [(0, 0, 0)])"

text \<open>
  \<open>utilization eps s b m\<close>: the busy time of machine \<open>m\<close>, capped by the clock, over
  the clock plus \<open>eps\<close>.  \<open>util_is eps s b\<close>: the utilisation feature of every machine
  of instance \<open>b\<close> has that value.
\<close>

definition utilization :: "real \<Rightarrow> FJSPEnv \<Rightarrow> nat \<Rightarrow> nat \<Rightarrow> real" where
  "utilization eps s b m = min (machines_batch s b m 2) (time s b) / (time s b + eps)"

definition util_is :: "real \<Rightarrow> FJSPEnv \<Rightarrow> nat \<Rightarrow> bool" where
  "util_is eps s b = tall (\<lambda>m. feat_mas_batch s b 2 m = utilization eps s b m) (num_mas s)"

text \<open>The first call of \<open>step\<close> on \<open>ld_a\<close>, operation 0 on machine 0, in its stages:
  after the update, the flags, after the one call of \<open>next_time\<close>, at the return.\<close>

definition env_a1 :: FJSPEnv where
  "env_a1 = step_update env_a [(0, 0, 0)]"

definition flag_a1 :: "nat \<Rightarrow> real" where
  "flag_a1 = projr (if_no_eligible env_a1)"

definition env_a2 :: FJSPEnv where
  "env_a2 = projr (next_time flag_a1 env_a1)"

definition env_a3 :: FJSPEnv where
  "env_a3 = step_finish env_a2"

section \<open>Well-formed instances and legal decisions\<close>

text \<open>
  Modelled from the spec: \<open>load_fjs\<close> of \<^verbatim>\<open>env/load_data.py\<close> is missing from the sources,
  so what it promises about the tensors it returns is written down here from
  sections 2, 3 and 6 of the spec.  For every instance of the batch: the jobs'
  operation ranges follow each other from operation 0 (\<open>num_ope_biases\<close> is the first
  operation of a job, \<open>nums_ope\<close> its positive number of operations) and fit into the
  padded operation dimension; \<open>opes_appertain\<close> maps an operation of a range to its
  job; durations are not negative and the adjacency of operations and machines is 1
  exactly where the duration is positive; every operation of a job has a machine
  with a positive duration (the well-formed instance of section 7); and the
  cumulative adjacency has a 1 at \<open>(k, i)\<close> exactly when \<open>k\<close> precedes \<open>i\<close> in the
  same job.
\<close>

definition wf_instance :: "nat \<Rightarrow> nat \<Rightarrow> nat \<Rightarrow> load_data \<Rightarrow> nat \<Rightarrow> bool" where
  "wf_instance nj nm n ld b \<longleftrightarrow>
     ld_num_ope_biases ld b 0 = 0
     \<and> tall (\<lambda>j. 0 < ld_nums_ope ld b j
                 \<and> (if Suc j < nj
                     then ld_num_ope_biases ld b (Suc j) = ld_num_ope_biases ld b j + ld_nums_ope ld b j
                     else ld_num_ope_biases ld b j + ld_nums_ope ld b j \<le> n)) nj
     \<and> tall (\<lambda>j. tall (\<lambda>i. i < ld_num_ope_biases ld b j
                            \<or> ld_num_ope_biases ld b j + ld_nums_ope ld b j \<le> i
                            \<or> ld_opes_appertain ld b i = j) n) nj
     \<and> tall (\<lambda>i. tall (\<lambda>m. 0 \<le> ld_proc_times ld b i m
                            \<and> ld_ope_ma_adj ld b i m = (if 0 < ld_proc_times ld b i m then 1 else 0)) nm) n
     \<and> tall (\<lambda>i. tany (\<lambda>m. 0 < ld_proc_times ld b i m) nm)
          (sum_list (map (ld_nums_ope ld b) [0..<nj]))
     \<and> tall (\<lambda>k. tall (\<lambda>i. ld_cal_cumul_adj ld b k i
                              = (if tany (\<lambda>j. ld_num_ope_biases ld b j \<le> k \<and> k < i
                                               \<and> i < ld_num_ope_biases ld b j + ld_nums_ope ld b j) nj
                                 then 1 else 0)) n) n"

definition wf_load :: "nat \<Rightarrow> nat \<Rightarrow> nat \<Rightarrow> nat \<Rightarrow> load_data \<Rightarrow> bool" where
  "wf_load bs nj nm n ld \<longleftrightarrow> 0 < nj \<and> tall (wf_instance nj nm n ld) bs"

text \<open>
  A legal decision for instance \<open>b\<close> (section 4.2 of the spec): the operation is the
  next pending operation of the job, the machine has a positive duration for it in
  the current processing times and is not in process, and the job is neither in
  process nor finished.  A legal decision batch has one legal decision for every
  active instance, in the order of \<open>batch_idxes\<close>.
\<close>

definition legal :: "FJSPEnv \<Rightarrow> nat \<Rightarrow> action \<Rightarrow> bool" where
  "legal s b a \<longleftrightarrow>
     (case a of (ope, ma, job) \<Rightarrow>
        job < num_jobs s \<and> ma < num_mas s \<and> ope < num_opes s
        \<and> ope = ope_step_batch s b job
        \<and> 0 < proc_times_batch s b ope ma
        \<and> \<not> mask_ma_procing_batch s b ma
        \<and> \<not> mask_job_procing_batch s b job \<and> \<not> mask_job_finish_batch s b job)"

definition legal_actions :: "FJSPEnv \<Rightarrow> action list \<Rightarrow> bool" where
  "legal_actions s actions \<longleftrightarrow> list_all2 (legal s) (batch_idxes s) actions"

text \<open>\<open>legal_reaches s0 s\<close>: calls of \<open>step\<close> with legal decision batches and calls of
  \<open>next_time\<close> with any flags, each of which returned, make \<open>s\<close> of \<open>s0\<close>.\<close>

inductive legal_reaches :: "FJSPEnv \<Rightarrow> FJSPEnv \<Rightarrow> bool" for s0 :: FJSPEnv where
  legal_start: "legal_reaches s0 s0"
| legal_step: "legal_reaches s0 s \<Longrightarrow> legal_actions s actions \<Longrightarrow>
     step s actions = Some (Inr s') \<Longrightarrow> legal_reaches s0 s'"
| legal_next_time: "legal_reaches s0 s \<Longrightarrow> next_time flag s = Inr s' \<Longrightarrow> legal_reaches s0 s'"

section \<open>The invariant of legal runs\<close>

text \<open>\<open>in_job s b j i\<close>: operation \<open>i\<close> belongs to the range of job \<open>j\<close>;
  \<open>scheduled s b i\<close>: operation \<open>i\<close> lies before the operation pointer of its job;
  \<open>sched_end s b i\<close>: the end of operation \<open>i\<close>, its start feature plus its duration
  feature.\<close>

definition in_job :: "FJSPEnv \<Rightarrow> nat \<Rightarrow> nat \<Rightarrow> nat \<Rightarrow> bool" where
  "in_job s b j i \<longleftrightarrow>
     j < num_jobs s \<and> num_ope_biases_batch s b j \<le> i \<and> i \<le> end_ope_biases_batch s b j"

definition scheduled :: "FJSPEnv \<Rightarrow> nat \<Rightarrow> nat \<Rightarrow> bool" where
  "scheduled s b i \<longleftrightarrow> (\<exists>j. in_job s b j i \<and> i < ope_step_batch s b j)"

definition sched_end :: "FJSPEnv \<Rightarrow> nat \<Rightarrow> nat \<Rightarrow> real" where
  "sched_end s b i = feat_opes_batch s b 5 i + feat_opes_batch s b 2 i"

text \<open>What construction from a well-formed load fixes for good.\<close>

definition static_ok :: "FJSPEnv \<Rightarrow> nat \<Rightarrow> bool" where
  "static_ok s b \<longleftrightarrow>
     0 < num_jobs s \<and> 0 < num_mas s \<and> 0 < num_opes s \<and> b < batch_size s
     \<and> (\<forall>j<num_jobs s. num_ope_biases_batch s b j \<le> end_ope_biases_batch s b j
            \<and> end_ope_biases_batch s b j < num_opes s
            \<and> nums_ope_batch s b j = end_ope_biases_batch s b j + 1 - num_ope_biases_batch s b j)
     \<and> (\<forall>j i. in_job s b j i \<longrightarrow> opes_appertain_batch s b i = j)
     \<and> (\<forall>i<num_opes s. opes_appertain_batch s b i < num_jobs s)
     \<and> nums_opes s b \<le> num_opes s
     \<and> (\<forall>i. i < nums_opes s b \<longleftrightarrow> (\<exists>j. in_job s b j i))
     \<and> (\<forall>i<num_opes s. \<forall>m<num_mas s. 0 \<le> old_proc_times_batch s b i m
            \<and> old_ope_ma_adj_batch s b i m = (if 0 < old_proc_times_batch s b i m then 1 else 0))
     \<and> (\<forall>i<nums_opes s b. \<exists>m<num_mas s. 0 < old_proc_times_batch s b i m)
     \<and> (\<forall>k<num_opes s. \<forall>i<num_opes s. old_cal_cumul_adj_batch s b k i
            = (if \<exists>j. in_job s b j k \<and> in_job s b j i \<and> k < i then 1 else 0))"

text \<open>
  The invariant of an instance, in five parts.  \<open>inv_ptr\<close>: the operation pointer of
  every job stays in the job's range, the status feature and the status of the
  schedule say which operations lie before the pointers, and the finish mask and the
  done flag say which pointers have left their range.
\<close>

definition inv_ptr :: "FJSPEnv \<Rightarrow> nat \<Rightarrow> bool" where
  "inv_ptr s b \<longleftrightarrow>
     (\<forall>j<num_jobs s. num_ope_biases_batch s b j \<le> ope_step_batch s b j
        \<and> ope_step_batch s b j \<le> end_ope_biases_batch s b j + 1)
     \<and> (\<forall>i<num_opes s. feat_opes_batch s b 0 i = (if scheduled s b i then 1 else 0))
     \<and> (\<forall>i<num_opes s. schedules_batch s b i 0 = feat_opes_batch s b 0 i)
     \<and> (\<forall>j<num_jobs s. mask_job_finish_batch s b j
            \<longleftrightarrow> ope_step_batch s b j = end_ope_biases_batch s b j + 1)
     \<and> (done_batch s b \<longleftrightarrow> (\<forall>j<num_jobs s. mask_job_finish_batch s b j))"

text \<open>\<open>inv_rows\<close>: the processing times of an operation that is not scheduled are the
  loaded ones; multiplying the processing times by the adjacency changes nothing;
  no processing time is negative.\<close>

definition inv_rows :: "FJSPEnv \<Rightarrow> nat \<Rightarrow> bool" where
  "inv_rows s b \<longleftrightarrow>
     (\<forall>i<num_opes s. \<not> scheduled s b i \<longrightarrow>
        (\<forall>m<num_mas s. proc_times_batch s b i m = old_proc_times_batch s b i m))
     \<and> (\<forall>i<num_opes s. \<forall>m<num_mas s.
          proc_times_batch s b i m * of_int (ope_ma_adj_batch s b i m) = proc_times_batch s b i m)
     \<and> (\<forall>i<num_opes s. \<forall>m<num_mas s. 0 \<le> proc_times_batch s b i m)"

text \<open>\<open>inv_sched\<close>: the schedule entry of a scheduled operation names a machine, has
  the start feature as start and the start plus the positive duration on that machine
  as end, and started no later than the clock; the operations of a job follow each
  other; two operations on one machine do not overlap.\<close>

definition inv_sched :: "FJSPEnv \<Rightarrow> nat \<Rightarrow> bool" where
  "inv_sched s b \<longleftrightarrow>
     0 \<le> time s b
     \<and> (\<forall>i<num_opes s. 0 \<le> feat_opes_batch s b 2 i)
     \<and> (\<forall>i<num_opes s. scheduled s b i \<longrightarrow>
          chosen_machine s b i < num_mas s
          \<and> schedules_batch s b i (Suc 0) = real (chosen_machine s b i)
          \<and> feat_opes_batch s b 2 i = proc_times_batch s b i (chosen_machine s b i)
          \<and> 0 < feat_opes_batch s b 2 i
          \<and> schedules_batch s b i 2 = feat_opes_batch s b 5 i
          \<and> schedules_batch s b i 3 = sched_end s b i
          \<and> 0 \<le> feat_opes_batch s b 5 i \<and> feat_opes_batch s b 5 i \<le> time s b)
     \<and> (\<forall>j<num_jobs s. \<forall>i. num_ope_biases_batch s b j \<le> i \<and> Suc i < ope_step_batch s b j \<longrightarrow>
          sched_end s b i \<le> feat_opes_batch s b 5 (Suc i))
     \<and> (\<forall>i<num_opes s. \<forall>k<num_opes s.
          scheduled s b i \<and> scheduled s b k \<and> i \<noteq> k
          \<and> chosen_machine s b i = chosen_machine s b k \<longrightarrow>
          sched_end s b i \<le> feat_opes_batch s b 5 k \<or> sched_end s b k \<le> feat_opes_batch s b 5 i)"

text \<open>\<open>inv_run\<close>: a machine in process serves the last scheduled operation of a job
  in process and is available later than the clock; a machine not in process is
  available; a job in process has its last scheduled operation on a machine in
  process that records the job and is available at the operation's end; every other
  scheduled operation has ended.\<close>

definition inv_run :: "FJSPEnv \<Rightarrow> nat \<Rightarrow> bool" where
  "inv_run s b \<longleftrightarrow>
     (\<forall>m<num_mas s. machines_batch s b m 0 = (if mask_ma_procing_batch s b m then 0 else 1))
     \<and> (\<forall>m<num_mas s. mask_ma_procing_batch s b m \<longrightarrow>
          time s b < machines_batch s b m (Suc 0)
          \<and> (\<exists>j<num_jobs s. machines_batch s b m 3 = real j \<and> mask_job_procing_batch s b j
                \<and> chosen_machine s b (ope_step_batch s b j - 1) = m))
     \<and> (\<forall>m<num_mas s. \<not> mask_ma_procing_batch s b m \<longrightarrow> machines_batch s b m (Suc 0) \<le> time s b)
     \<and> (\<forall>j<num_jobs s. mask_job_procing_batch s b j \<longrightarrow>
          num_ope_biases_batch s b j < ope_step_batch s b j
          \<and> mask_ma_procing_batch s b (chosen_machine s b (ope_step_batch s b j - 1))
          \<and> machines_batch s b (chosen_machine s b (ope_step_batch s b j - 1)) 3 = real j
          \<and> machines_batch s b (chosen_machine s b (ope_step_batch s b j - 1)) (Suc 0)
              = sched_end s b (ope_step_batch s b j - 1))
     \<and> (\<forall>i<num_opes s. scheduled s b i \<longrightarrow>
          sched_end s b i \<le> time s b
          \<or> (\<exists>j<num_jobs s. mask_job_procing_batch s b j \<and> i = ope_step_batch s b j - 1))"

text \<open>\<open>inv_est\<close>: the rows of the cumulative adjacency that are left are those from
  the last scheduled operation of each job on; the job completion feature is the end
  of the job's last operation, which is no earlier than the end of the job's last
  scheduled operation; estimated starts are not negative.\<close>

definition inv_est :: "FJSPEnv \<Rightarrow> nat \<Rightarrow> bool" where
  "inv_est s b \<longleftrightarrow>
     (\<forall>k<num_opes s. \<forall>i<num_opes s. cal_cumul_adj_batch s b k i
        = (if \<exists>j. in_job s b j k \<and> in_job s b j i \<and> k < i \<and> ope_step_batch s b j \<le> Suc k
           then 1 else 0))
     \<and> (\<forall>i<num_opes s. feat_opes_batch s b 4 i
          = sched_end s b (end_ope_biases_batch s b (opes_appertain_batch s b i)))
     \<and> (\<forall>j<num_jobs s. num_ope_biases_batch s b j < ope_step_batch s b j \<longrightarrow>
          sched_end s b (ope_step_batch s b j - 1) \<le> sched_end s b (end_ope_biases_batch s b j))
     \<and> (\<forall>i<num_opes s. 0 \<le> feat_opes_batch s b 5 i)"

definition inv :: "FJSPEnv \<Rightarrow> nat \<Rightarrow> bool" where
  "inv s b \<longleftrightarrow> static_ok s b \<and> inv_ptr s b \<and> inv_rows s b \<and> inv_sched s b \<and> inv_run s b
     \<and> inv_est s b"

text \<open>\<open>clock_ok\<close>: the clock of an instance that is not done is at most one past the
  largest job completion feature of the batch.\<close>

definition clock_ok :: "FJSPEnv \<Rightarrow> bool" where
  "clock_ok s \<longleftrightarrow> (\<forall>b<batch_size s. \<not> done_batch s b \<longrightarrow> time s b \<le> max_feat s + 1)"

text \<open>\<open>busy_count s b\<close>: the number of machines of instance \<open>b\<close> that are in process.
  \<open>loop_ok s\<close>: every instance has its invariant and its clock bound; these hold at
  every entry of the time-advance loop.\<close>

definition busy_count :: "FJSPEnv \<Rightarrow> nat \<Rightarrow> nat" where
  "busy_count s b = length (filter (mask_ma_procing_batch s b) [0..<num_mas s])"

definition loop_ok :: "FJSPEnv \<Rightarrow> bool" where
  "loop_ok s \<longleftrightarrow> 0 < batch_size s \<and> (\<forall>b<batch_size s. inv s b) \<and> clock_ok s"

text \<open>\<open>sched_count s b\<close>: how many operations of instance \<open>b\<close> lie before the operation
  pointers.  \<open>count_ok\<close>: the operations of an instance are the operations of its
  jobs, and the pointers have moved once for every call of \<open>step\<close> until all
  operations were passed.  \<open>run_ok\<close>: what holds between two calls; the active
  instances are those with fewer calls than operations.\<close>

definition sched_count :: "FJSPEnv \<Rightarrow> nat \<Rightarrow> nat" where
  "sched_count s b =
     sum_list (map (\<lambda>j. ope_step_batch s b j - num_ope_biases_batch s b j) [0..<num_jobs s])"

definition count_ok :: "FJSPEnv \<Rightarrow> bool" where
  "count_ok s \<longleftrightarrow>
     (\<forall>b<batch_size s. nums_opes s b = sum_list (map (nums_ope_batch s b) [0..<num_jobs s])
        \<and> sched_count s b = min (N s b) (nums_opes s b))"

definition run_ok :: "FJSPEnv \<Rightarrow> bool" where
  "run_ok s \<longleftrightarrow>
     loop_ok s \<and> count_ok s
     \<and> set (batch_idxes s) = {b. b < batch_size s \<and> N s b < nums_opes s b}"

text \<open>The second call of \<open>step\<close> on \<open>ld_a\<close>: operation 1 on machine 0, which completes the
  instance.\<close>

definition env_a4 :: FJSPEnv where
  "env_a4 = step_finish (step_update env_a3 [(1, 0, 0)])"



text \<open>
  One instance with one job of three operations and one machine; the operations take
  5, 1 and 1 time units.  Then a run with decisions that are not legal: first
  operation 2, which is not the next pending operation of the job, then operation 0;
  each call of \<open>step\<close> in its stages, as for \<open>ld_a\<close>; and last a call of \<open>next_time\<close>
  with the flag 0.
\<close>

definition ld_c :: load_data where
  "ld_c = \<lparr>ld_proc_times = (\<lambda>b i m. [5, 1, 1] ! i),
          ld_ope_ma_adj = (\<lambda>b i m. 1),
          ld_ope_pre_adj = (\<lambda>b i k. k = Suc i \<and> k < 3),
          ld_ope_sub_adj = (\<lambda>b i k. i = Suc k \<and> i < 3),
          ld_opes_appertain = (\<lambda>b i. 0),
          ld_num_ope_biases = (\<lambda>b j. 0),
          ld_nums_ope = (\<lambda>b j. 3),
          ld_cal_cumul_adj = (\<lambda>b i k. if i < k \<and> k < 3 then 1 else 0)\<rparr>"

definition env_c :: FJSPEnv where
  "env_c = projr (init 1 1 1 3 ld_c)"

definition env_c1 :: FJSPEnv where
  "env_c1 = step_update env_c [(2, 0, 0)]"

definition flag_c1 :: "nat \<Rightarrow> real" where
  "flag_c1 = projr (if_no_eligible env_c1)"

definition env_c2 :: FJSPEnv where
  "env_c2 = projr (next_time flag_c1 env_c1)"

definition env_c3 :: FJSPEnv where
  "env_c3 = step_finish env_c2"

definition env_c4 :: FJSPEnv where
  "env_c4 = step_update env_c3 [(0, 0, 0)]"

definition flag_c4 :: "nat \<Rightarrow> real" where
  "flag_c4 = projr (if_no_eligible env_c4)"

definition env_c5 :: FJSPEnv where
  "env_c5 = projr (next_time flag_c4 env_c4)"

definition env_c6 :: FJSPEnv where
  "env_c6 = step_finish env_c5"

definition env_c7 :: FJSPEnv where
  "env_c7 = projr (next_time (\<lambda>b. 0) env_c6)"

section \<open>Float32 arithmetic\<close>

text \<open>
  The float tensors of the environment have the type \<open>float32\<close>, and every arithmetic
  operation of torch on them rounds its exact result to a float32 number.  \<open>f32\<close> is
  that rounding for results in the normal range: to the nearest number whose
  significand has 24 bits, a tie going to the even significand; \<open>rne\<close> rounds a real
  to the nearest integer in the same way.  Overflow to infinity and the subnormal
  numbers are left out.  A value stored in a tensor is a float32 number, on which
  \<open>f32\<close> is the identity.
\<close>

definition rne :: "real \<Rightarrow> int" where
  "rne x = (if x - of_int \<lfloor>x\<rfloor> < 1 / 2 then \<lfloor>x\<rfloor>
            else if 1 / 2 < x - of_int \<lfloor>x\<rfloor> then \<lfloor>x\<rfloor> + 1
            else if even \<lfloor>x\<rfloor> then \<lfloor>x\<rfloor> else \<lfloor>x\<rfloor> + 1)"

definition f32 :: "real \<Rightarrow> real" where
  "f32 x = (if x = 0 then 0
            else let e = \<lfloor>log 2 \<bar>x\<bar>\<rfloor> - 23
                 in of_int (rne (x / 2 powr of_int e)) * 2 powr of_int e)"

text \<open>\<open>fsum rd f n\<close>: the sum of the \<open>n\<close> terms \<open>f 0\<close>, ..., \<open>f (n - 1)\<close> that starts
  from 0 and rounds with \<open>rd\<close> after every addition; it stands for \<open>torch.sum\<close> over a
  dimension and for the inner products of \<open>torch.bmm\<close>.\<close>

primrec fsum :: "(real \<Rightarrow> real) \<Rightarrow> (nat \<Rightarrow> real) \<Rightarrow> nat \<Rightarrow> real" where
  "fsum rd f 0 = 0"
| "fsum rd f (Suc n) = rd (fsum rd f n + f n)"

section \<open>The operations in float32\<close>

text \<open>
  The methods that compute on float tensors, once more, with the rounding \<open>rd\<close> of
  the float32 operations as a parameter: with \<open>f32\<close> for \<open>rd\<close> they are what the code
  computes, with the identity for \<open>rd\<close> they are the definitions above on exact
  reals.  Every addition, subtraction and division of float tensors is rounded, and
  so is a float constant of the source before it is added to a float32 tensor (the
  constants 1e-9 and 1e-5).  Not rounded, because they are exact in float32:
  comparisons, \<open>min\<close> and \<open>max\<close>, the products with the operation-machine adjacency
  and with the status feature, whose entries are 0 or 1, and the conversion of a
  count or an index to a float.  The flags of \<open>if_no_eligible\<close> are sums in float64
  that the code only compares with 0; they stay exact sums.

  \<open>__init__\<close> in float32.
\<close>

definition init_fl :: "(real \<Rightarrow> real) \<Rightarrow> nat \<Rightarrow> nat \<Rightarrow> nat \<Rightarrow> nat \<Rightarrow> load_data \<Rightarrow> error + FJSPEnv" where
  "init_fl rd bs nj nm n_opes ld =
    (let proc_times = ld_proc_times ld;
         ope_ma_adj = ld_ope_ma_adj ld;
         cal_cumul_adj = ld_cal_cumul_adj ld;
         opes_appertain = ld_opes_appertain ld;
         num_ope_biases = ld_num_ope_biases ld;
         nums_ope = ld_nums_ope ld;
         end_ope_biases = (\<lambda>b j. num_ope_biases b j + nums_ope b j - 1);
         nums_opes_v = (\<lambda>b. sum_list (map (nums_ope b) [0..<nj]));
         feat1 = (\<lambda>b i. real (count_nonzero (ope_ma_adj b i) nm));
         feat2 = (\<lambda>b i. rd (fsum rd (proc_times b i) nm / rd (feat1 b i + rd (1 / 10 ^ 9))));
         feat3 = convert_feat_job_2_ope (\<lambda>b j. real (nums_ope b j)) opes_appertain;
         feat5 = (\<lambda>b i. fsum rd (\<lambda>k. rd (feat2 b k * cal_cumul_adj b k i)) n_opes);
         end_time_batch = (\<lambda>b j. rd (feat5 b (end_ope_biases b j) + feat2 b (end_ope_biases b j)));
         feat4 = convert_feat_job_2_ope end_time_batch opes_appertain;
         feat_opes = (\<lambda>b k i. if k = 1 then feat1 b i else if k = 2 then feat2 b i
                        else if k = 3 then feat3 b i else if k = 4 then feat4 b i
                        else if k = 5 then feat5 b i else 0);
         feat_mas = (\<lambda>b k m. if k = 0 then real (count_nonzero (\<lambda>i. ope_ma_adj b i m) n_opes) else 0);
         mask_job_procing = (\<lambda>b j. False);
         mask_job_finish = (\<lambda>b j. False);
         mask_ma_procing = (\<lambda>b m. False);
         schedules = (\<lambda>b i k. if k = 2 then feat_opes b 5 i
                        else if k = 3 then rd (feat_opes b 5 i + feat_opes b 2 i) else 0);
         machines = (\<lambda>b m k. if k = 0 then 1 else 0);
         st = \<lparr>st_opes_appertain_batch = opes_appertain,
               st_ope_pre_adj_batch = ld_ope_pre_adj ld,
               st_ope_sub_adj_batch = ld_ope_sub_adj ld,
               st_end_ope_biases_batch = end_ope_biases,
               st_nums_opes_batch = nums_opes_v,
               st_batch_idxes = [0..<bs],
               st_feat_opes_batch = feat_opes,
               st_feat_mas_batch = feat_mas,
               st_proc_times_batch = proc_times,
               st_ope_ma_adj_batch = ope_ma_adj,
               st_mask_job_procing_batch = mask_job_procing,
               st_mask_job_finish_batch = mask_job_finish,
               st_mask_ma_procing_batch = mask_ma_procing,
               st_ope_step_batch = num_ope_biases,
               st_time_batch = (\<lambda>b. 0)\<rparr>
     in if bs = 0 then Inl ShapeError
        else if n_opes = 1 \<and> 1 < bs then Inl ShapeError
        else if \<not> tall (\<lambda>b. tall (\<lambda>i. opes_appertain b i < nj) n_opes) bs then Inl IndexError
        else if \<not> tall (\<lambda>b. tall (\<lambda>j. 0 \<le> int (num_ope_biases b j) + int (nums_ope b j) - 1
                    \<and> int (num_ope_biases b j) + int (nums_ope b j) - 1 < int n_opes) nj) bs
          then Inl IndexError
        else if n_opes = 0 then Inl ShapeError
        else Inr \<lparr>batch_size = bs, num_jobs = nj, num_mas = nm, num_opes = n_opes,
                  proc_times_batch = proc_times,
                  ope_ma_adj_batch = ope_ma_adj,
                  cal_cumul_adj_batch = cal_cumul_adj,
                  ope_pre_adj_batch = ld_ope_pre_adj ld,
                  ope_sub_adj_batch = ld_ope_sub_adj ld,
                  opes_appertain_batch = opes_appertain,
                  num_ope_biases_batch = num_ope_biases,
                  nums_ope_batch = nums_ope,
                  end_ope_biases_batch = end_ope_biases,
                  nums_opes = nums_opes_v,
                  batch_idxes = [0..<bs],
                  time = (\<lambda>b. 0),
                  N = (\<lambda>b. 0),
                  ope_step_batch = num_ope_biases,
                  feat_opes_batch = feat_opes,
                  feat_mas_batch = feat_mas,
                  mask_job_procing_batch = mask_job_procing,
                  mask_job_finish_batch = mask_job_finish,
                  mask_ma_procing_batch = mask_ma_procing,
                  schedules_batch = schedules,
                  machines_batch = machines,
                  makespan_batch = (\<lambda>b. tmax (feat_opes b 4) n_opes),
                  done_batch = (\<lambda>b. tall (mask_job_finish b) nj),
                  reward_batch = None,
                  done_flag = None,
                  state = st,
                  state_shared = True,
                  old_proc_times_batch = proc_times,
                  old_ope_ma_adj_batch = ope_ma_adj,
                  old_cal_cumul_adj_batch = cal_cumul_adj,
                  old_feat_opes_batch = feat_opes,
                  old_feat_mas_batch = feat_mas,
                  old_state = st\<rparr>)"

text \<open>Lines 272 to 354 of \<open>step\<close> in float32.\<close>

definition step_update_fl :: "(real \<Rightarrow> real) \<Rightarrow> FJSPEnv \<Rightarrow> action list \<Rightarrow> FJSPEnv" where
  "step_update_fl rd s actions =
    (let A = act_of s actions;
         N1 = (\<lambda>b. N s b + 1);
         remain_ope_ma_adj = (\<lambda>b m. case A b of None \<Rightarrow> (0::int)
                                | Some (ope, ma, job) \<Rightarrow> if m = ma then 1 else 0);
         ope_ma_adj = (\<lambda>b i m. case A b of None \<Rightarrow> ope_ma_adj_batch s b i m
                         | Some (ope, ma, job) \<Rightarrow>
                             if i = ope then remain_ope_ma_adj b m else ope_ma_adj_batch s b i m);
         proc_times_b = (\<lambda>b i m. proc_times_batch s b i m * of_int (ope_ma_adj b i m));
         proc_times = (\<lambda>b. case A b of None \<Rightarrow> 0 | Some (ope, ma, job) \<Rightarrow> proc_times_b b ope ma);
         feat_a = (\<lambda>b k i. case A b of None \<Rightarrow> feat_opes_batch s b k i
                     | Some (ope, ma, job) \<Rightarrow>
                         if i = ope \<and> k < 3 then (if k = 2 then proc_times b else 1)
                         else feat_opes_batch s b k i);
         last_opes = (\<lambda>b. case A b of None \<Rightarrow> 0
                        | Some (ope, ma, job) \<Rightarrow>
                            if int ope - 1 < int (num_ope_biases_batch s b job)
                            then num_opes s - 1 else ope - 1);
         cal_cumul_adj = (\<lambda>b i k. case A b of None \<Rightarrow> cal_cumul_adj_batch s b i k
                            | Some a \<Rightarrow> if i = last_opes b then 0 else cal_cumul_adj_batch s b i k);
         feat_b = (\<lambda>b k i. case A b of None \<Rightarrow> feat_a b k i
                     | Some (ope, ma, job) \<Rightarrow>
                         if k = 3 \<and> num_ope_biases_batch s b job \<le> i
                            \<and> i < end_ope_biases_batch s b job + 1 \<and> i < num_opes s
                         then rd (feat_a b k i - 1) else feat_a b k i);
         feat_c = (\<lambda>b k i. case A b of None \<Rightarrow> feat_b b k i
                     | Some (ope, ma, job) \<Rightarrow> if k = 5 \<and> i = ope then time s b else feat_b b k i);
         is_scheduled = (\<lambda>b i. feat_c b 0 i);
         mean_proc_time = (\<lambda>b i. feat_c b 2 i);
         start_times = (\<lambda>b i. feat_c b 5 i * is_scheduled b i);
         un_scheduled = (\<lambda>b i. 1 - is_scheduled b i);
         estimate_times = (\<lambda>b i. fsum rd (\<lambda>k. rd (rd (start_times b k + mean_proc_time b k)
                                                       * cal_cumul_adj b k i))
                                     (num_opes s) * un_scheduled b i);
         feat_d = (\<lambda>b k i. case A b of None \<Rightarrow> feat_c b k i
                     | Some a \<Rightarrow> if k = 5 then rd (start_times b i + estimate_times b i) else feat_c b k i);
         end_time_batch = (\<lambda>b j. rd (feat_d b 5 (end_ope_biases_batch s b j)
                                      + feat_d b 2 (end_ope_biases_batch s b j)));
         feat_e = (\<lambda>b k i. case A b of None \<Rightarrow> feat_d b k i
                     | Some a \<Rightarrow> if k = 4 then convert_feat_job_2_ope end_time_batch (opes_appertain_batch s) b i
                                 else feat_d b k i);
         schedules = (\<lambda>b i k. case A b of None \<Rightarrow> schedules_batch s b i k
                        | Some (ope, ma, job) \<Rightarrow>
                            if k = 2 then feat_e b 5 i
                            else if k = 3 then rd (feat_e b 5 i + feat_e b 2 i)
                            else if i = ope \<and> k = 0 then 1
                            else if i = ope \<and> k = 1 then real ma
                            else schedules_batch s b i k);
         machines = (\<lambda>b m k. case A b of None \<Rightarrow> machines_batch s b m k
                       | Some (ope, ma, job) \<Rightarrow>
                           if m = ma then
                             (if k = 0 then 0
                              else if k = 1 then rd (time s b + proc_times b)
                              else if k = 2 then rd (machines_batch s b m 2 + proc_times b)
                              else if k = 3 then real job
                              else machines_batch s b m k)
                           else machines_batch s b m k);
         utiliz = (\<lambda>b m. rd (min (machines b m 2) (time s b) / rd (time s b + rd (1 / 10 ^ 9))));
         feat_mas = (\<lambda>b k m. case A b of None \<Rightarrow> feat_mas_batch s b k m
                       | Some (ope, ma, job) \<Rightarrow>
                           if k = 0 then real (count_nonzero (\<lambda>i. ope_ma_adj b i m) (num_opes s))
                           else if k = 1 \<and> m = ma then rd (time s b + proc_times b)
                           else if k = 2 then utiliz b m
                           else feat_mas_batch s b k m);
         ope_step = (\<lambda>b j. case A b of None \<Rightarrow> ope_step_batch s b j
                       | Some (ope, ma, job) \<Rightarrow>
                           if j = job then ope_step_batch s b j + 1 else ope_step_batch s b j);
         mask_job_procing = (\<lambda>b j. case A b of None \<Rightarrow> mask_job_procing_batch s b j
                               | Some (ope, ma, job) \<Rightarrow> if j = job then True else mask_job_procing_batch s b j);
         mask_ma_procing = (\<lambda>b m. case A b of None \<Rightarrow> mask_ma_procing_batch s b m
                              | Some (ope, ma, job) \<Rightarrow> if m = ma then True else mask_ma_procing_batch s b m);
         mask_job_finish = (\<lambda>b j. if ope_step b j = end_ope_biases_batch s b j + 1 then True
                                   else mask_job_finish_batch s b j);
         done_b = (\<lambda>b. tall (mask_job_finish b) (num_jobs s));
         max_val = (\<lambda>b. tmax (feat_e b 4) (num_opes s))
     in s\<lparr>N := N1,
          ope_ma_adj_batch := ope_ma_adj,
          proc_times_batch := proc_times_b,
          cal_cumul_adj_batch := cal_cumul_adj,
          feat_opes_batch := feat_e,
          schedules_batch := schedules,
          machines_batch := machines,
          feat_mas_batch := feat_mas,
          ope_step_batch := ope_step,
          mask_job_procing_batch := mask_job_procing,
          mask_ma_procing_batch := mask_ma_procing,
          mask_job_finish_batch := mask_job_finish,
          done_batch := done_b,
          done_flag := Some (tall done_b (batch_size s)),
          reward_batch := Some (\<lambda>b. rd (makespan_batch s b - max_val b)),
          makespan_batch := max_val\<rparr>)"

text \<open>\<open>next_time\<close> in float32: the time an instance moves to takes the rounded sum
  \<open>torch.max(self.feat_opes_batch[:, 4, :]) + 1.0\<close> for the machines that are not
  available later than the clock, and the utilisation feature is a rounded quotient
  by a rounded sum.\<close>

definition next_clock_fl :: "(real \<Rightarrow> real) \<Rightarrow> FJSPEnv \<Rightarrow> nat \<Rightarrow> real" where
  "next_clock_fl rd s b =
     tmin (\<lambda>m. if machines_batch s b m 1 > time s b then machines_batch s b m 1
                else rd (max_feat s + 1))
       (num_mas s)"

definition freed_fl :: "(real \<Rightarrow> real) \<Rightarrow> (nat \<Rightarrow> real) \<Rightarrow> FJSPEnv \<Rightarrow> nat \<Rightarrow> nat \<Rightarrow> bool" where
  "freed_fl rd flag s b m \<longleftrightarrow>
     machines_batch s b m 1 = next_clock_fl rd s b \<and> machines_batch s b m 0 = 0
     \<and> flag_need_trans flag s b"

definition freed_jobs_fl :: "(real \<Rightarrow> real) \<Rightarrow> (nat \<Rightarrow> real) \<Rightarrow> FJSPEnv \<Rightarrow> nat \<Rightarrow> nat \<Rightarrow> real" where
  "freed_jobs_fl rd flag s b m = (if freed_fl rd flag s b m then machines_batch s b m 3 else - 1)"

definition next_time_check_fl :: "(real \<Rightarrow> real) \<Rightarrow> (nat \<Rightarrow> real) \<Rightarrow> FJSPEnv \<Rightarrow> error option" where
  "next_time_check_fl rd flag s =
     (if num_mas s = 0 \<or> num_opes s = 0 \<or> batch_size s = 0 then Some ShapeError
      else if tany (\<lambda>b. tany (\<lambda>m. freed_jobs_fl rd flag s b m \<ge> 0
                                  \<and> py_index (trunc (freed_jobs_fl rd flag s b m)) (num_jobs s) = None)
                           (num_mas s)) (batch_size s)
        then Some IndexError
      else None)"

definition next_time_update_fl :: "(real \<Rightarrow> real) \<Rightarrow> (nat \<Rightarrow> real) \<Rightarrow> FJSPEnv \<Rightarrow> FJSPEnv" where
  "next_time_update_fl rd flag s =
    (let e = (\<lambda>b. if flag_need_trans flag s b then next_clock_fl rd s b else time s b);
         machines = (\<lambda>b m k. if freed_fl rd flag s b m \<and> k = 0 then 1 else machines_batch s b m k);
         utiliz = (\<lambda>b m. rd (min (machines b m 2) (e b) / rd (e b + rd (1 / 10 ^ 5))));
         feat_mas = (\<lambda>b k m. if k = 2 then utiliz b m else feat_mas_batch s b k m);
         released = (\<lambda>b j. tany (\<lambda>m. freed_jobs_fl rd flag s b m \<ge> 0
                                    \<and> py_index (trunc (freed_jobs_fl rd flag s b m)) (num_jobs s) = Some j)
                             (num_mas s));
         mask_job_procing = (\<lambda>b j. if released b j then False else mask_job_procing_batch s b j);
         mask_ma_procing = (\<lambda>b m. if freed_fl rd flag s b m then False else mask_ma_procing_batch s b m);
         mask_job_finish = (\<lambda>b j. if ope_step_batch s b j = end_ope_biases_batch s b j + 1 then True
                                   else mask_job_finish_batch s b j)
     in s\<lparr>time := e,
          machines_batch := machines,
          feat_mas_batch := feat_mas,
          mask_job_procing_batch := mask_job_procing,
          mask_ma_procing_batch := mask_ma_procing,
          mask_job_finish_batch := mask_job_finish,
          state := (if state_shared s
                    then (state s)\<lparr>st_feat_mas_batch := feat_mas,
                           st_mask_job_procing_batch := mask_job_procing,
                           st_mask_ma_procing_batch := mask_ma_procing\<rparr>
                    else state s)\<rparr>)"

definition next_time_fl :: "(real \<Rightarrow> real) \<Rightarrow> (nat \<Rightarrow> real) \<Rightarrow> FJSPEnv \<Rightarrow> error + FJSPEnv" where
  "next_time_fl rd flag_trans_2_next_time s =
     (case next_time_check_fl rd flag_trans_2_next_time s of
        Some err \<Rightarrow> Inl err
      | None \<Rightarrow> Inr (next_time_update_fl rd flag_trans_2_next_time s))"

text \<open>The loop of \<open>step\<close>, its bounded version and \<open>step\<close> itself, in float32.\<close>

partial_function (option) time_advance_fl :: "(real \<Rightarrow> real) \<Rightarrow> FJSPEnv \<Rightarrow> (error + FJSPEnv) option" where
  "time_advance_fl rd s =
    (case if_no_eligible s of
       Inl err \<Rightarrow> Some (Inl err)
     | Inr flag \<Rightarrow>
         if need_trans s flag
         then (case next_time_fl rd flag s of
                 Inl err \<Rightarrow> Some (Inl err)
               | Inr s' \<Rightarrow> time_advance_fl rd s')
         else Some (Inr s))"

primrec time_advance_within_fl :: "(real \<Rightarrow> real) \<Rightarrow> nat \<Rightarrow> FJSPEnv \<Rightarrow> (error + FJSPEnv) option" where
  "time_advance_within_fl rd 0 s =
    (case if_no_eligible s of
       Inl err \<Rightarrow> Some (Inl err)
     | Inr flag \<Rightarrow> if need_trans s flag then None else Some (Inr s))"
| "time_advance_within_fl rd (Suc n) s =
    (case if_no_eligible s of
       Inl err \<Rightarrow> Some (Inl err)
     | Inr flag \<Rightarrow>
         if need_trans s flag
         then (case next_time_fl rd flag s of
                 Inl err \<Rightarrow> Some (Inl err)
               | Inr s' \<Rightarrow> time_advance_within_fl rd n s')
         else Some (Inr s))"

definition step_fl :: "(real \<Rightarrow> real) \<Rightarrow> FJSPEnv \<Rightarrow> action list \<Rightarrow> (error + FJSPEnv) option" where
  "step_fl rd s actions =
    (case step_check s actions of
       Some err \<Rightarrow> Some (Inl err)
     | None \<Rightarrow>
         (case time_advance_fl rd (step_update_fl rd s actions) of
            None \<Rightarrow> None
          | Some (Inl err) \<Rightarrow> Some (Inl err)
          | Some (Inr s') \<Rightarrow> Some (Inr (step_finish s'))))"

text \<open>\<open>validate_gantt\<close> in float32: the duration of an entry is the rounded difference
  of its end and its start.\<close>

definition proc_time_count_fl :: "(real \<Rightarrow> real) \<Rightarrow> (nat \<Rightarrow> real) \<Rightarrow> gantt_entry list \<Rightarrow> nat" where
  "proc_time_count_fl rd proc_time_i g =
     length (filter (\<lambda>j. rd (snd (snd (g ! j)) - fst (snd (g ! j))) \<noteq> proc_time_i (fst (g ! j)))
               [0..<length g - 1])"

definition flag_proc_time_of_fl :: "(real \<Rightarrow> real) \<Rightarrow> FJSPEnv \<Rightarrow> nat \<Rightarrow> nat" where
  "flag_proc_time_of_fl rd s b =
     sum_list (map (\<lambda>i. proc_time_count_fl rd (\<lambda>p. proc_times_batch s b p i) (ma_gantt s b i))
                 [0..<num_mas s])"

definition validate_gantt_fl ::
  "(real \<Rightarrow> real) \<Rightarrow> FJSPEnv \<Rightarrow> error + (bool \<times> (nat \<Rightarrow> nat \<Rightarrow> nat \<Rightarrow> real))" where
  "validate_gantt_fl rd s =
     (if \<not> list_all (validate_index_ok s) [0..<batch_size s] then Inl IndexError
      else if sum_list (map (flag_ma_overlap_of s) [0..<batch_size s])
              + sum_list (map (flag_ope_overlap_of s) [0..<batch_size s])
              + sum_list (map (flag_proc_time_of_fl rd s) [0..<batch_size s])
              + sum_list (map (flag_unscheduled_of s) [0..<batch_size s]) \<noteq> 0
      then Inr (False, schedules_batch s)
      else Inr (True, schedules_batch s))"

text \<open>\<open>run_steps_fl rd s acts\<close> calls \<open>step\<close> once for every decision batch of \<open>acts\<close>
  and gives the environments after the calls, in order; it is \<open>None\<close> when a call
  raised or did not return.  \<open>reward_of s b\<close> is the reward of instance \<open>b\<close> that the
  last call of \<open>step\<close> returned (0 before the first call, when the attribute does not
  exist).\<close>

fun run_steps_fl :: "(real \<Rightarrow> real) \<Rightarrow> FJSPEnv \<Rightarrow> action list list \<Rightarrow> FJSPEnv list option" where
  "run_steps_fl rd s [] = Some []"
| "run_steps_fl rd s (a # acts) =
     (case step_fl rd s a of
        Some (Inr s') \<Rightarrow>
          (case run_steps_fl rd s' acts of
             Some ss \<Rightarrow> Some (s' # ss)
           | None \<Rightarrow> None)
      | _ \<Rightarrow> None)"

definition reward_of :: "FJSPEnv \<Rightarrow> nat \<Rightarrow> real" where
  "reward_of s b = (case reward_batch s of Some r \<Rightarrow> r b | None \<Rightarrow> 0)"

text \<open>\<open>utilization_fl rd eps s b m\<close>: the busy time of machine \<open>m\<close>, capped by the
  clock, over the rounded sum of the clock and the rounded \<open>eps\<close>, the quotient
  rounded.  \<open>util_is_fl rd eps s b\<close>: the utilisation feature of every machine of
  instance \<open>b\<close> has that value.\<close>

definition utilization_fl :: "(real \<Rightarrow> real) \<Rightarrow> real \<Rightarrow> FJSPEnv \<Rightarrow> nat \<Rightarrow> nat \<Rightarrow> real" where
  "utilization_fl rd eps s b m =
     rd (min (machines_batch s b m 2) (time s b) / rd (time s b + rd eps))"

definition util_is_fl :: "(real \<Rightarrow> real) \<Rightarrow> real \<Rightarrow> FJSPEnv \<Rightarrow> nat \<Rightarrow> bool" where
  "util_is_fl rd eps s b = tall (\<lambda>m. feat_mas_batch s b 2 m = utilization_fl rd eps s b m) (num_mas s)"

text \<open>
  The run on \<open>ld_a\<close> in float32: construction, the first call of \<open>step\<close> (operation 0
  on machine 0) in its stages, and the second call (operation 1 on machine 0), which
  completes the instance.
\<close>

definition env_af :: FJSPEnv where
  "env_af = projr (init_fl f32 1 1 2 2 ld_a)"

definition env_af1 :: FJSPEnv where
  "env_af1 = step_update_fl f32 env_af [(0, 0, 0)]"

definition flag_af1 :: "nat \<Rightarrow> real" where
  "flag_af1 = projr (if_no_eligible env_af1)"

definition env_af2 :: FJSPEnv where
  "env_af2 = projr (next_time_fl f32 flag_af1 env_af1)"

definition env_af3 :: FJSPEnv where
  "env_af3 = step_finish env_af2"

definition env_af4 :: FJSPEnv where
  "env_af4 = step_finish (step_update_fl f32 env_af3 [(1, 0, 0)])"

text \<open>A call of \<open>next_time\<close> on the freshly constructed float32 environment of \<open>ld_a\<close>
  with the flag 1, which moves no clock.\<close>

definition env_af0 :: FJSPEnv where
  "env_af0 = projr (next_time_fl f32 (\<lambda>b. 1) env_af)"

text \<open>
  One instance with one job of two operations and three machines; operation 0 takes
  17, 2 or 16 time units, operation 1 takes 2, 9 or 2.  Then its run in float32 with
  the legal decisions operation 0 on machine 1 and operation 1 on machine 1.
\<close>

definition ld_f :: load_data where
  "ld_f = \<lparr>ld_proc_times = (\<lambda>b i m. [[17, 2, 16], [2, 9, 2]] ! i ! m),
          ld_ope_ma_adj = (\<lambda>b i m. 1),
          ld_ope_pre_adj = (\<lambda>b i k. i = 0 \<and> k = 1),
          ld_ope_sub_adj = (\<lambda>b i k. i = 1 \<and> k = 0),
          ld_opes_appertain = (\<lambda>b i. 0),
          ld_num_ope_biases = (\<lambda>b j. 0),
          ld_nums_ope = (\<lambda>b j. 2),
          ld_cal_cumul_adj = (\<lambda>b i k. if i = 0 \<and> k = 1 then 1 else 0)\<rparr>"

definition env_ff :: FJSPEnv where
  "env_ff = projr (init_fl f32 1 1 3 2 ld_f)"

definition env_ff1 :: FJSPEnv where
  "env_ff1 = step_update_fl f32 env_ff [(0, Suc 0, 0)]"

definition flag_ff1 :: "nat \<Rightarrow> real" where
  "flag_ff1 = projr (if_no_eligible env_ff1)"

definition env_ff2 :: FJSPEnv where
  "env_ff2 = projr (next_time_fl f32 flag_ff1 env_ff1)"

definition env_ff3 :: FJSPEnv where
  "env_ff3 = step_finish env_ff2"

definition env_ff3u :: FJSPEnv where
  "env_ff3u = step_update_fl f32 env_ff3 [(Suc 0, Suc 0, 0)]"

definition env_ff4 :: FJSPEnv where
  "env_ff4 = step_finish env_ff3u"

section \<open>Basic facts\<close>

lemma tall_iff: "tall p n \<longleftrightarrow> (\<forall>i<n. p i)"
  by (auto simp: tall_def list_all_iff)

lemma tany_iff: "tany p n \<longleftrightarrow> (\<exists>i<n. p i)"
  by (auto simp: tany_def list_ex_iff)

lemma tsum_0 [simp]: "tsum f 0 = 0"
  by (simp add: tsum_def)

lemma tsum_Suc [simp]: "tsum f (Suc n) = tsum f n + f n"
  by (simp add: tsum_def)

lemma count_nonzero_0 [simp]: "count_nonzero f 0 = 0"
  by (simp add: count_nonzero_def)

lemma count_nonzero_Suc [simp]:
  "count_nonzero f (Suc n) = count_nonzero f n + (if f n \<noteq> 0 then 1 else 0)"
  by (simp add: count_nonzero_def)

lemma tmax_Suc [simp]: "tmax f (Suc n) = max_to f n"
  by (simp add: tmax_def)

lemma tmin_Suc [simp]: "tmin f (Suc n) = min_to f n"
  by (simp add: tmin_def)

lemma init_dims:
  assumes "init bs nj nm n ld = Inr s"
  shows "batch_size s = bs" "num_jobs s = nj" "num_mas s = nm" "num_opes s = n"
    "0 < bs" "0 < n" "time s = (\<lambda>b. 0)" "done_batch s = (\<lambda>b. tall (\<lambda>j. False) nj)"
    "machines_batch s = (\<lambda>b m k. if k = 0 then 1 else 0)"
    "mask_ma_procing_batch s = (\<lambda>b m. False)"
    "mask_job_procing_batch s = (\<lambda>b m. False)"
    "mask_job_finish_batch s = (\<lambda>b m. False)"
  using assms by (auto simp: init_def Let_def split: if_splits)

lemma init_a: "init 1 1 2 2 ld_a = Inr env_a"
  by (simp add: env_a_def init_def Let_def tall_iff ld_a_def)

lemmas env_a_simps = init_dims[OF init_a]

section \<open>The clock of an instance that is not stalled\<close>

text \<open>
  C10.  A call of \<open>next_time\<close> that returns leaves the clock of every instance whose
  flag is not 0, and of every instance that is done, as it was: the new clock is
  \<open>torch.where(flag_need_trans, c, self.time)\<close>.
\<close>

theorem next_time_frame:
  assumes "next_time flag s = Inr s'" and "flag b \<noteq> 0 \<or> done_batch s b"
  shows "time s' b = time s b"
  using assms
  by (auto simp: next_time_def next_time_update_def flag_need_trans_def Let_def split: option.splits)

theorem next_time_frame_witness:
  "\<exists>s'. next_time (\<lambda>b. 1) env_a = Inr s' \<and> time s' 0 = time env_a 0"
proof -
  have "\<exists>s'. next_time (\<lambda>b. 1) env_a = Inr s'"
    by (simp add: next_time_def next_time_check_def freed_jobs_def freed_def flag_need_trans_def
        env_a_simps tany_iff)
  then obtain s' where h: "next_time (\<lambda>b. 1) env_a = Inr s'" ..
  have "(\<lambda>b::nat. 1::real) 0 \<noteq> 0 \<or> done_batch env_a 0" by simp
  from next_time_frame[OF h this] h show ?thesis by simp
qed

section \<open>The time-advance loop\<close>

lemma kept_refl [simp]: "kept s s" by (simp add: kept_def)
lemma kept_trans: "kept s s' \<Longrightarrow> kept s' s'' \<Longrightarrow> kept s s''" by (simp add: kept_def)

lemma next_time_kept: "next_time flag s = Inr s' \<Longrightarrow> kept s s'"
  by (auto simp: next_time_def next_time_update_def Let_def kept_def split: option.splits)

lemma within_imp_advance:
  "time_advance_within n s = Some r \<Longrightarrow> time_advance s = Some r"
proof (induction n arbitrary: s)
  case 0
  then show ?case
    by (subst time_advance.simps) (auto split: sum.splits if_splits)
next
  case (Suc n)
  then show ?case
    by (subst time_advance.simps) (auto split: sum.splits if_splits)
qed

lemma advance_imp_within:
  assumes "time_advance s = Some r"
  shows "\<exists>n. time_advance_within n s = Some r"
proof (rule time_advance.raw_induct[where P = "\<lambda>s r. \<exists>n. time_advance_within n s = Some r", OF _ assms])
  fix ta :: "FJSPEnv \<Rightarrow> (error + FJSPEnv) option" and s r
  assume IH: "\<And>x y. ta x = Some y \<Longrightarrow> \<exists>n. time_advance_within n x = Some y"
    and body: "(case if_no_eligible s of Inl err \<Rightarrow> Some (Inl err)
      | Inr flag \<Rightarrow> if need_trans s flag
          then case next_time flag s of Inl err \<Rightarrow> Some (Inl err) | Inr s' \<Rightarrow> ta s'
          else Some (Inr s)) = Some r"
  show "\<exists>n. time_advance_within n s = Some r"
  proof (cases "if_no_eligible s")
    case (Inl e)
    with body have "time_advance_within 0 s = Some r" by simp
    then show ?thesis ..
  next
    case (Inr flag)
    show ?thesis
    proof (cases "need_trans s flag")
      case False
      with Inr body have "time_advance_within 0 s = Some r" by simp
      then show ?thesis ..
    next
      case True
      show ?thesis
      proof (cases "next_time flag s")
        case (Inl e)
        with Inr True body have "time_advance_within (Suc 0) s = Some r" by auto
        then show ?thesis ..
      next
        case nt: (Inr s1)
        with Inr True body have "ta s1 = Some r" by simp
        from IH[OF this] obtain n where "time_advance_within n s1 = Some r" ..
        with Inr True nt have "time_advance_within (Suc n) s = Some r" by simp
        then show ?thesis ..
      qed
    qed
  qed
qed

lemma time_advance_induct [consumes 1, case_names stop trans]:
  assumes ta: "time_advance s = Some (Inr s')"
    and stop: "\<And>s flag. if_no_eligible s = Inr flag \<Longrightarrow> \<not> need_trans s flag \<Longrightarrow> P s s"
    and trans: "\<And>s flag s1 s'. if_no_eligible s = Inr flag \<Longrightarrow> need_trans s flag \<Longrightarrow>
        next_time flag s = Inr s1 \<Longrightarrow> time_advance s1 = Some (Inr s') \<Longrightarrow> P s1 s' \<Longrightarrow> P s s'"
  shows "P s s'"
proof -
  from advance_imp_within[OF ta] obtain n where "time_advance_within n s = Some (Inr s')" ..
  then show ?thesis
  proof (induction n arbitrary: s)
    case 0
    then show ?case by (auto split: sum.splits if_splits intro: stop)
  next
    case (Suc n)
    show ?case
    proof (cases "if_no_eligible s")
      case (Inl e) with Suc.prems show ?thesis by simp
    next
      case (Inr flag)
      show ?thesis
      proof (cases "need_trans s flag")
        case False with Inr Suc.prems show ?thesis by (auto intro: stop)
      next
        case True
        show ?thesis
        proof (cases "next_time flag s")
          case (Inl e) with Inr True Suc.prems show ?thesis by simp
        next
          case nt: (Inr s1)
          with Inr True Suc.prems have w: "time_advance_within n s1 = Some (Inr s')" by simp
          from trans[OF Inr True nt within_imp_advance[OF w] Suc.IH[OF w]] show ?thesis .
        qed
      qed
    qed
  qed
qed

lemma time_advance_kept: "time_advance s = Some (Inr s') \<Longrightarrow> kept s s'"
proof (induction rule: time_advance_induct)
  case (stop s flag)
  show ?case by simp
next
  case (trans s flag s1 s')
  from next_time_kept[OF trans(3)] trans(5) show ?case by (rule kept_trans)
qed

lemma init_static:
  assumes "init bs nj nm n ld = Inr s"
  shows "proc_times_batch s = ld_proc_times ld" "ope_ma_adj_batch s = ld_ope_ma_adj ld"
    "cal_cumul_adj_batch s = ld_cal_cumul_adj ld" "opes_appertain_batch s = ld_opes_appertain ld"
    "num_ope_biases_batch s = ld_num_ope_biases ld" "nums_ope_batch s = ld_nums_ope ld"
    "end_ope_biases_batch s = (\<lambda>b j. ld_num_ope_biases ld b j + ld_nums_ope ld b j - 1)"
    "nums_opes s = (\<lambda>b. sum_list (map (ld_nums_ope ld b) [0..<nj]))"
    "batch_idxes s = [0..<bs]" "N s = (\<lambda>b. 0)" "ope_step_batch s = ld_num_ope_biases ld"
  using assms by (auto simp: init_def Let_def split: if_splits)

lemmas env_a_static = init_static[OF init_a]

lemma init_b: "init 1 1 2 1 ld_b = Inr env_b"
  by (simp add: env_b_def init_def Let_def tall_iff ld_b_def)

lemmas env_b_simps = init_dims[OF init_b] init_static[OF init_b]

lemma upt_0_1: "[0..<1] = [0]"
  by (simp add: upt_rec)

lemma upt_0_2: "[0..<2] = [0, 1]"
  by (simp add: upt_rec)

lemma step_update_static [simp]:
  "batch_size (step_update s a) = batch_size s" "num_jobs (step_update s a) = num_jobs s"
  "num_mas (step_update s a) = num_mas s" "num_opes (step_update s a) = num_opes s"
  "opes_appertain_batch (step_update s a) = opes_appertain_batch s"
  "num_ope_biases_batch (step_update s a) = num_ope_biases_batch s"
  "nums_ope_batch (step_update s a) = nums_ope_batch s"
  "end_ope_biases_batch (step_update s a) = end_ope_biases_batch s"
  "nums_opes (step_update s a) = nums_opes s" "batch_idxes (step_update s a) = batch_idxes s"
  "time (step_update s a) = time s" "N (step_update s a) = (\<lambda>b. N s b + 1)"
  "state (step_update s a) = state s" "state_shared (step_update s a) = state_shared s"
  "old_proc_times_batch (step_update s a) = old_proc_times_batch s"
  "old_ope_ma_adj_batch (step_update s a) = old_ope_ma_adj_batch s"
  "old_cal_cumul_adj_batch (step_update s a) = old_cal_cumul_adj_batch s"
  "old_feat_opes_batch (step_update s a) = old_feat_opes_batch s"
  "old_feat_mas_batch (step_update s a) = old_feat_mas_batch s"
  "old_state (step_update s a) = old_state s"
  by (simp_all add: step_update_def Let_def)

lemma step_finish_fields [simp]:
  "batch_size (step_finish s) = batch_size s" "num_jobs (step_finish s) = num_jobs s"
  "num_mas (step_finish s) = num_mas s" "num_opes (step_finish s) = num_opes s"
  "proc_times_batch (step_finish s) = proc_times_batch s"
  "ope_ma_adj_batch (step_finish s) = ope_ma_adj_batch s"
  "cal_cumul_adj_batch (step_finish s) = cal_cumul_adj_batch s"
  "opes_appertain_batch (step_finish s) = opes_appertain_batch s"
  "num_ope_biases_batch (step_finish s) = num_ope_biases_batch s"
  "nums_ope_batch (step_finish s) = nums_ope_batch s"
  "end_ope_biases_batch (step_finish s) = end_ope_biases_batch s"
  "nums_opes (step_finish s) = nums_opes s"
  "time (step_finish s) = time s" "N (step_finish s) = N s"
  "ope_step_batch (step_finish s) = ope_step_batch s"
  "feat_opes_batch (step_finish s) = feat_opes_batch s"
  "feat_mas_batch (step_finish s) = feat_mas_batch s"
  "mask_job_procing_batch (step_finish s) = mask_job_procing_batch s"
  "mask_job_finish_batch (step_finish s) = mask_job_finish_batch s"
  "mask_ma_procing_batch (step_finish s) = mask_ma_procing_batch s"
  "schedules_batch (step_finish s) = schedules_batch s"
  "machines_batch (step_finish s) = machines_batch s"
  "makespan_batch (step_finish s) = makespan_batch s"
  "done_batch (step_finish s) = done_batch s"
  "reward_batch (step_finish s) = reward_batch s"
  "done_flag (step_finish s) = done_flag s"
  "old_proc_times_batch (step_finish s) = old_proc_times_batch s"
  "old_ope_ma_adj_batch (step_finish s) = old_ope_ma_adj_batch s"
  "old_cal_cumul_adj_batch (step_finish s) = old_cal_cumul_adj_batch s"
  "old_feat_opes_batch (step_finish s) = old_feat_opes_batch s"
  "old_feat_mas_batch (step_finish s) = old_feat_mas_batch s"
  "old_state (step_finish s) = old_state s"
  by (simp_all add: step_finish_def Let_def)

lemma step_Inr_D:
  assumes "step s a = Some (Inr s')"
  obtains s1 where "step_check s a = None" "time_advance (step_update s a) = Some (Inr s1)"
    "s' = step_finish s1"
  using assms by (auto simp: step_def split: option.splits sum.splits)

lemma step_no_trans:
  assumes "step_check s a = None" "if_no_eligible (step_update s a) = Inr flag"
    "\<not> need_trans (step_update s a) flag"
  shows "step s a = Some (Inr (step_finish (step_update s a)))"
proof -
  from assms(2,3) have "time_advance (step_update s a) = Some (Inr (step_update s a))"
    by (subst time_advance.simps) simp
  with assms(1) show ?thesis by (simp add: step_def)
qed

lemma step_update_schedule_ineligible:
  assumes "act_of s a b = Some (ope, ma, job)" "proc_times_batch s b ope ma = 0"
  shows "schedules_batch (step_update s a) b ope 0 = 1"
    "schedules_batch (step_update s a) b ope 1 = real ma"
    "schedules_batch (step_update s a) b ope 2 = time s b"
    "schedules_batch (step_update s a) b ope 3 = time s b"
  using assms by (simp_all add: step_update_def Let_def)

section \<open>Decisions for an ineligible machine\<close>

text \<open>
  C4 (as the code has it).  \<open>step\<close> has no check of the decision.  When it returns
  from a decision that gives an operation to a machine whose processing-time entry
  is 0, the schedule has the operation as scheduled on that machine, starting and
  ending at the clock the instance had: a duration of 0.
\<close>

theorem step_schedules_ineligible:
  assumes "step s actions = Some (Inr s')" and "act_of s actions b = Some (ope, ma, job)"
    and "proc_times_batch s b ope ma = 0"
  shows "schedules_batch s' b ope 0 = 1 \<and> schedules_batch s' b ope 1 = real ma
    \<and> schedules_batch s' b ope 2 = time s b \<and> schedules_batch s' b ope 3 = time s b"
proof -
  from assms(1) obtain s1 where s1: "time_advance (step_update s actions) = Some (Inr s1)"
    and s': "s' = step_finish s1" by (rule step_Inr_D)
  from time_advance_kept[OF s1] have "schedules_batch s1 = schedules_batch (step_update s actions)"
    by (simp add: kept_def)
  with s' step_update_schedule_ineligible[OF assms(2,3)] show ?thesis by simp
qed

text \<open>The instance \<open>ld_b\<close>: operation 0 has the entry 0 on machine 1, and \<open>step\<close> returns
  a state, not an error, with the operation scheduled there from 0 to 0.\<close>

lemma act_of_b: "act_of env_b [(0, 1, 0)] 0 = Some (0, 1, 0)"
  by (simp add: act_of_def env_b_simps upt_0_1)

lemma step_b: "step env_b [(0, 1, 0)] = Some (Inr (step_finish (step_update env_b [(0, 1, 0)])))"
proof -
  have c: "step_check env_b [(0, 1, 0)] = None"
    by (simp add: step_check_def env_b_simps tall_iff ld_b_def upt_0_1)
  have d: "done_batch (step_update env_b [(0, 1, 0)]) 0"
    using act_of_b by (simp add: step_update_def Let_def env_b_simps tall_iff ld_b_def)
  have "\<exists>flag. if_no_eligible (step_update env_b [(0, 1, 0)]) = Inr flag"
    by (simp add: if_no_eligible_def Let_def env_b_simps tall_iff ld_b_def)
  then obtain flag where f: "if_no_eligible (step_update env_b [(0, 1, 0)]) = Inr flag" ..
  from d have n: "\<not> need_trans (step_update env_b [(0, 1, 0)]) flag"
    by (simp add: need_trans_def tany_iff env_b_simps)
  from step_no_trans[OF c f n] show ?thesis .
qed

theorem step_accepts_ineligible:
  "proc_times_batch env_b 0 0 1 = 0
   \<and> (\<exists>s'. step env_b [(0, 1, 0)] = Some (Inr s') \<and> schedules_batch s' 0 0 0 = 1
         \<and> schedules_batch s' 0 0 1 = 1 \<and> schedules_batch s' 0 0 3 - schedules_batch s' 0 0 2 = 0)"
proof -
  have p: "proc_times_batch env_b 0 0 1 = 0" by (simp add: env_b_simps ld_b_def)
  from step_update_schedule_ineligible[OF act_of_b p] step_b p show ?thesis by simp
qed

theorem step_schedules_ineligible_witness:
  "\<exists>s'. step env_b [(0, 1, 0)] = Some (Inr s') \<and> schedules_batch s' 0 0 0 = 1
     \<and> schedules_batch s' 0 0 1 = real (Suc 0)
     \<and> schedules_batch s' 0 0 2 = time env_b 0 \<and> schedules_batch s' 0 0 3 = time env_b 0"
proof -
  have p: "proc_times_batch env_b 0 0 1 = 0" by (simp add: env_b_simps ld_b_def)
  from step_schedules_ineligible[OF step_b act_of_b p] step_b show ?thesis by simp
qed

section \<open>The duration check of the validator\<close>

text \<open>
  C5 (where the code departs from it).  The loop that checks a machine's entries
  leaves at the last entry before it compares the duration, so the last entry of
  every machine, and the only entry of a machine that has one, is never checked.
  In \<open>env_bad\<close> operation 0 is scheduled on machine 0 from 0 to 5 although its processing
  time there is 3, and the verdict is \<open>True\<close>.
\<close>

theorem validate_gantt_misses_last_entry:
  "validate_gantt env_bad = Inr (True, schedules_batch env_bad)
   \<and> schedules_batch env_bad 0 0 0 = 1
   \<and> schedules_batch env_bad 0 0 3 - schedules_batch env_bad 0 0 2 \<noteq> proc_times_batch env_bad 0 0 0"
  by (simp add: validate_gantt_def validate_index_ok_def env_bad_def env_a_simps env_a_static
     flag_ma_overlap_of_def flag_ope_overlap_of_def flag_proc_time_of_def flag_unscheduled_of_def
     ma_gantt_def ma_overlap_count_def proc_time_count_def py_index_def trunc_def ld_a_def
     upt_0_2 upt_0_1)

section \<open>Rewards\<close>

lemma step_update_reward:
  "reward_batch (step_update s a) = Some (\<lambda>b. makespan_batch s b - makespan_batch (step_update s a) b)"
  "makespan_batch (step_update s a) = (\<lambda>b. tmax (feat_opes_batch (step_update s a) b 4) (num_opes s))"
  by (simp_all add: step_update_def Let_def)

lemma step_reward:
  assumes "step s a = Some (Inr s')"
  shows "reward_batch s' = Some (\<lambda>b. makespan_batch s b - makespan_batch s' b)"
    and "makespan_batch s' = (\<lambda>b. tmax (feat_opes_batch s' b 4) (num_opes s'))"
proof -
  from assms obtain s1 where s1: "time_advance (step_update s a) = Some (Inr s1)"
    and s': "s' = step_finish s1" by (rule step_Inr_D)
  from time_advance_kept[OF s1] have k: "kept (step_update s a) s1" .
  from k s' show "reward_batch s' = Some (\<lambda>b. makespan_batch s b - makespan_batch s' b)"
    by (simp add: kept_def step_update_reward(1))
  from k s' show "makespan_batch s' = (\<lambda>b. tmax (feat_opes_batch s' b 4) (num_opes s'))"
    by (simp add: kept_def step_update_reward(2))
qed

lemma init_makespan:
  assumes "init bs nj nm n ld = Inr s"
  shows "makespan_batch s = (\<lambda>b. tmax (feat_opes_batch s b 4) (num_opes s))"
  using assms by (auto simp: init_def Let_def split: if_splits)

lemma run_steps_makespan:
  assumes "run_steps s0 acts = Some (s, rs)"
    and "makespan_batch s0 = (\<lambda>b. tmax (feat_opes_batch s0 b 4) (num_opes s0))"
  shows "makespan_batch s = (\<lambda>b. tmax (feat_opes_batch s b 4) (num_opes s))"
  using assms
proof (induction acts arbitrary: s0 rs)
  case Nil
  then show ?case by simp
next
  case (Cons a acts)
  from Cons.prems(1) obtain s1 r rs' where st: "step s0 a = Some (Inr s1)"
    and run: "run_steps s1 acts = Some (s, rs')"
    by (auto split: option.splits sum.splits)
  from Cons.IH[OF run step_reward(2)[OF st]] show ?case .
qed

text \<open>
  In exact arithmetic: for a run of \<open>step\<close> calls from a freshly constructed
  environment, the rewards an instance received add up to its first makespan minus its
  last; the makespan baseline is, at both ends, the maximum over the operations of
  the job completion feature (feature 4).  Every call's reward is the baseline before
  the call minus the baseline after it (\<open>step_reward\<close>).
\<close>

theorem reward_sum:
  assumes "init bs nj nm n ld = Inr s0" and "run_steps s0 acts = Some (s, rs)"
  shows "sum_list (map (\<lambda>r. r b) rs) = makespan_batch s0 b - makespan_batch s b
    \<and> makespan_batch s0 b = tmax (feat_opes_batch s0 b 4) (num_opes s0)
    \<and> makespan_batch s b = tmax (feat_opes_batch s b 4) (num_opes s)"
proof -
  have "sum_list (map (\<lambda>r. r b) rs) = makespan_batch s0 b - makespan_batch s b"
    using assms(2)
  proof (induction acts arbitrary: s0 rs)
    case Nil
    then show ?case by simp
  next
    case (Cons a acts)
    from Cons.prems obtain s1 r rs' where st: "step s0 a = Some (Inr s1)"
      and r: "reward_batch s1 = Some r"
      and run: "run_steps s1 acts = Some (s, rs')" and rs: "rs = r # rs'"
      by (auto split: option.splits sum.splits)
    from step_reward(1)[OF st] r have "r b = makespan_batch s0 b - makespan_batch s1 b" by simp
    with Cons.IH[OF run] rs show ?case by simp
  qed
  with init_makespan[OF assms(1)] run_steps_makespan[OF assms(2) init_makespan[OF assms(1)]]
  show ?thesis by simp
qed

lemma step_b_legal: "step env_b [(0, 0, 0)] = Some (Inr (step_finish (step_update env_b [(0, 0, 0)])))"
proof -
  have a: "act_of env_b [(0, 0, 0)] 0 = Some (0, 0, 0)"
    by (simp add: act_of_def env_b_simps upt_0_1)
  have c: "step_check env_b [(0, 0, 0)] = None"
    by (simp add: step_check_def env_b_simps tall_iff ld_b_def upt_0_1)
  have d: "done_batch (step_update env_b [(0, 0, 0)]) 0"
    using a by (simp add: step_update_def Let_def env_b_simps tall_iff ld_b_def)
  have "\<exists>flag. if_no_eligible (step_update env_b [(0, 0, 0)]) = Inr flag"
    by (simp add: if_no_eligible_def Let_def env_b_simps tall_iff ld_b_def)
  then obtain flag where f: "if_no_eligible (step_update env_b [(0, 0, 0)]) = Inr flag" ..
  from d have n: "\<not> need_trans (step_update env_b [(0, 0, 0)]) flag"
    by (simp add: need_trans_def tany_iff env_b_simps)
  from step_no_trans[OF c f n] show ?thesis .
qed

theorem reward_sum_witness:
  "\<exists>s rs. run_steps env_b [[(0, 0, 0)]] = Some (s, rs)
     \<and> sum_list (map (\<lambda>r. r 0) rs) = makespan_batch env_b 0 - makespan_batch s 0
     \<and> makespan_batch env_b 0 = tmax (feat_opes_batch env_b 0 4) (num_opes env_b)
     \<and> makespan_batch s 0 = tmax (feat_opes_batch s 0 4) (num_opes s)"
proof -
  have "\<exists>r. reward_batch (step_finish (step_update env_b [(0, 0, 0)])) = Some r"
    by (simp add: step_update_reward)
  then obtain r where "reward_batch (step_finish (step_update env_b [(0, 0, 0)])) = Some r" ..
  with step_b_legal
  have run: "run_steps env_b [[(0, 0, 0)]] = Some (step_finish (step_update env_b [(0, 0, 0)]), [r])"
    by simp
  from reward_sum[OF init_b run, of 0] run show ?thesis by blast
qed

section \<open>Reset\<close>

lemma same_saved_refl [simp]: "same_saved s s"
  by (simp add: same_saved_def)

lemma kept_same_saved: "kept s s' \<Longrightarrow> same_saved s0 s \<Longrightarrow> same_saved s0 s'"
  by (simp add: kept_def same_saved_def)

lemma step_same_saved:
  assumes "step s a = Some (Inr s')" and "same_saved s0 s"
  shows "same_saved s0 s'"
proof -
  from assms(1) obtain s1 where s1: "time_advance (step_update s a) = Some (Inr s1)"
    and s': "s' = step_finish s1" by (rule step_Inr_D)
  from assms(2) have "same_saved s0 (step_update s a)" by (simp add: same_saved_def)
  from kept_same_saved[OF time_advance_kept[OF s1] this] s' show ?thesis
    by (simp add: same_saved_def)
qed

lemma reaches_same_saved: "reaches s0 s \<Longrightarrow> same_saved s0 s"
proof (induction rule: reaches.induct)
  case reaches_start
  show ?case by simp
next
  case (reaches_step s actions s')
  then show ?case by (auto intro: step_same_saved)
next
  case (reaches_next_time s flag s')
  then show ?case by (auto intro: kept_same_saved next_time_kept)
qed

lemma init_saved:
  assumes "init bs nj nm n ld = Inr s"
  shows "old_proc_times_batch s = proc_times_batch s"
    "old_ope_ma_adj_batch s = ope_ma_adj_batch s"
    "old_cal_cumul_adj_batch s = cal_cumul_adj_batch s"
    "old_feat_opes_batch s = feat_opes_batch s"
    "old_feat_mas_batch s = feat_mas_batch s"
    "old_state s = state s"
    "schedules_batch s = (\<lambda>b i k. if k = 2 then feat_opes_batch s b 5 i
         else if k = 3 then feat_opes_batch s b 5 i + feat_opes_batch s b 2 i else 0)"
  using assms by (auto simp: init_def Let_def fun_eq_iff split: if_splits)

lemma reset_init:
  assumes "init bs nj nm n ld = Inr s0"
  shows "dynamic_eq s0 (reset s0)"
  using init_saved[OF assms] init_dims[OF assms] init_static[OF assms] init_makespan[OF assms]
  by (simp add: reset_def dynamic_eq_def Let_def)

lemma reset_same_saved:
  assumes "same_saved s0 s"
  shows "dynamic_eq (reset s0) (reset s)"
  using assms by (simp add: same_saved_def reset_def dynamic_eq_def Let_def)

text \<open>
  C3.  After any calls of \<open>step\<close> and \<open>next_time\<close> on a freshly constructed environment,
  \<open>reset\<close> gives every dynamic component the value it had after construction:
  processing times, both adjacencies, both feature tensors, the three masks, the
  schedule, the machine records, clock, operation count, operation pointers, active
  instances, makespan baseline, done flags and the snapshot.
\<close>

theorem reset_restores:
  assumes "init bs nj nm n ld = Inr s0" and "reaches s0 s"
  shows "dynamic_eq s0 (reset s)"
  using reset_init[OF assms(1)] reset_same_saved[OF reaches_same_saved[OF assms(2)]]
  by (simp add: dynamic_eq_def)

theorem reset_restores_witness:
  "reaches env_b (step_finish (step_update env_b [(0, 0, 0)]))
   \<and> dynamic_eq env_b (reset (step_finish (step_update env_b [(0, 0, 0)])))"
proof -
  have r: "reaches env_b (step_finish (step_update env_b [(0, 0, 0)]))"
    by (rule reaches_step[OF reaches_start step_b_legal])
  from reset_restores[OF init_b r] r show ?thesis by simp
qed

section \<open>The adjacency row of a scheduled operation\<close>

lemma trunc_of_nat [simp]: "trunc (real n) = int n"
  by (simp add: trunc_def)

lemma reaches_trans:
  assumes "reaches s s'" and "reaches s0 s"
  shows "reaches s0 s'"
  using assms
proof (induction rule: reaches.induct)
  case reaches_start
  then show ?case .
next
  case (reaches_step s1 actions s2)
  then show ?case by (auto intro: reaches.reaches_step)
next
  case (reaches_next_time s1 flag s2)
  then show ?case by (auto intro: reaches.reaches_next_time)
qed

lemma step_check_act:
  assumes "step_check s a = None" and "act_of s a b = Some (ope, ma, job)"
  shows "ope < num_opes s" "ma < num_mas s" "job < num_jobs s" "b < batch_size s"
proof -
  from assms(2) have "(b, (ope, ma, job)) \<in> set (zip (batch_idxes s) a)"
    unfolding act_of_def by (rule map_of_SomeD)
  then have "(ope, ma, job) \<in> set a" and "b \<in> set (batch_idxes s)"
    by (auto dest: set_zip_rightD set_zip_leftD)
  moreover from assms(1)
  have "list_all (\<lambda>(ope, ma, job). ope < num_opes s \<and> ma < num_mas s \<and> job < num_jobs s) a"
    and "list_all (\<lambda>b. b < batch_size s) (batch_idxes s)"
    by (auto simp: step_check_def split: if_splits)
  ultimately show "ope < num_opes s" "ma < num_mas s" "job < num_jobs s" "b < batch_size s"
    by (auto simp: list_all_iff)
qed

text \<open>What \<open>step\<close> writes into the status, the machine, the adjacency and the
  processing times.\<close>

lemma step_update_schedule_active:
  assumes "act_of s a b = Some (ope, ma, job)"
  shows "schedules_batch (step_update s a) b i 0 = (if i = ope then 1 else schedules_batch s b i 0)"
    "schedules_batch (step_update s a) b i 1 = (if i = ope then real ma else schedules_batch s b i 1)"
    "ope_ma_adj_batch (step_update s a) b i m =
       (if i = ope then (if m = ma then 1 else 0) else ope_ma_adj_batch s b i m)"
  using assms by (simp_all add: step_update_def Let_def)

lemma step_update_schedule_inactive:
  assumes "act_of s a b = None"
  shows "schedules_batch (step_update s a) b = schedules_batch s b"
    "ope_ma_adj_batch (step_update s a) b = ope_ma_adj_batch s b"
  using assms by (simp_all add: step_update_def Let_def fun_eq_iff)

lemma step_update_proc_times:
  "proc_times_batch (step_update s a) b i m
     = proc_times_batch s b i m * of_int (ope_ma_adj_batch (step_update s a) b i m)"
  by (simp add: step_update_def Let_def)

lemma rows_pruned_init:
  assumes "init bs nj nm n ld = Inr s"
  shows "rows_pruned s"
  using init_saved(7)[OF assms] by (simp add: rows_pruned_def)

lemma rows_pruned_kept: "kept s s' \<Longrightarrow> rows_pruned s \<Longrightarrow> rows_pruned s'"
  by (simp add: kept_def rows_pruned_def)

lemma rows_pruned_step_update:
  assumes "step_check s a = None" and "rows_pruned s"
  shows "rows_pruned (step_update s a)"
  unfolding rows_pruned_def
proof (intro allI impI)
  fix b i
  assume sch: "schedules_batch (step_update s a) b i 0 = 1"
  let ?P = "\<lambda>ma. schedules_batch (step_update s a) b i 1 = real ma
           \<and> (\<forall>m. ope_ma_adj_batch (step_update s a) b i m = (if m = ma then 1 else 0))
           \<and> (\<forall>m. m \<noteq> ma \<longrightarrow> proc_times_batch (step_update s a) b i m = 0)"
  show "\<exists>ma<num_mas (step_update s a). ?P ma"
  proof (cases "act_of s a b")
    case None
    from sch step_update_schedule_inactive[OF None] have "schedules_batch s b i 0 = 1" by simp
    with assms(2) obtain ma where "ma < num_mas s" "schedules_batch s b i 1 = real ma"
      "\<forall>m. ope_ma_adj_batch s b i m = (if m = ma then 1 else 0)"
      unfolding rows_pruned_def by blast
    with step_update_schedule_inactive[OF None] have "ma < num_mas (step_update s a) \<and> ?P ma"
      by (simp add: step_update_proc_times)
    then show ?thesis by blast
  next
    case (Some x)
    obtain ope ma job where x: "x = (ope, ma, job)" by (cases x)
    note act = Some[unfolded x]
    note upd = step_update_schedule_active[OF act]
    show ?thesis
    proof (cases "i = ope")
      case True
      with upd step_check_act(2)[OF assms(1) act]
      have "ma < num_mas (step_update s a) \<and> ?P ma"
        by (simp add: step_update_proc_times)
      then show ?thesis by blast
    next
      case False
      with sch upd have "schedules_batch s b i 0 = 1" by simp
      with assms(2) obtain ma' where "ma' < num_mas s" "schedules_batch s b i 1 = real ma'"
        "\<forall>m. ope_ma_adj_batch s b i m = (if m = ma' then 1 else 0)"
        unfolding rows_pruned_def by blast
      with False upd have "ma' < num_mas (step_update s a) \<and> ?P ma'"
        by (simp add: step_update_proc_times)
      then show ?thesis by blast
    qed
  qed
qed

lemma rows_pruned_step:
  assumes "step s a = Some (Inr s')" and "rows_pruned s"
  shows "rows_pruned s'"
proof -
  from assms(1) obtain s1 where c: "step_check s a = None"
    and s1: "time_advance (step_update s a) = Some (Inr s1)"
    and s': "s' = step_finish s1" by (rule step_Inr_D)
  from rows_pruned_kept[OF time_advance_kept[OF s1] rows_pruned_step_update[OF c assms(2)]] s'
  show ?thesis by (simp add: rows_pruned_def)
qed

lemma rows_pruned_reaches: "reaches s0 s \<Longrightarrow> rows_pruned s0 \<Longrightarrow> rows_pruned s"
proof (induction rule: reaches.induct)
  case reaches_start
  then show ?case .
next
  case (reaches_step s actions s')
  then show ?case by (auto intro: rows_pruned_step)
next
  case (reaches_next_time s flag s')
  then show ?case by (auto intro: rows_pruned_kept next_time_kept)
qed

lemma rows_pruned_D:
  assumes "rows_pruned s" and "schedules_batch s b i 0 = 1"
  shows "pruned_row s b i (chosen_machine s b i)"
    and "schedules_batch s b i 1 = real (chosen_machine s b i)"
proof -
  from assms obtain ma where "ma < num_mas s" "schedules_batch s b i 1 = real ma"
    "\<forall>m. ope_ma_adj_batch s b i m = (if m = ma then 1 else 0)"
    "\<forall>m. m \<noteq> ma \<longrightarrow> proc_times_batch s b i m = 0"
    unfolding rows_pruned_def by blast
  then show "pruned_row s b i (chosen_machine s b i)"
    and "schedules_batch s b i 1 = real (chosen_machine s b i)"
    by (auto simp: pruned_row_def chosen_machine_def tall_iff)
qed

lemma step_keeps_scheduled:
  assumes "step s a = Some (Inr s')" and "schedules_batch s b i 0 = 1"
  shows "schedules_batch s' b i 0 = 1"
proof -
  from assms(1) obtain s1 where s1: "time_advance (step_update s a) = Some (Inr s1)"
    and s': "s' = step_finish s1" by (rule step_Inr_D)
  have "schedules_batch (step_update s a) b i 0 = 1"
  proof (cases "act_of s a b")
    case None
    with assms(2) step_update_schedule_inactive[OF None] show ?thesis by simp
  next
    case (Some x)
    obtain ope ma job where x: "x = (ope, ma, job)" by (cases x)
    from step_update_schedule_active(1)[OF Some[unfolded x]] assms(2) show ?thesis by simp
  qed
  with time_advance_kept[OF s1] s' show ?thesis by (simp add: kept_def)
qed

lemma reaches_keeps_scheduled:
  "reaches s s' \<Longrightarrow> schedules_batch s b i 0 = 1 \<Longrightarrow> schedules_batch s' b i 0 = 1"
proof (induction rule: reaches.induct)
  case reaches_start
  then show ?case .
next
  case (reaches_step s1 actions s2)
  then show ?case by (auto intro: step_keeps_scheduled)
next
  case (reaches_next_time s1 flag s2)
  with next_time_kept[OF reaches_next_time(2)] show ?case by (simp add: kept_def)
qed

lemma step_chosen_machine:
  assumes "step s a = Some (Inr s')" and "act_of s a b = Some (ope, ma, job)"
  shows "schedules_batch s' b ope 0 = 1" and "chosen_machine s' b ope = ma"
proof -
  from assms(1) obtain s1 where s1: "time_advance (step_update s a) = Some (Inr s1)"
    and s': "s' = step_finish s1" by (rule step_Inr_D)
  from time_advance_kept[OF s1] s' step_update_schedule_active[OF assms(2)]
  show "schedules_batch s' b ope 0 = 1" and "chosen_machine s' b ope = ma"
    by (simp_all add: kept_def chosen_machine_def)
qed

text \<open>
  C8.  In every environment that calls of \<open>step\<close> and \<open>next_time\<close> make of a freshly
  constructed one, an operation whose status is scheduled has an adjacency row with
  exactly one non-zero entry, at the machine the schedule names for it, and processing
  time 0 at every other machine of the row; the same holds in every later environment
  of the run; and the machine the schedule names after a \<open>step\<close> is the machine of the
  decision.
\<close>

theorem scheduled_row_pruned:
  assumes "init bs nj nm n ld = Inr s0" and "reaches s0 s" and "schedules_batch s b i 0 = 1"
  shows "pruned_row s b i (chosen_machine s b i)
    \<and> (\<forall>s'. reaches s s' \<longrightarrow>
          schedules_batch s' b i 0 = 1 \<and> pruned_row s' b i (chosen_machine s' b i))
    \<and> (\<forall>actions s' ope ma job. step s actions = Some (Inr s') \<longrightarrow>
          act_of s actions b = Some (ope, ma, job) \<longrightarrow>
          schedules_batch s' b ope 0 = 1 \<and> chosen_machine s' b ope = ma)"
proof (intro conjI allI impI)
  have rp: "rows_pruned s"
    by (rule rows_pruned_reaches[OF assms(2) rows_pruned_init[OF assms(1)]])
  from rows_pruned_D(1)[OF rp assms(3)] show "pruned_row s b i (chosen_machine s b i)" .
  fix s'
  assume r: "reaches s s'"
  from reaches_keeps_scheduled[OF r assms(3)] show sch: "schedules_batch s' b i 0 = 1" .
  from rows_pruned_reaches[OF r rp] have "rows_pruned s'" .
  from rows_pruned_D(1)[OF this sch] show "pruned_row s' b i (chosen_machine s' b i)" .
next
  fix actions s' ope ma job
  assume "step s actions = Some (Inr s')" and "act_of s actions b = Some (ope, ma, job)"
  then show "schedules_batch s' b ope 0 = 1" and "chosen_machine s' b ope = ma"
    by (rule step_chosen_machine)+
qed


lemma act_of_b0: "act_of env_b [(0, 0, 0)] 0 = Some (0, 0, 0)"
  by (simp add: act_of_def env_b_simps upt_0_1)

lemma step_b1: "step env_b [(0, 0, 0)] = Some (Inr env_b1)"
  unfolding env_b1_def by (rule step_b_legal)

section \<open>The fields after construction and after the update of a step\<close>

lemma init_feat:
  assumes "init bs nj nm n ld = Inr s"
  shows "feat_opes_batch s b 0 i = 0"
    "feat_opes_batch s b 1 i = real (count_nonzero (ld_ope_ma_adj ld b i) nm)"
    "feat_opes_batch s b 2 i
       = tsum (ld_proc_times ld b i) nm / (real (count_nonzero (ld_ope_ma_adj ld b i) nm) + 1 / 10 ^ 9)"
    "feat_opes_batch s b 3 i = real (ld_nums_ope ld b (ld_opes_appertain ld b i))"
    "feat_opes_batch s b 5 i = tsum (\<lambda>k. feat_opes_batch s b 2 k * ld_cal_cumul_adj ld b k i) n"
    "feat_opes_batch s b 4 i
       = feat_opes_batch s b 5 (end_ope_biases_batch s b (ld_opes_appertain ld b i))
         + feat_opes_batch s b 2 (end_ope_biases_batch s b (ld_opes_appertain ld b i))"
  using assms
  by (auto simp: init_def Let_def convert_feat_job_2_ope_def split: if_splits)

lemma step_update_feat:
  assumes "act_of s a b = Some (ope, ma, job)"
  shows "feat_opes_batch (step_update s a) b 0 i = (if i = ope then 1 else feat_opes_batch s b 0 i)"
    "feat_opes_batch (step_update s a) b 1 i = (if i = ope then 1 else feat_opes_batch s b 1 i)"
    "feat_opes_batch (step_update s a) b 2 i
       = (if i = ope then proc_times_batch s b ope ma else feat_opes_batch s b 2 i)"
    "feat_opes_batch (step_update s a) b 3 i
       = (if num_ope_biases_batch s b job \<le> i \<and> i < end_ope_biases_batch s b job + 1 \<and> i < num_opes s
          then feat_opes_batch s b 3 i - 1 else feat_opes_batch s b 3 i)"
  using assms by (simp_all add: step_update_def Let_def)

lemma step_update_feat5:
  assumes "act_of s a b = Some (ope, ma, job)"
  shows "feat_opes_batch (step_update s a) b 5 i
       = (if i = ope then time s b else feat_opes_batch s b 5 i) * feat_opes_batch (step_update s a) b 0 i
         + tsum (\<lambda>k. ((if k = ope then time s b else feat_opes_batch s b 5 k)
                          * feat_opes_batch (step_update s a) b 0 k
                        + feat_opes_batch (step_update s a) b 2 k)
                      * cal_cumul_adj_batch (step_update s a) b k i) (num_opes s)
           * (1 - feat_opes_batch (step_update s a) b 0 i)"
  using assms by (simp add: step_update_def Let_def cong: if_cong)

lemma step_update_feat4:
  assumes "act_of s a b = Some (ope, ma, job)"
  shows "feat_opes_batch (step_update s a) b 4 i
       = feat_opes_batch (step_update s a) b 5 (end_ope_biases_batch s b (opes_appertain_batch s b i))
         + feat_opes_batch (step_update s a) b 2 (end_ope_biases_batch s b (opes_appertain_batch s b i))"
  using assms by (simp add: step_update_def Let_def convert_feat_job_2_ope_def)

lemma step_update_cumul:
  assumes "act_of s a b = Some (ope, ma, job)"
  shows "cal_cumul_adj_batch (step_update s a) b i k
       = (if i = (if int ope - 1 < int (num_ope_biases_batch s b job) then num_opes s - 1 else ope - 1)
          then 0 else cal_cumul_adj_batch s b i k)"
  using assms by (simp add: step_update_def Let_def)

lemma step_update_times:
  assumes "act_of s a b = Some (ope, ma, job)"
  shows "schedules_batch (step_update s a) b i 2 = feat_opes_batch (step_update s a) b 5 i"
    "schedules_batch (step_update s a) b i 3
       = feat_opes_batch (step_update s a) b 5 i + feat_opes_batch (step_update s a) b 2 i"
  using assms by (simp_all add: step_update_def Let_def)

lemma step_update_machines:
  assumes "act_of s a b = Some (ope, ma, job)"
  shows "machines_batch (step_update s a) b m 0 = (if m = ma then 0 else machines_batch s b m 0)"
    "machines_batch (step_update s a) b m 1
       = (if m = ma then time s b + proc_times_batch s b ope ma else machines_batch s b m 1)"
    "machines_batch (step_update s a) b m 2
       = (if m = ma then machines_batch s b m 2 + proc_times_batch s b ope ma
          else machines_batch s b m 2)"
    "machines_batch (step_update s a) b m 3 = (if m = ma then real job else machines_batch s b m 3)"
  using assms by (simp_all add: step_update_def Let_def)

lemma step_update_masks:
  assumes "act_of s a b = Some (ope, ma, job)"
  shows "ope_step_batch (step_update s a) b j
       = (if j = job then ope_step_batch s b j + 1 else ope_step_batch s b j)"
    "mask_job_procing_batch (step_update s a) b j = (j = job \<or> mask_job_procing_batch s b j)"
    "mask_ma_procing_batch (step_update s a) b m = (m = ma \<or> mask_ma_procing_batch s b m)"
  using assms by (simp_all add: step_update_def Let_def)

lemma step_update_feat_mas:
  assumes "act_of s a b = Some (ope, ma, job)"
  shows "feat_mas_batch (step_update s a) b 2 m
       = min (machines_batch (step_update s a) b m 2) (time s b) / (time s b + 1 / 10 ^ 9)"
  using assms by (simp add: step_update_def Let_def)

lemma step_update_finish:
  "mask_job_finish_batch (step_update s a) b j
     = (ope_step_batch (step_update s a) b j = end_ope_biases_batch s b j + 1
        \<or> mask_job_finish_batch s b j)"
  "done_batch (step_update s a) b = tall (mask_job_finish_batch (step_update s a) b) (num_jobs s)"
  by (simp_all add: step_update_def Let_def)

lemma step_update_inactive:
  assumes "act_of s a b = None"
  shows "feat_opes_batch (step_update s a) b = feat_opes_batch s b"
    "cal_cumul_adj_batch (step_update s a) b = cal_cumul_adj_batch s b"
    "machines_batch (step_update s a) b = machines_batch s b"
    "feat_mas_batch (step_update s a) b = feat_mas_batch s b"
    "ope_step_batch (step_update s a) b = ope_step_batch s b"
    "mask_job_procing_batch (step_update s a) b = mask_job_procing_batch s b"
    "mask_ma_procing_batch (step_update s a) b = mask_ma_procing_batch s b"
  using assms by (simp_all add: step_update_def Let_def fun_eq_iff)

section \<open>Reductions over one or two entries\<close>

lemma tsum_2: "tsum f 2 = f 0 + f (Suc 0)"
  by (simp add: numeral_2_eq_2)

lemma count_nonzero_2:
  "count_nonzero f 2 = (if f 0 \<noteq> 0 then 1 else 0) + (if f (Suc 0) \<noteq> 0 then 1 else 0)"
  by (simp add: numeral_2_eq_2)

lemma tmax_1: "tmax f (Suc 0) = f 0"
  by simp

lemma tmax_2: "tmax f 2 = max (f 0) (f (Suc 0))"
  by (simp add: numeral_2_eq_2)

lemma tmin_2: "tmin f 2 = min (f 0) (f (Suc 0))"
  by (simp add: numeral_2_eq_2)

lemma all_less_1: "(\<forall>i<Suc 0. P i) \<longleftrightarrow> P 0"
  by simp

lemma all_less_2: "(\<forall>i<2. P i) \<longleftrightarrow> P 0 \<and> P (Suc 0)"
  by (auto simp: numeral_2_eq_2 less_Suc_eq)

lemma ex_less_2: "(\<exists>i<2. P i) \<longleftrightarrow> P 0 \<or> P (Suc 0)"
  by (auto simp: numeral_2_eq_2 less_Suc_eq)

lemma step_update_machines_1:
  assumes "act_of s a b = Some (ope, ma, job)"
  shows "machines_batch (step_update s a) b m (Suc 0)
       = (if m = ma then time s b + proc_times_batch s b ope ma else machines_batch s b m (Suc 0))"
  using step_update_machines(2)[OF assms] by simp

lemma next_clock_Suc:
  "next_clock s b =
     tmin (\<lambda>m. if machines_batch s b m (Suc 0) > time s b then machines_batch s b m (Suc 0)
                else max_feat s + 1) (num_mas s)"
  by (simp add: next_clock_def cong: if_cong)

lemma freed_Suc:
  "freed flag s b m \<longleftrightarrow>
     machines_batch s b m (Suc 0) = next_clock s b \<and> machines_batch s b m 0 = 0
     \<and> flag_need_trans flag s b"
  by (simp add: freed_def)


section \<open>The fields after a call of next_time\<close>

lemma next_time_Inr_iff:
  "next_time flag s = Inr s' \<longleftrightarrow> next_time_check flag s = None \<and> s' = next_time_update flag s"
  by (auto simp: next_time_def split: option.splits)

lemma next_time_update_fields:
  "time (next_time_update flag s) b = (if flag_need_trans flag s b then next_clock s b else time s b)"
  "machines_batch (next_time_update flag s) b m k
     = (if freed flag s b m \<and> k = 0 then 1 else machines_batch s b m k)"
  "mask_ma_procing_batch (next_time_update flag s) b m
     = (\<not> freed flag s b m \<and> mask_ma_procing_batch s b m)"
  "mask_job_procing_batch (next_time_update flag s) b j
     = (\<not> tany (\<lambda>m. freed_jobs flag s b m \<ge> 0
                    \<and> py_index (trunc (freed_jobs flag s b m)) (num_jobs s) = Some j) (num_mas s)
        \<and> mask_job_procing_batch s b j)"
  "mask_job_finish_batch (next_time_update flag s) b j
     = (ope_step_batch s b j = end_ope_biases_batch s b j + 1 \<or> mask_job_finish_batch s b j)"
  "feat_mas_batch (next_time_update flag s) b 2 m
     = min (machines_batch (next_time_update flag s) b m 2) (time (next_time_update flag s) b)
       / (time (next_time_update flag s) b + 1 / 10 ^ 5)"
  by (simp_all add: next_time_update_def Let_def)

lemma next_time_check_None:
  assumes "num_mas s \<noteq> 0" "num_opes s \<noteq> 0" "batch_size s \<noteq> 0"
    and "\<And>b m. b < batch_size s \<Longrightarrow> m < num_mas s \<Longrightarrow> freed flag s b m \<Longrightarrow>
          0 \<le> machines_batch s b m 3 \<Longrightarrow>
          py_index (trunc (machines_batch s b m 3)) (num_jobs s) \<noteq> None"
  shows "next_time_check flag s = None"
  using assms by (auto simp: next_time_check_def tany_iff freed_jobs_def)

section \<open>The utilisation feature\<close>

lemma util_is_next_time:
  assumes "next_time flag s = Inr s'"
  shows "util_is (1 / 10 ^ 5) s' b"
  using assms next_time_update_fields(6)[of flag s b]
  by (simp add: next_time_Inr_iff util_is_def utilization_def tall_iff)

lemma util_is_step_update:
  assumes "act_of s a b = Some x"
  shows "util_is (1 / 10 ^ 9) (step_update s a) b"
proof -
  obtain ope ma job where "x = (ope, ma, job)" by (cases x)
  with assms step_update_feat_mas show ?thesis
    by (simp add: util_is_def utilization_def tall_iff)
qed

lemma util_is_time_advance:
  assumes "time_advance s = Some (Inr s')"
    and "util_is (1 / 10 ^ 9) s b \<or> util_is (1 / 10 ^ 5) s b"
  shows "util_is (1 / 10 ^ 9) s' b \<or> util_is (1 / 10 ^ 5) s' b"
  using assms
proof (induction rule: time_advance_induct)
  case (stop s flag)
  then show ?case by simp
next
  case (trans s flag s1 s')
  from util_is_next_time[OF trans(3)] trans(5) show ?case by simp
qed

lemma utilization_zero_clock:
  assumes "0 < eps" and "time s b = 0" and "0 \<le> machines_batch s b m 2"
  shows "utilization eps s b m = 0"
  using assms by (simp add: utilization_def)

text \<open>
  In exact arithmetic: the divisor of the utilisation feature is the clock plus
  a small constant.  After every call of \<open>next_time\<close> the feature of every machine is
  min(busy time, clock) / (clock + 1e-5), for every instance; after a call of \<open>step\<close>
  it is, for an instance that had a decision, that value or, when the call advanced
  no clock, min(busy time, clock) / (clock + 1e-9), with the clock and the busy time
  read after the call.  Either value is 0 when the clock is 0 and the busy time is
  not negative.
\<close>

theorem utilization_feature:
  "(next_time flag s = Inr s' \<longrightarrow> util_is (1 / 10 ^ 5) s' b)
   \<and> (step t actions = Some (Inr t') \<longrightarrow> act_of t actions b \<noteq> None \<longrightarrow>
        util_is (1 / 10 ^ 9) t' b \<or> util_is (1 / 10 ^ 5) t' b)
   \<and> (0 < eps \<longrightarrow> time u b = 0 \<longrightarrow> 0 \<le> machines_batch u b m 2 \<longrightarrow> utilization eps u b m = 0)"
proof (intro conjI impI)
  assume "next_time flag s = Inr s'"
  then show "util_is (1 / 10 ^ 5) s' b" by (rule util_is_next_time)
next
  assume st: "step t actions = Some (Inr t')" and act: "act_of t actions b \<noteq> None"
  from st obtain t1 where t1: "time_advance (step_update t actions) = Some (Inr t1)"
    and t': "t' = step_finish t1" by (rule step_Inr_D)
  from act obtain x where "act_of t actions b = Some x" by auto
  from util_is_time_advance[OF t1 disjI1[OF util_is_step_update[OF this]]] t'
  show "util_is (1 / 10 ^ 9) t' b \<or> util_is (1 / 10 ^ 5) t' b"
    by (simp add: util_is_def utilization_def)
next
  assume "0 < eps" "time u b = 0" "0 \<le> machines_batch u b m 2"
  then show "utilization eps u b m = 0" by (rule utilization_zero_clock)
qed

section \<open>The first step on the instance ld_a\<close>

lemma act_of_a: "act_of env_a [(0, 0, 0)] 0 = Some (0, 0, 0)"
  by (simp add: act_of_def env_a_static upt_0_1)

lemma step_check_a: "step_check env_a [(0, 0, 0)] = None"
  by (simp add: step_check_def env_a_simps env_a_static tall_iff ld_a_def upt_0_1)

lemma env_a_feat:
  "feat_opes_batch env_a 0 0 i = 0"
  "feat_opes_batch env_a 0 2 (Suc 0) = 6 / (2 + 1 / 10 ^ 9)"
  by (simp_all add: init_feat[OF init_a] ld_a_def tsum_2 count_nonzero_2)

lemma env_a1_dims:
  "batch_size env_a1 = Suc 0" "num_jobs env_a1 = Suc 0" "num_mas env_a1 = 2" "num_opes env_a1 = 2"
  "time env_a1 = (\<lambda>b. 0)" "end_ope_biases_batch env_a1 0 0 = Suc 0"
  by (simp_all add: env_a1_def env_a_simps env_a_static ld_a_def)

lemma env_a1_masks:
  "mask_ma_procing_batch env_a1 0 m = (m = 0)"
  "mask_job_procing_batch env_a1 0 0"
  "\<not> mask_job_finish_batch env_a1 0 0"
  "ope_step_batch env_a1 0 0 = Suc 0"
  "\<not> done_batch env_a1 0"
  by (simp_all add: env_a1_def step_update_masks[OF act_of_a] step_update_finish
      env_a_simps env_a_static ld_a_def tall_iff)

lemma env_a1_machines:
  "machines_batch env_a1 0 m 0 = (if m = 0 then 0 else 1)"
  "machines_batch env_a1 0 m (Suc 0) = (if m = 0 then 3 else 0)"
  "machines_batch env_a1 0 m 2 = (if m = 0 then 3 else 0)"
  "machines_batch env_a1 0 m 3 = 0"
  by (simp_all add: env_a1_def step_update_machines[OF act_of_a] step_update_machines_1[OF act_of_a]
      env_a_simps env_a_static ld_a_def)

lemma env_a1_proc:
  "proc_times_batch env_a1 0 (Suc 0) 0 = 2" "proc_times_batch env_a1 0 (Suc 0) (Suc 0) = 4"
  by (simp_all add: env_a1_def step_update_proc_times step_update_schedule_active[OF act_of_a]
      env_a_static ld_a_def)

lemma env_a1_feat4: "feat_opes_batch env_a1 0 4 i = 3 + 6 / (2 + 1 / 10 ^ 9)"
  by (simp add: env_a1_def step_update_feat4[OF act_of_a] step_update_feat5[OF act_of_a]
      step_update_feat[OF act_of_a] step_update_cumul[OF act_of_a]
      env_a_simps env_a_static env_a_feat ld_a_def tsum_2)

lemma flag_a1: "if_no_eligible env_a1 = Inr flag_a1" "flag_a1 0 = 0"
proof -
  have "\<exists>f. if_no_eligible env_a1 = Inr f \<and> f 0 = 0"
    by (simp add: if_no_eligible_def Let_def env_a1_dims env_a1_masks tall_iff tsum_2)
  then show "if_no_eligible env_a1 = Inr flag_a1" "flag_a1 0 = 0"
    by (auto simp: flag_a1_def)
qed

lemma max_feat_a1: "max_feat env_a1 = 3 + 6 / (2 + 1 / 10 ^ 9)"
  by (simp add: max_feat_def env_a1_dims env_a1_feat4 tmax_2)

lemma next_clock_a1: "next_clock env_a1 0 = 3"
  by (simp add: next_clock_Suc env_a1_dims env_a1_machines max_feat_a1 tmin_2)

lemma freed_a1: "freed flag_a1 env_a1 0 m = (m = 0)"
  by (simp add: freed_Suc flag_need_trans_def flag_a1 env_a1_masks env_a1_machines next_clock_a1)

lemma next_time_a1: "next_time flag_a1 env_a1 = Inr env_a2"
proof -
  have "next_time_check flag_a1 env_a1 = None"
    by (rule next_time_check_None)
      (simp_all add: env_a1_dims env_a1_machines py_index_def trunc_def)
  then show ?thesis by (simp add: next_time_def env_a2_def)
qed

lemma env_a2_eq: "env_a2 = next_time_update flag_a1 env_a1"
  using next_time_a1 by (simp add: next_time_Inr_iff)

lemma kept_a2: "kept env_a1 env_a2"
  by (rule next_time_kept[OF next_time_a1])

lemma env_a2_fields:
  "time env_a2 0 = 3"
  "machines_batch env_a2 0 m 2 = (if m = 0 then 3 else 0)"
  "mask_ma_procing_batch env_a2 0 m = False"
  "mask_job_procing_batch env_a2 0 0 = False"
  "mask_job_finish_batch env_a2 0 0 = False"
  "feat_mas_batch env_a2 0 2 0 = 3 / (3 + 1 / 10 ^ 5)"
  by (auto simp: env_a2_eq next_time_update_fields freed_a1 freed_jobs_def flag_need_trans_def
      flag_a1 env_a1_masks env_a1_machines env_a1_dims next_clock_a1 tany_iff py_index_def
      trunc_def ex_less_2)

lemma flag_a2: "\<exists>f. if_no_eligible env_a2 = Inr f \<and> f 0 = 6"
  using kept_a2
  by (simp add: if_no_eligible_def Let_def kept_def env_a1_dims env_a1_masks env_a1_proc
      env_a2_fields tall_iff tsum_2)

lemma time_advance_a1: "time_advance env_a1 = Some (Inr env_a2)"
proof -
  from flag_a2 obtain f where f: "if_no_eligible env_a2 = Inr f" "f 0 = 6" by blast
  from f(2) kept_a2 have "\<not> need_trans env_a2 f"
    by (simp add: need_trans_def tany_iff kept_def env_a1_dims)
  with f(1) have 2: "time_advance env_a2 = Some (Inr env_a2)"
    by (subst time_advance.simps) simp
  have "need_trans env_a1 flag_a1"
    by (simp add: need_trans_def tany_iff env_a1_dims flag_a1 env_a1_masks)
  with flag_a1(1) next_time_a1 2 show ?thesis
    by (subst time_advance.simps) simp
qed

lemma step_a: "step env_a [(0, 0, 0)] = Some (Inr env_a3)"
  using step_check_a time_advance_a1 by (simp add: step_def env_a1_def env_a3_def)

text \<open>On \<open>ld_a\<close> the first \<open>step\<close> moves the clock to 3, where machine 0 has been busy
  for 3: the feature is 3 / 3.00001, not 3 / 3.\<close>

theorem utilization_not_busy_over_clock:
  "step env_a [(0, 0, 0)] = Some (Inr env_a3) \<and> 0 < time env_a3 0
   \<and> feat_mas_batch env_a3 0 2 0 \<noteq> min (machines_batch env_a3 0 0 2) (time env_a3 0) / time env_a3 0"
  using step_a by (simp add: env_a3_def env_a2_fields)

theorem utilization_feature_witness:
  "next_time flag_a1 env_a1 = Inr env_a2 \<and> util_is (1 / 10 ^ 5) env_a2 0
   \<and> step env_a [(0, 0, 0)] = Some (Inr env_a3)
   \<and> (util_is (1 / 10 ^ 9) env_a3 0 \<or> util_is (1 / 10 ^ 5) env_a3 0)
   \<and> time env_a 0 = 0 \<and> utilization (1 / 10 ^ 9) env_a 0 0 = 0"
proof -
  have a: "act_of env_a [(0, 0, 0)] 0 \<noteq> None" by (simp add: act_of_a)
  have z: "time env_a 0 = 0" "0 \<le> machines_batch env_a 0 0 2" "(0::real) < 1 / 10 ^ 9"
    by (simp_all add: env_a_simps)
  from utilization_feature[of flag_a1 env_a1 env_a2 0 env_a "[(0, 0, 0)]" env_a3 "1 / 10 ^ 9" env_a 0]
    next_time_a1 step_a a z
  show ?thesis by simp
qed

section \<open>Static facts of a well-formed instance\<close>

lemma sum_upt_Suc: "sum_list (map f [0..<Suc k]) = sum_list (map f [0..<k]) + (f k :: nat)"
  by simp

lemma tiling:
  fixes f :: "nat \<Rightarrow> nat"
  assumes "\<And>j. j < k \<Longrightarrow> 0 < f j"
  shows "i < sum_list (map f [0..<k])
    \<longleftrightarrow> (\<exists>j<k. sum_list (map f [0..<j]) \<le> i \<and> i < sum_list (map f [0..<j]) + f j)"
  using assms
proof (induction k)
  case 0
  then show ?case by simp
next
  case (Suc k)
  have IH: "i < sum_list (map f [0..<k])
    \<longleftrightarrow> (\<exists>j<k. sum_list (map f [0..<j]) \<le> i \<and> i < sum_list (map f [0..<j]) + f j)"
    using Suc by simp
  show ?case
  proof
    assume "i < sum_list (map f [0..<Suc k])"
    then have "i < sum_list (map f [0..<k]) \<or> (sum_list (map f [0..<k]) \<le> i \<and> i < sum_list (map f [0..<k]) + f k)"
      by auto
    with IH show "\<exists>j<Suc k. sum_list (map f [0..<j]) \<le> i \<and> i < sum_list (map f [0..<j]) + f j"
      using less_Suc_eq by blast
  next
    assume "\<exists>j<Suc k. sum_list (map f [0..<j]) \<le> i \<and> i < sum_list (map f [0..<j]) + f j"
    then obtain j where j: "j < Suc k" "sum_list (map f [0..<j]) \<le> i" "i < sum_list (map f [0..<j]) + f j"
      by blast
    show "i < sum_list (map f [0..<Suc k])"
    proof (cases "j = k")
      case True
      with j show ?thesis by simp
    next
      case False
      with j have "j < k" by simp
      with j IH have "i < sum_list (map f [0..<k])" by blast
      then show ?thesis by simp
    qed
  qed
qed

lemma wf_bias_sum:
  assumes "wf_instance nj nm n ld b" and "j < nj"
  shows "ld_num_ope_biases ld b j = sum_list (map (ld_nums_ope ld b) [0..<j])"
  using assms(2)
proof (induction j)
  case 0
  with assms(1) show ?case by (simp add: wf_instance_def)
next
  case (Suc j)
  then have "j < nj" and "Suc j < nj" by simp_all
  with assms(1) have "ld_num_ope_biases ld b (Suc j) = ld_num_ope_biases ld b j + ld_nums_ope ld b j"
    unfolding wf_instance_def tall_iff by (metis (no_types, lifting))
  with Suc show ?case by simp
qed


lemma init_checks:
  assumes "init bs nj nm n ld = Inr s" and "b < bs"
  shows "\<And>i. i < n \<Longrightarrow> ld_opes_appertain ld b i < nj"
    and "\<And>j. j < nj \<Longrightarrow> ld_num_ope_biases ld b j + ld_nums_ope ld b j - 1 < n"
proof -
  from assms(1) have a: "tall (\<lambda>b. tall (\<lambda>i. ld_opes_appertain ld b i < nj) n) bs"
    and e: "tall (\<lambda>b. tall (\<lambda>j. 0 \<le> int (ld_num_ope_biases ld b j) + int (ld_nums_ope ld b j) - 1
                    \<and> int (ld_num_ope_biases ld b j) + int (ld_nums_ope ld b j) - 1 < int n) nj) bs"
    by (simp_all add: init_def Let_def split: if_splits)
  from a assms(2) show "\<And>i. i < n \<Longrightarrow> ld_opes_appertain ld b i < nj"
    by (simp add: tall_iff)
  fix j assume "j < nj"
  with e assms(2) have "0 \<le> int (ld_num_ope_biases ld b j) + int (ld_nums_ope ld b j) - 1"
    and "int (ld_num_ope_biases ld b j) + int (ld_nums_ope ld b j) - 1 < int n"
    by (simp_all add: tall_iff)
  then show "ld_num_ope_biases ld b j + ld_nums_ope ld b j - 1 < n" by arith
qed

lemma init_static_ok:
  assumes wf: "wf_load bs nj nm n ld" and init: "init bs nj nm n ld = Inr s" and b: "b < bs"
  shows "static_ok s b"
proof -
  let ?B = "ld_num_ope_biases ld b" and ?f = "ld_nums_ope ld b"
  let ?S = "\<lambda>k. sum_list (map ?f [0..<k])"
  from wf b have nj: "0 < nj" and wi: "wf_instance nj nm n ld b"
    by (simp_all add: wf_load_def tall_iff)
  note d = init_dims[OF init] and st = init_static[OF init] and sv = init_saved[OF init]
  from wi have w1: "\<forall>j<nj. 0 < ?f j
        \<and> (if Suc j < nj then ?B (Suc j) = ?B j + ?f j else ?B j + ?f j \<le> n)"
    and w2: "\<forall>j<nj. \<forall>i<n. i < ?B j \<or> ?B j + ?f j \<le> i \<or> ld_opes_appertain ld b i = j"
    and w3: "\<forall>i<n. \<forall>m<nm. 0 \<le> ld_proc_times ld b i m
        \<and> ld_ope_ma_adj ld b i m = (if 0 < ld_proc_times ld b i m then 1 else 0)"
    and w4: "\<forall>i<?S nj. \<exists>m<nm. 0 < ld_proc_times ld b i m"
    and w5: "\<forall>k<n. \<forall>i<n. ld_cal_cumul_adj ld b k i
        = (if \<exists>j<nj. ?B j \<le> k \<and> k < i \<and> i < ?B j + ?f j then 1 else 0)"
    unfolding wf_instance_def tall_iff tany_iff by blast+
  from w1 have pos: "\<And>j. j < nj \<Longrightarrow> 0 < ?f j" by blast
  from w1 have last: "\<And>j. j < nj \<Longrightarrow> \<not> Suc j < nj \<Longrightarrow> ?B j + ?f j \<le> n"
    by (metis (no_types, lifting))
  from w2 have app: "\<And>j i. j < nj \<Longrightarrow> i < n \<Longrightarrow> ?B j \<le> i \<Longrightarrow> i < ?B j + ?f j
                \<Longrightarrow> ld_opes_appertain ld b i = j"
    by (meson not_less)
  from w3 have proc: "\<And>i m. i < n \<Longrightarrow> m < nm \<Longrightarrow> 0 \<le> ld_proc_times ld b i m
                \<and> ld_ope_ma_adj ld b i m = (if 0 < ld_proc_times ld b i m then 1 else 0)"
    by blast
  from w4 have elig: "\<And>i. i < ?S nj \<Longrightarrow> \<exists>m<nm. 0 < ld_proc_times ld b i m" by blast
  from w5 have cum: "\<And>k i. k < n \<Longrightarrow> i < n \<Longrightarrow> ld_cal_cumul_adj ld b k i
                = (if \<exists>j<nj. ?B j \<le> k \<and> k < i \<and> i < ?B j + ?f j then 1 else 0)"
    by blast
  have bias: "\<And>j. j < nj \<Longrightarrow> ?B j = ?S j"
    by (rule wf_bias_sum[OF wi])
  have endlt: "\<And>j. j < nj \<Longrightarrow> ?B j + ?f j - 1 < n"
    by (rule init_checks(2)[OF init b])
  have inj: "\<And>j i. in_job s b j i \<longleftrightarrow> j < nj \<and> ?B j \<le> i \<and> i < ?B j + ?f j"
    using pos by (auto simp: in_job_def d st) force+
  have total: "?S nj \<le> n"
  proof -
    from nj obtain k where k: "nj = Suc k" by (cases nj) auto
    then have "k < nj" "\<not> Suc k < nj" by simp_all
    from last[OF this] bias[OF \<open>k < nj\<close>] k show ?thesis by simp
  qed
  have tile: "\<And>i. i < ?S nj \<longleftrightarrow> (\<exists>j. in_job s b j i)"
    unfolding inj using tiling[of nj ?f] pos bias by auto
  have nm: "0 < nm"
  proof -
    have "\<exists>j<nj. ?S j \<le> 0 \<and> 0 < ?S j + ?f j"
      using pos[OF nj] nj by (intro exI[of _ 0]) simp
    then have "0 < ?S nj"
      using tiling[of nj ?f 0] pos by blast
    from elig[OF this] show ?thesis by auto
  qed
  show ?thesis
    unfolding static_ok_def
  proof (intro conjI allI impI)
    show "0 < num_jobs s" "0 < num_mas s" "0 < num_opes s" "b < batch_size s"
      using nj nm d b by simp_all
    show "nums_opes s b \<le> num_opes s" using total by (simp add: d st)
  next
    fix j assume "j < num_jobs s"
    then have j: "j < nj" by (simp add: d)
    from pos[OF j] endlt[OF j]
    show "num_ope_biases_batch s b j \<le> end_ope_biases_batch s b j"
      "end_ope_biases_batch s b j < num_opes s"
      "nums_ope_batch s b j = end_ope_biases_batch s b j + 1 - num_ope_biases_batch s b j"
      by (simp_all add: d st)
  next
    fix j i assume ij: "in_job s b j i"
    then have "j < nj" "?B j \<le> i" "i < ?B j + ?f j" by (simp_all add: inj)
    moreover with endlt[of j] have "i < n" by simp
    ultimately show "opes_appertain_batch s b i = j" using app by (simp add: st)
  next
    fix i assume "i < num_opes s"
    then show "opes_appertain_batch s b i < num_jobs s"
      using init_checks(1)[OF init b, of i] by (simp add: d st)
  next
    fix i show "i < nums_opes s b \<longleftrightarrow> (\<exists>j. in_job s b j i)"
      using tile[of i] by (simp add: st)
  next
    fix i m assume "i < num_opes s" "m < num_mas s"
    then show "0 \<le> old_proc_times_batch s b i m"
      "old_ope_ma_adj_batch s b i m = (if 0 < old_proc_times_batch s b i m then 1 else 0)"
      using proc[of i m] by (simp_all add: d st sv)
  next
    fix i assume "i < nums_opes s b"
    then show "\<exists>m<num_mas s. 0 < old_proc_times_batch s b i m"
      using elig[of i] by (simp add: d st sv)
  next
    fix k i assume "k < num_opes s" "i < num_opes s"
    then have "old_cal_cumul_adj_batch s b k i
        = (if \<exists>j<nj. ?B j \<le> k \<and> k < i \<and> i < ?B j + ?f j then 1 else 0)"
      using cum[of k i] by (simp add: d st sv)
    moreover have "(\<exists>j<nj. ?B j \<le> k \<and> k < i \<and> i < ?B j + ?f j)
        \<longleftrightarrow> (\<exists>j. in_job s b j k \<and> in_job s b j i \<and> k < i)"
      unfolding inj by auto
    ultimately show "old_cal_cumul_adj_batch s b k i
        = (if \<exists>j. in_job s b j k \<and> in_job s b j i \<and> k < i then 1 else 0)"
      by simp
  qed
qed

section \<open>Bounds on the reductions\<close>

lemma max_to_ge: "i \<le> n \<Longrightarrow> f i \<le> max_to f n"
  by (induction n) (auto simp: le_Suc_eq max_def)

lemma tmax_ge: "i < n \<Longrightarrow> f i \<le> tmax f n"
  by (cases n) (auto intro: max_to_ge)

lemma min_to_le: "i \<le> n \<Longrightarrow> min_to f n \<le> f i"
  by (induction n) (auto simp: le_Suc_eq min_def)

lemma min_to_in: "\<exists>i\<le>n. min_to f n = f i"
  by (induction n) (auto simp: min_def le_Suc_eq)

lemma tmin_le: "i < n \<Longrightarrow> tmin f n \<le> f i"
  by (cases n) (auto intro: min_to_le)

lemma tmin_in: "0 < n \<Longrightarrow> \<exists>i<n. tmin f n = f i"
  using min_to_in[where f = f and n = "n - 1"] by (cases n) (auto simp: less_Suc_eq_le)

lemma tsum_nonneg: "(\<And>i. i < n \<Longrightarrow> 0 \<le> f i) \<Longrightarrow> 0 \<le> tsum f n"
  by (induction n) auto

lemma tsum_ge_term:
  assumes "\<And>i. i < n \<Longrightarrow> 0 \<le> f i" and "k < n"
  shows "f k \<le> tsum f n"
  using assms
proof (induction n)
  case 0
  then show ?case by simp
next
  case (Suc n)
  have nn: "0 \<le> tsum f n" by (rule tsum_nonneg) (simp add: Suc.prems)
  show ?case
  proof (cases "k = n")
    case True
    with nn show ?thesis by simp
  next
    case False
    with Suc.prems have "k < n" by simp
    with Suc have "f k \<le> tsum f n" by simp
    moreover have "0 \<le> f n" by (simp add: Suc.prems)
    ultimately show ?thesis by simp
  qed
qed

lemma tsum_cong: "(\<And>i. i < n \<Longrightarrow> f i = g i) \<Longrightarrow> tsum f n = tsum g n"
  by (induction n) auto

lemma tsum_zero: "(\<And>i. i < n \<Longrightarrow> f i = 0) \<Longrightarrow> tsum f n = 0"
  by (induction n) auto

lemma tsum_pos:
  assumes "\<And>i. i < n \<Longrightarrow> 0 \<le> f i" and "k < n" and "0 < f k"
  shows "0 < tsum f n"
proof -
  have "f k \<le> tsum f n"
    by (rule tsum_ge_term) (use assms in auto)
  with assms(3) show ?thesis by simp
qed

section \<open>The invariant after construction\<close>

lemma scheduled_init:
  assumes "ope_step_batch s b = num_ope_biases_batch s b"
  shows "\<not> scheduled s b i"
  using assms by (auto simp: scheduled_def in_job_def)

lemma init_inv:
  assumes wf: "wf_load bs nj nm n ld" and init: "init bs nj nm n ld = Inr s" and b: "b < bs"
  shows "inv s b"
proof -
  note so = init_static_ok[OF wf init b]
  note d = init_dims[OF init] and st = init_static[OF init] and sv = init_saved[OF init]
    and ft = init_feat[OF init]
  have os: "ope_step_batch s b = num_ope_biases_batch s b" by (simp add: st)
  note ns = scheduled_init[OF os]
  from so have nj: "0 < num_jobs s"
    and jr: "\<And>j. j < num_jobs s \<Longrightarrow> num_ope_biases_batch s b j \<le> end_ope_biases_batch s b j"
    and pr: "\<And>i m. i < num_opes s \<Longrightarrow> m < num_mas s \<Longrightarrow> 0 \<le> old_proc_times_batch s b i m
        \<and> old_ope_ma_adj_batch s b i m = (if 0 < old_proc_times_batch s b i m then 1 else 0)"
    and cu: "\<And>k i. k < num_opes s \<Longrightarrow> i < num_opes s \<Longrightarrow> old_cal_cumul_adj_batch s b k i
            = (if \<exists>j. in_job s b j k \<and> in_job s b j i \<and> k < i then 1 else 0)"
    unfolding static_ok_def by blast+
  have f2: "0 \<le> feat_opes_batch s b 2 i" if "i < num_opes s" for i
  proof -
    have "0 \<le> tsum (ld_proc_times ld b i) nm"
      using pr[OF that] by (intro tsum_nonneg) (simp add: d sv st)
    then show ?thesis by (simp add: ft)
  qed
  have f5: "0 \<le> feat_opes_batch s b 5 i" if "i < num_opes s" for i
  proof -
    have "0 \<le> tsum (\<lambda>k. feat_opes_batch s b 2 k * ld_cal_cumul_adj ld b k i) n"
    proof (rule tsum_nonneg)
      fix k assume "k < n"
      with cu[of k i] that have "0 \<le> ld_cal_cumul_adj ld b k i" by (simp add: d sv st)
      with f2[of k] \<open>k < n\<close> show "0 \<le> feat_opes_batch s b 2 k * ld_cal_cumul_adj ld b k i"
        by (simp add: d)
    qed
    then show ?thesis by (simp add: ft(5))
  qed
  have jr': "\<forall>j<num_jobs s. num_ope_biases_batch s b j \<le> end_ope_biases_batch s b j"
    using jr by blast
  have "inv_ptr s b"
    unfolding inv_ptr_def using ns jr' nj
    by (auto simp: os ft sv(7) d tall_iff)
  moreover have "inv_rows s b"
    unfolding inv_rows_def
  proof (intro conjI allI impI)
    fix i m assume im: "i < num_opes s" "m < num_mas s"
    from pr[OF im] show "proc_times_batch s b i m = old_proc_times_batch s b i m"
      "proc_times_batch s b i m * of_int (ope_ma_adj_batch s b i m) = proc_times_batch s b i m"
      "0 \<le> proc_times_batch s b i m"
      by (auto simp: sv[symmetric])
  qed
  moreover have "inv_sched s b"
    unfolding inv_sched_def using ns f2 by (auto simp: d os)
  moreover have "inv_run s b"
    unfolding inv_run_def using ns by (simp add: d)
  moreover have "inv_est s b"
    unfolding inv_est_def
  proof (intro conjI allI impI)
    fix k i assume "k < num_opes s" "i < num_opes s"
    then show "cal_cumul_adj_batch s b k i
        = (if \<exists>j. in_job s b j k \<and> in_job s b j i \<and> k < i \<and> ope_step_batch s b j \<le> Suc k
           then 1 else 0)"
      using cu[of k i] by (auto simp: sv[symmetric] os in_job_def)
  next
    fix i assume "i < num_opes s"
    show "feat_opes_batch s b 4 i
          = sched_end s b (end_ope_biases_batch s b (opes_appertain_batch s b i))"
      by (simp add: ft(6) sched_end_def st)
  next
    fix j assume "j < num_jobs s" "num_ope_biases_batch s b j < ope_step_batch s b j"
    then show "sched_end s b (ope_step_batch s b j - 1) \<le> sched_end s b (end_ope_biases_batch s b j)"
      by (simp add: os)
  next
    fix i assume "i < num_opes s"
    then show "0 \<le> feat_opes_batch s b 5 i" by (rule f5)
  qed
  ultimately show ?thesis using so by (simp add: inv_def)
qed

section \<open>Reading the invariant\<close>

lemma static_okD:
  assumes "static_ok s b"
  shows "0 < num_jobs s" "0 < num_mas s" "0 < num_opes s" "b < batch_size s"
    and "j < num_jobs s \<Longrightarrow> num_ope_biases_batch s b j \<le> end_ope_biases_batch s b j"
    and "j < num_jobs s \<Longrightarrow> end_ope_biases_batch s b j < num_opes s"
    and "j < num_jobs s \<Longrightarrow>
          nums_ope_batch s b j = end_ope_biases_batch s b j + 1 - num_ope_biases_batch s b j"
    and "in_job s b j i \<Longrightarrow> opes_appertain_batch s b i = j"
    and "i < num_opes s \<Longrightarrow> opes_appertain_batch s b i < num_jobs s"
    and "nums_opes s b \<le> num_opes s"
    and "i < nums_opes s b \<longleftrightarrow> (\<exists>j. in_job s b j i)"
    and "i < num_opes s \<Longrightarrow> m < num_mas s \<Longrightarrow> 0 \<le> old_proc_times_batch s b i m"
    and "i < nums_opes s b \<Longrightarrow> \<exists>m<num_mas s. 0 < old_proc_times_batch s b i m"
  using assms unfolding static_ok_def by blast+

lemma in_job_bounds:
  assumes "static_ok s b" and "in_job s b j i"
  shows "j < num_jobs s" "num_ope_biases_batch s b j \<le> i" "i \<le> end_ope_biases_batch s b j"
    "i < num_opes s"
  using assms(2) static_okD(6)[OF assms(1), of j] by (auto simp: in_job_def)

lemma in_job_unique:
  assumes "static_ok s b" and "in_job s b j i" and "in_job s b j' i"
  shows "j = j'"
  using static_okD(8)[OF assms(1)] assms(2,3) by metis

lemma inv_ptrD:
  assumes "inv_ptr s b"
  shows "j < num_jobs s \<Longrightarrow> num_ope_biases_batch s b j \<le> ope_step_batch s b j"
    and "j < num_jobs s \<Longrightarrow> ope_step_batch s b j \<le> end_ope_biases_batch s b j + 1"
    and "i < num_opes s \<Longrightarrow> feat_opes_batch s b 0 i = (if scheduled s b i then 1 else 0)"
    and "i < num_opes s \<Longrightarrow> schedules_batch s b i 0 = feat_opes_batch s b 0 i"
    and "j < num_jobs s \<Longrightarrow> mask_job_finish_batch s b j
            \<longleftrightarrow> ope_step_batch s b j = end_ope_biases_batch s b j + 1"
    and "done_batch s b \<longleftrightarrow> (\<forall>j<num_jobs s. mask_job_finish_batch s b j)"
  using assms unfolding inv_ptr_def by blast+

lemma inv_rowsD:
  assumes "inv_rows s b"
  shows "i < num_opes s \<Longrightarrow> \<not> scheduled s b i \<Longrightarrow> m < num_mas s \<Longrightarrow>
          proc_times_batch s b i m = old_proc_times_batch s b i m"
    and "i < num_opes s \<Longrightarrow> m < num_mas s \<Longrightarrow>
          proc_times_batch s b i m * of_int (ope_ma_adj_batch s b i m) = proc_times_batch s b i m"
    and "i < num_opes s \<Longrightarrow> m < num_mas s \<Longrightarrow> 0 \<le> proc_times_batch s b i m"
  using assms unfolding inv_rows_def by blast+

lemma inv_schedD:
  assumes "inv_sched s b"
  shows "0 \<le> time s b"
    and "i < num_opes s \<Longrightarrow> 0 \<le> feat_opes_batch s b 2 i"
    and "i < num_opes s \<Longrightarrow> scheduled s b i \<Longrightarrow>
          chosen_machine s b i < num_mas s
          \<and> schedules_batch s b i (Suc 0) = real (chosen_machine s b i)
          \<and> feat_opes_batch s b 2 i = proc_times_batch s b i (chosen_machine s b i)
          \<and> 0 < feat_opes_batch s b 2 i
          \<and> schedules_batch s b i 2 = feat_opes_batch s b 5 i
          \<and> schedules_batch s b i 3 = sched_end s b i
          \<and> 0 \<le> feat_opes_batch s b 5 i \<and> feat_opes_batch s b 5 i \<le> time s b"
    and "j < num_jobs s \<Longrightarrow> num_ope_biases_batch s b j \<le> i \<Longrightarrow> Suc i < ope_step_batch s b j \<Longrightarrow>
          sched_end s b i \<le> feat_opes_batch s b 5 (Suc i)"
    and "i < num_opes s \<Longrightarrow> k < num_opes s \<Longrightarrow> scheduled s b i \<Longrightarrow> scheduled s b k \<Longrightarrow>
          i \<noteq> k \<Longrightarrow> chosen_machine s b i = chosen_machine s b k \<Longrightarrow>
          sched_end s b i \<le> feat_opes_batch s b 5 k \<or> sched_end s b k \<le> feat_opes_batch s b 5 i"
  using assms unfolding inv_sched_def by blast+

lemma inv_runD:
  assumes "inv_run s b"
  shows "m < num_mas s \<Longrightarrow>
          machines_batch s b m 0 = (if mask_ma_procing_batch s b m then 0 else 1)"
    and "m < num_mas s \<Longrightarrow> mask_ma_procing_batch s b m \<Longrightarrow>
          time s b < machines_batch s b m (Suc 0)
          \<and> (\<exists>j<num_jobs s. machines_batch s b m 3 = real j \<and> mask_job_procing_batch s b j
                \<and> chosen_machine s b (ope_step_batch s b j - 1) = m)"
    and "m < num_mas s \<Longrightarrow> \<not> mask_ma_procing_batch s b m \<Longrightarrow>
          machines_batch s b m (Suc 0) \<le> time s b"
    and "j < num_jobs s \<Longrightarrow> mask_job_procing_batch s b j \<Longrightarrow>
          num_ope_biases_batch s b j < ope_step_batch s b j
          \<and> mask_ma_procing_batch s b (chosen_machine s b (ope_step_batch s b j - 1))
          \<and> machines_batch s b (chosen_machine s b (ope_step_batch s b j - 1)) 3 = real j
          \<and> machines_batch s b (chosen_machine s b (ope_step_batch s b j - 1)) (Suc 0)
              = sched_end s b (ope_step_batch s b j - 1)"
    and "i < num_opes s \<Longrightarrow> scheduled s b i \<Longrightarrow>
          sched_end s b i \<le> time s b
          \<or> (\<exists>j<num_jobs s. mask_job_procing_batch s b j \<and> i = ope_step_batch s b j - 1)"
  using assms unfolding inv_run_def by blast+

lemma inv_estD:
  assumes "inv_est s b"
  shows "k < num_opes s \<Longrightarrow> i < num_opes s \<Longrightarrow> cal_cumul_adj_batch s b k i
        = (if \<exists>j. in_job s b j k \<and> in_job s b j i \<and> k < i \<and> ope_step_batch s b j \<le> Suc k
           then 1 else 0)"
    and "i < num_opes s \<Longrightarrow> feat_opes_batch s b 4 i
          = sched_end s b (end_ope_biases_batch s b (opes_appertain_batch s b i))"
    and "j < num_jobs s \<Longrightarrow> num_ope_biases_batch s b j < ope_step_batch s b j \<Longrightarrow>
          sched_end s b (ope_step_batch s b j - 1) \<le> sched_end s b (end_ope_biases_batch s b j)"
    and "i < num_opes s \<Longrightarrow> 0 \<le> feat_opes_batch s b 5 i"
  using assms unfolding inv_est_def by blast+

lemma invD:
  assumes "inv s b"
  shows "static_ok s b" "inv_ptr s b" "inv_rows s b" "inv_sched s b" "inv_run s b" "inv_est s b"
  using assms by (simp_all add: inv_def)

text \<open>The last scheduled operation of a job that has one.\<close>

lemma latest_in_job:
  assumes "static_ok s b" and "inv_ptr s b" and "j < num_jobs s"
    and "num_ope_biases_batch s b j < ope_step_batch s b j"
  shows "in_job s b j (ope_step_batch s b j - 1)" "scheduled s b (ope_step_batch s b j - 1)"
    "ope_step_batch s b j - 1 < num_opes s"
proof -
  from inv_ptrD(2)[OF assms(2,3)] assms(3,4)
  show ij: "in_job s b j (ope_step_batch s b j - 1)"
    by (auto simp: in_job_def)
  with assms(4) show "scheduled s b (ope_step_batch s b j - 1)"
    by (auto simp: scheduled_def)
  from in_job_bounds(4)[OF assms(1) ij] show "ope_step_batch s b j - 1 < num_opes s" .
qed

lemma scheduled_bound:
  assumes "static_ok s b" and "scheduled s b i"
  shows "i < num_opes s"
  using assms in_job_bounds(4) by (auto simp: scheduled_def)

section \<open>A legal decision keeps the invariant\<close>

lemma legal_facts:
  assumes "inv s b" and "legal s b (p, ma, job)"
  shows "job < num_jobs s" "ma < num_mas s" "p < num_opes s" "p = ope_step_batch s b job"
    "0 < proc_times_batch s b p ma" "\<not> mask_ma_procing_batch s b ma"
    "\<not> mask_job_procing_batch s b job" "\<not> mask_job_finish_batch s b job"
    "in_job s b job p" "\<not> scheduled s b p"
proof -
  note so = invD(1)[OF assms(1)] and ip = invD(2)[OF assms(1)]
  from assms(2) show j: "job < num_jobs s" and "ma < num_mas s" and "p < num_opes s"
    and p: "p = ope_step_batch s b job"
    and "0 < proc_times_batch s b p ma" and "\<not> mask_ma_procing_batch s b ma"
    and "\<not> mask_job_procing_batch s b job" and f: "\<not> mask_job_finish_batch s b job"
    by (auto simp: legal_def)
  from inv_ptrD(1,2,5)[OF ip j] f p show ij: "in_job s b job p"
    by (auto simp: in_job_def j)
  show "\<not> scheduled s b p"
  proof
    assume "scheduled s b p"
    then obtain j where a: "in_job s b j p" and b: "p < ope_step_batch s b j"
      by (auto simp: scheduled_def)
    from in_job_unique[OF so a ij] b p show False by simp
  qed
qed

lemma in_job_step_update [simp]: "in_job (step_update s a) b j i = in_job s b j i"
  by (simp add: in_job_def)

lemma static_ok_step_update [simp]: "static_ok (step_update s a) b = static_ok s b"
  by (simp add: static_ok_def)

lemma scheduled_step_update:
  assumes "inv s b" and "legal s b (p, ma, job)" and "act_of s a b = Some (p, ma, job)"
  shows "scheduled (step_update s a) b i \<longleftrightarrow> scheduled s b i \<or> i = p"
proof -
  note so = invD(1)[OF assms(1)] and lf = legal_facts[OF assms(1,2)]
  note m = step_update_masks(1)[OF assms(3)]
  show ?thesis
  proof
    assume "scheduled (step_update s a) b i"
    then obtain j where a: "in_job s b j i" and b: "i < ope_step_batch (step_update s a) b j"
      by (auto simp: scheduled_def)
    show "scheduled s b i \<or> i = p"
    proof (cases "j = job")
      case True
      with b m lf(4) have "i < p \<or> i = p" by auto
      with a True lf(4) show ?thesis by (auto simp: scheduled_def)
    next
      case False
      with a b m show ?thesis by (auto simp: scheduled_def)
    qed
  next
    assume "scheduled s b i \<or> i = p"
    then show "scheduled (step_update s a) b i"
    proof
      assume "scheduled s b i"
      then obtain j where a: "in_job s b j i" and b: "i < ope_step_batch s b j"
        by (auto simp: scheduled_def)
      from b m have "i < ope_step_batch (step_update s a) b j" by auto
      with a show ?thesis unfolding scheduled_def in_job_step_update by blast
    next
      assume "i = p"
      with lf(9) lf(4) m have "in_job s b job i \<and> i < ope_step_batch (step_update s a) b job"
        by simp
      then show ?thesis unfolding scheduled_def in_job_step_update by blast
    qed
  qed
qed

text \<open>The start of a scheduled operation and its duration stay as they are.\<close>

lemma step_update_start:
  assumes "inv s b" and "legal s b (p, ma, job)" and "act_of s a b = Some (p, ma, job)"
    and "i < num_opes s"
  shows "feat_opes_batch (step_update s a) b 0 i = (if scheduled s b i \<or> i = p then 1 else 0)"
    and "i = p \<Longrightarrow> feat_opes_batch (step_update s a) b 5 i = time s b"
    and "scheduled s b i \<Longrightarrow> feat_opes_batch (step_update s a) b 5 i = feat_opes_batch s b 5 i"
    and "scheduled s b i \<Longrightarrow> feat_opes_batch (step_update s a) b 2 i = feat_opes_batch s b 2 i"
    and "scheduled s b i \<Longrightarrow> sched_end (step_update s a) b i = sched_end s b i"
    and "i = p \<Longrightarrow> sched_end (step_update s a) b i = time s b + proc_times_batch s b p ma"
proof -
  note ip = invD(2)[OF assms(1)] and lf = legal_facts[OF assms(1,2)]
  show f0: "feat_opes_batch (step_update s a) b 0 i = (if scheduled s b i \<or> i = p then 1 else 0)"
    using step_update_feat(1)[OF assms(3), of i] inv_ptrD(3)[OF ip assms(4)] by simp
  show f5p: "i = p \<Longrightarrow> feat_opes_batch (step_update s a) b 5 i = time s b"
    using step_update_feat5[OF assms(3), of i] f0 by simp
  show f5: "scheduled s b i \<Longrightarrow> feat_opes_batch (step_update s a) b 5 i = feat_opes_batch s b 5 i"
    using step_update_feat5[OF assms(3), of i] f0 lf(10) by auto
  show f2: "scheduled s b i \<Longrightarrow> feat_opes_batch (step_update s a) b 2 i = feat_opes_batch s b 2 i"
    using step_update_feat(3)[OF assms(3), of i] lf(10) by auto
  from f5 f2 show "scheduled s b i \<Longrightarrow> sched_end (step_update s a) b i = sched_end s b i"
    by (simp add: sched_end_def)
  from f5p step_update_feat(3)[OF assms(3), of i]
  show "i = p \<Longrightarrow> sched_end (step_update s a) b i = time s b + proc_times_batch s b p ma"
    by (simp add: sched_end_def)
qed

lemma chosen_machine_step_update:
  assumes "act_of s a b = Some (p, ma, job)"
  shows "chosen_machine (step_update s a) b i = (if i = p then ma else chosen_machine s b i)"
  using step_update_schedule_active(2)[OF assms, of i] by (simp add: chosen_machine_def)

lemma inv_ptr_step_update:
  assumes "inv s b" and "legal s b (p, ma, job)" and "act_of s a b = Some (p, ma, job)"
  shows "inv_ptr (step_update s a) b"
proof -
  note so = invD(1)[OF assms(1)] and ip = invD(2)[OF assms(1)]
  note lf = legal_facts[OF assms(1,2)]
  note m = step_update_masks(1)[OF assms(3)]
  note sc = scheduled_step_update[OF assms]
  have P1: "\<forall>j<num_jobs s. num_ope_biases_batch s b j \<le> ope_step_batch (step_update s a) b j
        \<and> ope_step_batch (step_update s a) b j \<le> end_ope_biases_batch s b j + 1"
  proof (intro allI impI)
    fix j assume j: "j < num_jobs s"
    from inv_ptrD(1,2)[OF ip j] m lf(9) lf(4)
    show "num_ope_biases_batch s b j \<le> ope_step_batch (step_update s a) b j
        \<and> ope_step_batch (step_update s a) b j \<le> end_ope_biases_batch s b j + 1"
      by (auto simp: in_job_def)
  qed
  have P2: "\<forall>i<num_opes s. feat_opes_batch (step_update s a) b 0 i
        = (if scheduled (step_update s a) b i then 1 else 0)"
    using step_update_start(1)[OF assms] sc by simp
  have P3: "\<forall>i<num_opes s. schedules_batch (step_update s a) b i 0
        = feat_opes_batch (step_update s a) b 0 i"
    using step_update_schedule_active(1)[OF assms(3)] step_update_feat(1)[OF assms(3)]
      inv_ptrD(4)[OF ip] by simp
  have P4: "\<forall>j<num_jobs s. mask_job_finish_batch (step_update s a) b j
        \<longleftrightarrow> ope_step_batch (step_update s a) b j = end_ope_biases_batch s b j + 1"
  proof (intro allI impI)
    fix j assume j: "j < num_jobs s"
    from inv_ptrD(5)[OF ip j] lf(8) m step_update_finish(1)[of s a b j]
    show "mask_job_finish_batch (step_update s a) b j
        \<longleftrightarrow> ope_step_batch (step_update s a) b j = end_ope_biases_batch s b j + 1"
      by auto
  qed
  have P5: "done_batch (step_update s a) b
      \<longleftrightarrow> (\<forall>j<num_jobs s. mask_job_finish_batch (step_update s a) b j)"
    by (simp add: step_update_finish(2) tall_iff)
  from P1 P2 P3 P4 P5 show ?thesis unfolding inv_ptr_def by simp
qed

lemma inv_rows_step_update:
  assumes "inv s b" and "legal s b (p, ma, job)" and "act_of s a b = Some (p, ma, job)"
  shows "inv_rows (step_update s a) b"
proof -
  note ir = invD(3)[OF assms(1)]
  note sc = scheduled_step_update[OF assms]
  note adj = step_update_schedule_active(3)[OF assms(3)]
  note pt = step_update_proc_times[of s a b]
  have R1: "\<forall>i<num_opes s. \<not> scheduled (step_update s a) b i \<longrightarrow>
        (\<forall>m<num_mas s. proc_times_batch (step_update s a) b i m = old_proc_times_batch s b i m)"
  proof (intro allI impI)
    fix i m assume i: "i < num_opes s" and n: "\<not> scheduled (step_update s a) b i"
      and m: "m < num_mas s"
    from n sc have ns: "\<not> scheduled s b i" and ne: "i \<noteq> p" by auto
    from pt[of i m] adj[of i m] ne
    have "proc_times_batch (step_update s a) b i m
        = proc_times_batch s b i m * of_int (ope_ma_adj_batch s b i m)" by simp
    also have "\<dots> = proc_times_batch s b i m" by (rule inv_rowsD(2)[OF ir i m])
    also have "\<dots> = old_proc_times_batch s b i m" by (rule inv_rowsD(1)[OF ir i ns m])
    finally show "proc_times_batch (step_update s a) b i m = old_proc_times_batch s b i m" .
  qed
  have R2: "\<forall>i<num_opes s. \<forall>m<num_mas s.
          proc_times_batch (step_update s a) b i m * of_int (ope_ma_adj_batch (step_update s a) b i m)
          = proc_times_batch (step_update s a) b i m"
  proof (intro allI impI)
    fix i m assume i: "i < num_opes s" and m: "m < num_mas s"
    from pt[of i m] adj[of i m] inv_rowsD(2)[OF ir i m]
    show "proc_times_batch (step_update s a) b i m * of_int (ope_ma_adj_batch (step_update s a) b i m)
          = proc_times_batch (step_update s a) b i m"
      by auto
  qed
  have R3: "\<forall>i<num_opes s. \<forall>m<num_mas s. 0 \<le> proc_times_batch (step_update s a) b i m"
  proof (intro allI impI)
    fix i m assume i: "i < num_opes s" and m: "m < num_mas s"
    from pt[of i m] adj[of i m] inv_rowsD(2)[OF ir i m] inv_rowsD(3)[OF ir i m]
    show "0 \<le> proc_times_batch (step_update s a) b i m"
      by auto
  qed
  from R1 R2 R3 show ?thesis unfolding inv_rows_def by simp
qed


lemma procing_latest:
  assumes "inv s b" and "j < num_jobs s" and "mask_job_procing_batch s b j"
  shows "in_job s b j (ope_step_batch s b j - 1)" "scheduled s b (ope_step_batch s b j - 1)"
    "ope_step_batch s b j - 1 < num_opes s"
    "mask_ma_procing_batch s b (chosen_machine s b (ope_step_batch s b j - 1))"
proof -
  note so = invD(1)[OF assms(1)] and ip = invD(2)[OF assms(1)] and ir = invD(5)[OF assms(1)]
  from inv_runD(4)[OF ir assms(2,3)]
  have lt: "num_ope_biases_batch s b j < ope_step_batch s b j"
    and "mask_ma_procing_batch s b (chosen_machine s b (ope_step_batch s b j - 1))" by simp_all
  then show "mask_ma_procing_batch s b (chosen_machine s b (ope_step_batch s b j - 1))" by simp
  from latest_in_job[OF so ip assms(2) lt]
  show "in_job s b j (ope_step_batch s b j - 1)" "scheduled s b (ope_step_batch s b j - 1)"
    "ope_step_batch s b j - 1 < num_opes s" .
qed

text \<open>An operation that is scheduled has ended by the clock unless its job is in
  process; so has every operation of an idle job and every operation on an idle
  machine.\<close>

lemma ended_of_idle_job:
  assumes "inv s b" and "in_job s b j i" and "scheduled s b i"
    and "\<not> mask_job_procing_batch s b j"
  shows "sched_end s b i \<le> time s b"
proof -
  note so = invD(1)[OF assms(1)] and ir = invD(5)[OF assms(1)]
  from inv_runD(5)[OF ir scheduled_bound[OF so assms(3)] assms(3)]
  show ?thesis
  proof
    assume "\<exists>j'<num_jobs s. mask_job_procing_batch s b j' \<and> i = ope_step_batch s b j' - 1"
    then obtain j' where j': "j' < num_jobs s" "mask_job_procing_batch s b j'"
      "i = ope_step_batch s b j' - 1" by blast
    from procing_latest(1)[OF assms(1) j'(1,2)] j'(3) have "in_job s b j' i" by simp
    from in_job_unique[OF so this assms(2)] j'(2) assms(4) show ?thesis by simp
  qed
qed

lemma ended_on_idle_machine:
  assumes "inv s b" and "scheduled s b i"
    and "\<not> mask_ma_procing_batch s b (chosen_machine s b i)"
  shows "sched_end s b i \<le> time s b"
proof -
  note so = invD(1)[OF assms(1)] and ir = invD(5)[OF assms(1)]
  from inv_runD(5)[OF ir scheduled_bound[OF so assms(2)] assms(2)]
  show ?thesis
  proof
    assume "\<exists>j'<num_jobs s. mask_job_procing_batch s b j' \<and> i = ope_step_batch s b j' - 1"
    then obtain j' where j': "j' < num_jobs s" "mask_job_procing_batch s b j'"
      "i = ope_step_batch s b j' - 1" by blast
    from procing_latest(4)[OF assms(1) j'(1,2)] j'(3) assms(3) show ?thesis by simp
  qed
qed

lemma inv_sched_step_update:
  assumes "inv s b" and "legal s b (p, ma, job)" and "act_of s a b = Some (p, ma, job)"
  shows "inv_sched (step_update s a) b"
proof -
  let ?s = "step_update s a"
  note so = invD(1)[OF assms(1)] and ip = invD(2)[OF assms(1)] and ir = invD(3)[OF assms(1)]
    and isc = invD(4)[OF assms(1)]
  note lf = legal_facts[OF assms(1,2)]
  note sc = scheduled_step_update[OF assms]
  note st = step_update_start[OF assms]
  note cm = chosen_machine_step_update[OF assms(3)]
  have T0: "0 \<le> time ?s b" using inv_schedD(1)[OF isc] by simp
  have T1: "\<forall>i<num_opes s. 0 \<le> feat_opes_batch ?s b 2 i"
  proof (intro allI impI)
    fix i assume i: "i < num_opes s"
    from step_update_feat(3)[OF assms(3), of i] inv_schedD(2)[OF isc i] lf(5)
    show "0 \<le> feat_opes_batch ?s b 2 i" by auto
  qed
  have pp: "proc_times_batch ?s b p ma = proc_times_batch s b p ma"
    using step_update_proc_times[of s a b p ma] step_update_schedule_active(3)[OF assms(3), of p ma]
    by simp
  have T2: "\<forall>i<num_opes s. scheduled ?s b i \<longrightarrow>
          chosen_machine ?s b i < num_mas s
          \<and> schedules_batch ?s b i (Suc 0) = real (chosen_machine ?s b i)
          \<and> feat_opes_batch ?s b 2 i = proc_times_batch ?s b i (chosen_machine ?s b i)
          \<and> 0 < feat_opes_batch ?s b 2 i
          \<and> schedules_batch ?s b i 2 = feat_opes_batch ?s b 5 i
          \<and> schedules_batch ?s b i 3 = sched_end ?s b i
          \<and> 0 \<le> feat_opes_batch ?s b 5 i \<and> feat_opes_batch ?s b 5 i \<le> time ?s b"
  proof (intro allI impI)
    fix i assume i: "i < num_opes s" and "scheduled ?s b i"
    with sc have d: "scheduled s b i \<or> i = p" by simp
    note tm = step_update_times[OF assms(3), of i]
    have s1: "schedules_batch ?s b i (Suc 0) = (if i = p then real ma else schedules_batch s b i (Suc 0))"
      using step_update_schedule_active(2)[OF assms(3), of i] by simp
    show "chosen_machine ?s b i < num_mas s
          \<and> schedules_batch ?s b i (Suc 0) = real (chosen_machine ?s b i)
          \<and> feat_opes_batch ?s b 2 i = proc_times_batch ?s b i (chosen_machine ?s b i)
          \<and> 0 < feat_opes_batch ?s b 2 i
          \<and> schedules_batch ?s b i 2 = feat_opes_batch ?s b 5 i
          \<and> schedules_batch ?s b i 3 = sched_end ?s b i
          \<and> 0 \<le> feat_opes_batch ?s b 5 i \<and> feat_opes_batch ?s b 5 i \<le> time ?s b"
    proof (cases "i = p")
      case True
      from True st(2)[OF i] have f5: "feat_opes_batch ?s b 5 i = time s b" by simp
      from True step_update_feat(3)[OF assms(3), of i]
      have f2: "feat_opes_batch ?s b 2 i = proc_times_batch s b p ma" by simp
      from True cm[of i] have c: "chosen_machine ?s b i = ma" by simp
      from True s1 have s1': "schedules_batch ?s b i (Suc 0) = real ma" by simp
      from f5 f2 c s1' tm lf(2,5) pp True inv_schedD(1)[OF isc] show ?thesis
        by (simp add: sched_end_def)
    next
      case False
      with d have sch: "scheduled s b i" by simp
      note old = inv_schedD(3)[OF isc i sch]
      from False cm[of i] have c: "chosen_machine ?s b i = chosen_machine s b i" by simp
      from False s1 have s1': "schedules_batch ?s b i (Suc 0) = schedules_batch s b i (Suc 0)" by simp
      from old have cl: "chosen_machine s b i < num_mas s" by simp
      have "proc_times_batch ?s b i (chosen_machine s b i)
          = proc_times_batch s b i (chosen_machine s b i)
            * of_int (ope_ma_adj_batch s b i (chosen_machine s b i))"
        using step_update_proc_times[of s a b i "chosen_machine s b i"]
          step_update_schedule_active(3)[OF assms(3), of i "chosen_machine s b i"] False by simp
      with inv_rowsD(2)[OF ir i cl]
      have pr: "proc_times_batch ?s b i (chosen_machine s b i)
          = proc_times_batch s b i (chosen_machine s b i)" by simp
      from old c s1' pr tm st(3)[OF i sch] st(4)[OF i sch] show ?thesis
        by (simp add: sched_end_def)
    qed
  qed
  have T3: "\<forall>j<num_jobs s. \<forall>i. num_ope_biases_batch s b j \<le> i \<longrightarrow> Suc i < ope_step_batch ?s b j \<longrightarrow>
          sched_end ?s b i \<le> feat_opes_batch ?s b 5 (Suc i)"
  proof (intro allI impI)
    fix j i assume j: "j < num_jobs s" and bi: "num_ope_biases_batch s b j \<le> i"
      and lt: "Suc i < ope_step_batch ?s b j"
    note m = step_update_masks(1)[OF assms(3), of j]
    from inv_ptrD(2)[OF ip j] lf(4,9) m lt have le: "Suc i \<le> end_ope_biases_batch s b j"
      by (auto simp: in_job_def split: if_splits)
    from j bi le have ij: "in_job s b j i" and ij': "in_job s b j (Suc i)"
      by (simp_all add: in_job_def)
    note n = in_job_bounds(4)[OF so ij] in_job_bounds(4)[OF so ij']
    show "sched_end ?s b i \<le> feat_opes_batch ?s b 5 (Suc i)"
    proof (cases "Suc i < ope_step_batch s b j")
      case True
      with ij ij' have sch: "scheduled s b i" "scheduled s b (Suc i)"
        by (auto simp: scheduled_def)
      from inv_schedD(4)[OF isc j bi True] st(5)[OF n(1) sch(1)] st(3)[OF n(2) sch(2)]
      show ?thesis by simp
    next
      case False
      with lt m have jj: "j = job" and e: "Suc i = p" using lf(4) by (auto split: if_splits)
      from ij jj e lf(4) have sch: "scheduled s b i" by (auto simp: scheduled_def)
      from ij jj have "in_job s b job i" by simp
      from ended_of_idle_job[OF assms(1) this sch lf(7)] st(5)[OF n(1) sch] st(2)[OF n(2)] e
      show ?thesis by simp
    qed
  qed
  have T4: "\<forall>i<num_opes s. \<forall>k<num_opes s. scheduled ?s b i \<longrightarrow> scheduled ?s b k \<longrightarrow>
          i \<noteq> k \<longrightarrow> chosen_machine ?s b i = chosen_machine ?s b k \<longrightarrow>
          sched_end ?s b i \<le> feat_opes_batch ?s b 5 k \<or> sched_end ?s b k \<le> feat_opes_batch ?s b 5 i"
  proof (intro allI impI)
    fix i k assume i: "i < num_opes s" and k: "k < num_opes s"
      and si: "scheduled ?s b i" and sk: "scheduled ?s b k" and ne: "i \<noteq> k"
      and ce: "chosen_machine ?s b i = chosen_machine ?s b k"
    from si sk sc have di: "scheduled s b i \<or> i = p" and dk: "scheduled s b k \<or> k = p" by simp_all
    show "sched_end ?s b i \<le> feat_opes_batch ?s b 5 k \<or> sched_end ?s b k \<le> feat_opes_batch ?s b 5 i"
    proof (cases "i = p")
      case True
      with ne dk have sch: "scheduled s b k" and kp: "k \<noteq> p" by auto
      from ce True kp cm[of i] cm[of k] have "chosen_machine s b k = ma" by simp
      with lf(6) have "\<not> mask_ma_procing_batch s b (chosen_machine s b k)" by simp
      from ended_on_idle_machine[OF assms(1) sch this] st(5)[OF k sch] st(2)[OF i True]
      show ?thesis by simp
    next
      case False
      with di have sci: "scheduled s b i" by simp
      show ?thesis
      proof (cases "k = p")
        case True
        from ce True False cm[of i] cm[of k] have "chosen_machine s b i = ma" by simp
        with lf(6) have "\<not> mask_ma_procing_batch s b (chosen_machine s b i)" by simp
        from ended_on_idle_machine[OF assms(1) sci this] st(5)[OF i sci] st(2)[OF k True]
        show ?thesis by simp
      next
        case kp: False
        with dk have sck: "scheduled s b k" by simp
        from ce False kp cm[of i] cm[of k] have "chosen_machine s b i = chosen_machine s b k" by simp
        from inv_schedD(5)[OF isc i k sci sck ne this] st(5)[OF i sci] st(5)[OF k sck]
          st(3)[OF i sci] st(3)[OF k sck]
        show ?thesis by simp
      qed
    qed
  qed
  from T0 T1 T2 T3 T4 show ?thesis unfolding inv_sched_def step_update_static by blast
qed


lemma inv_run_step_update:
  assumes "inv s b" and "legal s b (p, ma, job)" and "act_of s a b = Some (p, ma, job)"
  shows "inv_run (step_update s a) b"
proof -
  let ?s = "step_update s a"
  note so = invD(1)[OF assms(1)] and ip = invD(2)[OF assms(1)] and ir = invD(5)[OF assms(1)]
  note lf = legal_facts[OF assms(1,2)]
  note sc = scheduled_step_update[OF assms]
  note st = step_update_start[OF assms]
  note cm = chosen_machine_step_update[OF assms(3)]
  note mk = step_update_masks[OF assms(3)]
  note m0 = step_update_machines(1)[OF assms(3)] and m1 = step_update_machines_1[OF assms(3)]
    and m3 = step_update_machines(4)[OF assms(3)]
  have lat: "ope_step_batch ?s b job - 1 = p" using mk(1)[of job] lf(4) by simp
  have other: "ope_step_batch ?s b j = ope_step_batch s b j
      \<and> ope_step_batch s b j - 1 \<noteq> p
      \<and> chosen_machine ?s b (ope_step_batch s b j - 1) = chosen_machine s b (ope_step_batch s b j - 1)
      \<and> sched_end ?s b (ope_step_batch s b j - 1) = sched_end s b (ope_step_batch s b j - 1)
      \<and> chosen_machine s b (ope_step_batch s b j - 1) \<noteq> ma"
    if j: "j < num_jobs s" and pj: "mask_job_procing_batch s b j" for j
  proof -
    from pj lf(7) have ne: "j \<noteq> job" by auto
    note pl = procing_latest[OF assms(1) j pj]
    from pl(2) lf(10) have np: "ope_step_batch s b j - 1 \<noteq> p" by auto
    from pl(4) lf(6) have "chosen_machine s b (ope_step_batch s b j - 1) \<noteq> ma" by auto
    with ne np mk(1)[of j] cm[of "ope_step_batch s b j - 1"] st(5)[OF pl(3) pl(2)]
    show ?thesis by simp
  qed
  have M1: "\<forall>m<num_mas s. machines_batch ?s b m 0 = (if mask_ma_procing_batch ?s b m then 0 else 1)"
  proof (intro allI impI)
    fix m assume m: "m < num_mas s"
    from m0[of m] mk(3)[of m] inv_runD(1)[OF ir m]
    show "machines_batch ?s b m 0 = (if mask_ma_procing_batch ?s b m then 0 else 1)" by auto
  qed
  have M2: "\<forall>m<num_mas s. mask_ma_procing_batch ?s b m \<longrightarrow>
          time s b < machines_batch ?s b m (Suc 0)
          \<and> (\<exists>j<num_jobs s. machines_batch ?s b m 3 = real j \<and> mask_job_procing_batch ?s b j
                \<and> chosen_machine ?s b (ope_step_batch ?s b j - 1) = m)"
  proof (intro allI impI)
    fix m assume m: "m < num_mas s" and bm: "mask_ma_procing_batch ?s b m"
    show "time s b < machines_batch ?s b m (Suc 0)
          \<and> (\<exists>j<num_jobs s. machines_batch ?s b m 3 = real j \<and> mask_job_procing_batch ?s b j
                \<and> chosen_machine ?s b (ope_step_batch ?s b j - 1) = m)"
    proof (cases "m = ma")
      case True
      from True m1[of m] lf(5) have a: "time s b < machines_batch ?s b m (Suc 0)" by simp
      from True m3[of m] mk(2)[of job] lat cm[of p]
      have "machines_batch ?s b m 3 = real job \<and> mask_job_procing_batch ?s b job
                \<and> chosen_machine ?s b (ope_step_batch ?s b job - 1) = m" by simp
      with lf(1) a show ?thesis by blast
    next
      case False
      with bm mk(3)[of m] have om: "mask_ma_procing_batch s b m" by simp
      from inv_runD(2)[OF ir m om] obtain j where t: "time s b < machines_batch s b m (Suc 0)"
        and j: "j < num_jobs s" "machines_batch s b m 3 = real j" "mask_job_procing_batch s b j"
        "chosen_machine s b (ope_step_batch s b j - 1) = m" by blast
      from False t m1[of m] have a: "time s b < machines_batch ?s b m (Suc 0)" by simp
      from other[OF j(1,3)] j False m3[of m] mk(2)[of j]
      have "machines_batch ?s b m 3 = real j \<and> mask_job_procing_batch ?s b j
                \<and> chosen_machine ?s b (ope_step_batch ?s b j - 1) = m" by simp
      with j(1) a show ?thesis by blast
    qed
  qed
  have M3: "\<forall>m<num_mas s. \<not> mask_ma_procing_batch ?s b m \<longrightarrow> machines_batch ?s b m (Suc 0) \<le> time s b"
  proof (intro allI impI)
    fix m assume m: "m < num_mas s" and bm: "\<not> mask_ma_procing_batch ?s b m"
    from bm mk(3)[of m] have "m \<noteq> ma" and "\<not> mask_ma_procing_batch s b m" by simp_all
    with m1[of m] inv_runD(3)[OF ir m] show "machines_batch ?s b m (Suc 0) \<le> time s b" by simp
  qed
  have M4: "\<forall>j<num_jobs s. mask_job_procing_batch ?s b j \<longrightarrow>
          num_ope_biases_batch s b j < ope_step_batch ?s b j
          \<and> mask_ma_procing_batch ?s b (chosen_machine ?s b (ope_step_batch ?s b j - 1))
          \<and> machines_batch ?s b (chosen_machine ?s b (ope_step_batch ?s b j - 1)) 3 = real j
          \<and> machines_batch ?s b (chosen_machine ?s b (ope_step_batch ?s b j - 1)) (Suc 0)
              = sched_end ?s b (ope_step_batch ?s b j - 1)"
  proof (intro allI impI)
    fix j assume j: "j < num_jobs s" and pj: "mask_job_procing_batch ?s b j"
    show "num_ope_biases_batch s b j < ope_step_batch ?s b j
          \<and> mask_ma_procing_batch ?s b (chosen_machine ?s b (ope_step_batch ?s b j - 1))
          \<and> machines_batch ?s b (chosen_machine ?s b (ope_step_batch ?s b j - 1)) 3 = real j
          \<and> machines_batch ?s b (chosen_machine ?s b (ope_step_batch ?s b j - 1)) (Suc 0)
              = sched_end ?s b (ope_step_batch ?s b j - 1)"
    proof (cases "j = job")
      case True
      from lf(9) lf(4) mk(1)[of job] have "num_ope_biases_batch s b job < ope_step_batch ?s b job"
        by (simp add: in_job_def)
      with True lat cm[of p] mk(3)[of ma] m3[of ma] m1[of ma] st(6)[OF lf(3)]
      show ?thesis by simp
    next
      case False
      with pj mk(2)[of j] have oj: "mask_job_procing_batch s b j" by simp
      note o = other[OF j oj] and old = inv_runD(4)[OF ir j oj]
      let ?m = "chosen_machine s b (ope_step_batch s b j - 1)"
      from o old mk(3)[of ?m] m3[of ?m] m1[of ?m] show ?thesis by simp
    qed
  qed
  have M5: "\<forall>i<num_opes s. scheduled ?s b i \<longrightarrow>
          sched_end ?s b i \<le> time s b
          \<or> (\<exists>j<num_jobs s. mask_job_procing_batch ?s b j \<and> i = ope_step_batch ?s b j - 1)"
  proof (intro allI impI)
    fix i assume i: "i < num_opes s" and "scheduled ?s b i"
    with sc have d: "scheduled s b i \<or> i = p" by simp
    show "sched_end ?s b i \<le> time s b
          \<or> (\<exists>j<num_jobs s. mask_job_procing_batch ?s b j \<and> i = ope_step_batch ?s b j - 1)"
    proof (cases "i = p")
      case True
      with lat mk(2)[of job] lf(1) show ?thesis by auto
    next
      case False
      with d have sch: "scheduled s b i" by simp
      from inv_runD(5)[OF ir i sch] show ?thesis
      proof
        assume "sched_end s b i \<le> time s b"
        with st(5)[OF i sch] show ?thesis by simp
      next
        assume "\<exists>j<num_jobs s. mask_job_procing_batch s b j \<and> i = ope_step_batch s b j - 1"
        then obtain j where j: "j < num_jobs s" "mask_job_procing_batch s b j"
          "i = ope_step_batch s b j - 1" by blast
        from other[OF j(1,2)] j mk(2)[of j]
        have "mask_job_procing_batch ?s b j \<and> i = ope_step_batch ?s b j - 1" by simp
        with j(1) show ?thesis by blast
      qed
    qed
  qed
  from M1 M2 M3 M4 M5 show ?thesis unfolding inv_run_def step_update_static by blast
qed

lemma cumul_step_update:
  assumes "inv s b" and "legal s b (p, ma, job)" and "act_of s a b = Some (p, ma, job)"
    and "k < num_opes s" and "i < num_opes s"
  shows "cal_cumul_adj_batch (step_update s a) b k i
        = (if \<exists>j. in_job s b j k \<and> in_job s b j i \<and> k < i
                \<and> ope_step_batch (step_update s a) b j \<le> Suc k
           then 1 else 0)"
proof -
  let ?s = "step_update s a"
  note so = invD(1)[OF assms(1)] and ie = invD(6)[OF assms(1)]
  note lf = legal_facts[OF assms(1,2)]
  note mk = step_update_masks(1)[OF assms(3)]
  note cu = step_update_cumul[OF assms(3), of k i]
  note old = inv_estD(1)[OF ie assms(4,5)]
  let ?R = "\<exists>j. in_job s b j k \<and> in_job s b j i \<and> k < i \<and> ope_step_batch ?s b j \<le> Suc k"
  from lf(9) have bp: "num_ope_biases_batch s b job \<le> p" by (simp add: in_job_def)
  show ?thesis
  proof (cases "p = num_ope_biases_batch s b job")
    case True
    then have last: "(if int p - 1 < int (num_ope_biases_batch s b job) then num_opes s - 1 else p - 1)
        = num_opes s - 1" by simp
    show ?thesis
    proof (cases "k = num_opes s - 1")
      case k: True
      with assms(5) have "\<not> k < i" by simp
      with cu last k show ?thesis by simp
    next
      case k: False
      have "(\<exists>j. in_job s b j k \<and> in_job s b j i \<and> k < i \<and> ope_step_batch s b j \<le> Suc k) \<longleftrightarrow> ?R"
      proof
        assume "\<exists>j. in_job s b j k \<and> in_job s b j i \<and> k < i \<and> ope_step_batch s b j \<le> Suc k"
        then obtain j where j: "in_job s b j k" "in_job s b j i" "k < i" "ope_step_batch s b j \<le> Suc k"
          by blast
        have "ope_step_batch ?s b j \<le> Suc k"
        proof (cases "j = job")
          case jj: True
          from j(1) jj have "num_ope_biases_batch s b job \<le> k" by (simp add: in_job_def)
          with True lf(4) jj mk[of j] show ?thesis by simp
        next
          case False
          with mk[of j] j(4) show ?thesis by simp
        qed
        with j show ?R by blast
      next
        assume ?R
        then obtain j where j: "in_job s b j k" "in_job s b j i" "k < i"
          "ope_step_batch ?s b j \<le> Suc k" by blast
        from j(4) mk[of j] have "ope_step_batch s b j \<le> Suc k" by (simp split: if_splits)
        with j show "\<exists>j. in_job s b j k \<and> in_job s b j i \<and> k < i \<and> ope_step_batch s b j \<le> Suc k"
          by blast
      qed
      with cu last k old show ?thesis by simp
    qed
  next
    case False
    with bp have gt: "num_ope_biases_batch s b job < p" by simp
    then have last: "(if int p - 1 < int (num_ope_biases_batch s b job) then num_opes s - 1 else p - 1)
        = p - 1" by auto
    show ?thesis
    proof (cases "k = p - 1")
      case k: True
      have "\<not> ?R"
      proof
        assume ?R
        then obtain j where j: "in_job s b j k" "in_job s b j i" "k < i"
          "ope_step_batch ?s b j \<le> Suc k" by blast
        from lf(9) gt k lf(1) have "in_job s b job k" by (auto simp: in_job_def)
        from in_job_unique[OF so j(1) this] have "j = job" .
        with j(4) mk[of job] lf(4) k gt show False by simp
      qed
      with cu last k show ?thesis by simp
    next
      case k: False
      have "(\<exists>j. in_job s b j k \<and> in_job s b j i \<and> k < i \<and> ope_step_batch s b j \<le> Suc k) \<longleftrightarrow> ?R"
      proof
        assume "\<exists>j. in_job s b j k \<and> in_job s b j i \<and> k < i \<and> ope_step_batch s b j \<le> Suc k"
        then obtain j where j: "in_job s b j k" "in_job s b j i" "k < i" "ope_step_batch s b j \<le> Suc k"
          by blast
        have "ope_step_batch ?s b j \<le> Suc k"
        proof (cases "j = job")
          case jj: True
          with j(4) lf(4) k have "p \<le> k" by auto
          with jj lf(4) mk[of j] show ?thesis by simp
        next
          case False
          with mk[of j] j(4) show ?thesis by simp
        qed
        with j show ?R by blast
      next
        assume ?R
        then obtain j where j: "in_job s b j k" "in_job s b j i" "k < i"
          "ope_step_batch ?s b j \<le> Suc k" by blast
        from j(4) mk[of j] have "ope_step_batch s b j \<le> Suc k" by (simp split: if_splits)
        with j show "\<exists>j. in_job s b j k \<and> in_job s b j i \<and> k < i \<and> ope_step_batch s b j \<le> Suc k"
          by blast
      qed
      with cu last k old show ?thesis by simp
    qed
  qed
qed


lemma inv_est_step_update:
  assumes "inv s b" and "legal s b (p, ma, job)" and "act_of s a b = Some (p, ma, job)"
  shows "inv_est (step_update s a) b"
proof -
  let ?s = "step_update s a"
  let ?st = "\<lambda>k. if k = p then time s b else feat_opes_batch s b 5 k"
  let ?tm = "\<lambda>i k. (?st k * feat_opes_batch ?s b 0 k + feat_opes_batch ?s b 2 k)
                      * cal_cumul_adj_batch ?s b k i"
  note so = invD(1)[OF assms(1)] and ip = invD(2)[OF assms(1)] and isc = invD(4)[OF assms(1)]
    and ie = invD(6)[OF assms(1)]
  note lf = legal_facts[OF assms(1,2)]
  note sc = scheduled_step_update[OF assms]
  note st = step_update_start[OF assms]
  note mk = step_update_masks(1)[OF assms(3)]
  note cu = cumul_step_update[OF assms]
  note ip' = inv_ptr_step_update[OF assms] and is' = inv_sched_step_update[OF assms]
  have tm0: "0 \<le> ?tm i k" if k: "k < num_opes s" and i: "i < num_opes s" for i k
  proof -
    from inv_schedD(1)[OF isc] inv_estD(4)[OF ie k] have "0 \<le> ?st k" by simp
    moreover from st(1)[OF k] have "0 \<le> feat_opes_batch ?s b 0 k" by simp
    moreover from inv_schedD(2)[OF is', of k] k have "0 \<le> feat_opes_batch ?s b 2 k" by simp
    moreover from cu[OF k i] have "0 \<le> cal_cumul_adj_batch ?s b k i" by simp
    ultimately show ?thesis by simp
  qed
  have est: "feat_opes_batch ?s b 5 i = tsum (?tm i) (num_opes s)"
    if i: "i < num_opes s" and ns: "\<not> scheduled ?s b i" for i
  proof -
    from ns sc st(1)[OF i] have "feat_opes_batch ?s b 0 i = 0" by simp
    with step_update_feat5[OF assms(3), of i] show ?thesis by simp
  qed
  have E1: "\<forall>k<num_opes s. \<forall>i<num_opes s. cal_cumul_adj_batch ?s b k i
        = (if \<exists>j. in_job ?s b j k \<and> in_job ?s b j i \<and> k < i \<and> ope_step_batch ?s b j \<le> Suc k
           then 1 else 0)"
    using cu by simp
  have E2: "\<forall>i<num_opes s. feat_opes_batch ?s b 4 i
          = sched_end ?s b (end_ope_biases_batch s b (opes_appertain_batch s b i))"
    using step_update_feat4[OF assms(3)] by (simp add: sched_end_def)
  have E4: "\<forall>i<num_opes s. 0 \<le> feat_opes_batch ?s b 5 i"
  proof (intro allI impI)
    fix i assume i: "i < num_opes s"
    show "0 \<le> feat_opes_batch ?s b 5 i"
    proof (cases "scheduled ?s b i")
      case True
      with inv_schedD(3)[OF is', of i] i show ?thesis by simp
    next
      case False
      have "0 \<le> tsum (?tm i) (num_opes s)"
        by (rule tsum_nonneg) (rule tm0[OF _ i])
      with est[OF i False] show ?thesis by simp
    qed
  qed
  have E3: "\<forall>j<num_jobs s. num_ope_biases_batch s b j < ope_step_batch ?s b j \<longrightarrow>
          sched_end ?s b (ope_step_batch ?s b j - 1) \<le> sched_end ?s b (end_ope_biases_batch s b j)"
  proof (intro allI impI)
    fix j assume j: "j < num_jobs s" and lt: "num_ope_biases_batch s b j < ope_step_batch ?s b j"
    let ?l = "ope_step_batch ?s b j - 1" and ?e = "end_ope_biases_batch s b j"
    from so have so': "static_ok ?s b" by simp
    from j have j': "j < num_jobs ?s" by simp
    from lt have lt': "num_ope_biases_batch ?s b j < ope_step_batch ?s b j" by simp
    note ll = latest_in_job[OF so' ip' j' lt']
    from ll(3) have ln: "?l < num_opes s" by simp
    from ll(2) have ls: "scheduled ?s b ?l" .
    from ll(1) have lj: "in_job s b j ?l" by simp
    from static_okD(5,6)[OF so j] j have ej: "in_job s b j ?e" and en: "?e < num_opes s"
      by (simp_all add: in_job_def)
    show "sched_end ?s b ?l \<le> sched_end ?s b ?e"
    proof (cases "?l = ?e")
      case True
      then show ?thesis by simp
    next
      case False
      with lj have le: "?l < ?e" by (simp add: in_job_def)
      with lt have oe: "ope_step_batch ?s b j \<le> ?e" by simp
      have ns: "\<not> scheduled ?s b ?e"
      proof
        assume "scheduled ?s b ?e"
        then obtain j' where a: "in_job s b j' ?e" and c: "?e < ope_step_batch ?s b j'"
          by (auto simp: scheduled_def)
        from in_job_unique[OF so a ej] c oe show False by simp
      qed
      from lj ej le lt have "\<exists>j. in_job s b j ?l \<and> in_job s b j ?e \<and> ?l < ?e
          \<and> ope_step_batch ?s b j \<le> Suc ?l" by (intro exI[of _ j]) simp
      with cu[OF ln en] have c1: "cal_cumul_adj_batch ?s b ?l ?e = 1" by simp
      from ls sc have d: "scheduled s b ?l \<or> ?l = p" by simp
      from st(1)[OF ln] d have f0: "feat_opes_batch ?s b 0 ?l = 1" by simp
      have f5: "feat_opes_batch ?s b 5 ?l = ?st ?l"
      proof (cases "?l = p")
        case True
        with st(2)[OF ln] show ?thesis by simp
      next
        case False
        with d st(3)[OF ln] show ?thesis by simp
      qed
      from c1 f0 f5 have "?tm ?e ?l = sched_end ?s b ?l" by (simp add: sched_end_def)
      moreover have "?tm ?e ?l \<le> tsum (?tm ?e) (num_opes s)"
        by (rule tsum_ge_term[where f = "?tm ?e", OF tm0[OF _ en] ln])
      ultimately have "sched_end ?s b ?l \<le> feat_opes_batch ?s b 5 ?e"
        using est[OF en ns] by simp
      moreover from inv_schedD(2)[OF is', of ?e] en have "0 \<le> feat_opes_batch ?s b 2 ?e" by simp
      ultimately show ?thesis by (simp add: sched_end_def)
    qed
  qed
  from E1 E2 E3 E4 show ?thesis unfolding inv_est_def step_update_static in_job_step_update by blast
qed

lemma step_update_inv_active:
  assumes "inv s b" and "legal s b (p, ma, job)" and "act_of s a b = Some (p, ma, job)"
  shows "inv (step_update s a) b"
  using invD(1)[OF assms(1)] inv_ptr_step_update[OF assms] inv_rows_step_update[OF assms]
    inv_sched_step_update[OF assms] inv_run_step_update[OF assms] inv_est_step_update[OF assms]
  by (simp add: inv_def)

lemma scheduled_inactive:
  assumes "act_of s a b = None"
  shows "scheduled (step_update s a) b i = scheduled s b i"
  by (simp add: scheduled_def step_update_inactive(5)[OF assms])

lemma sched_end_inactive:
  assumes "act_of s a b = None"
  shows "sched_end (step_update s a) b i = sched_end s b i"
  by (simp add: sched_end_def step_update_inactive(1)[OF assms])

lemma chosen_machine_inactive:
  assumes "act_of s a b = None"
  shows "chosen_machine (step_update s a) b i = chosen_machine s b i"
  by (simp add: chosen_machine_def step_update_schedule_inactive(1)[OF assms])

lemma step_update_inv_inactive:
  assumes "inv s b" and "act_of s a b = None"
  shows "inv (step_update s a) b"
proof -
  let ?s = "step_update s a"
  note so = invD(1)[OF assms(1)] and ip = invD(2)[OF assms(1)] and ir = invD(3)[OF assms(1)]
    and isc = invD(4)[OF assms(1)] and iru = invD(5)[OF assms(1)] and ie = invD(6)[OF assms(1)]
  note ia = step_update_inactive[OF assms(2)] and sa = step_update_schedule_inactive[OF assms(2)]
  note eqs = ia sa scheduled_inactive[OF assms(2)] sched_end_inactive[OF assms(2)]
    chosen_machine_inactive[OF assms(2)] step_update_static in_job_step_update
  have pt: "proc_times_batch ?s b i m = proc_times_batch s b i m"
    if "i < num_opes s" "m < num_mas s" for i m
    using step_update_proc_times[of s a b i m] sa(2) inv_rowsD(2)[OF ir that] by simp
  have fin: "mask_job_finish_batch ?s b j = mask_job_finish_batch s b j" if "j < num_jobs s" for j
    using step_update_finish(1)[of s a b j] ia(5) inv_ptrD(5)[OF ip that] by auto
  have dn: "done_batch ?s b \<longleftrightarrow> (\<forall>j<num_jobs s. mask_job_finish_batch s b j)"
    using fin by (simp add: step_update_finish(2) tall_iff)
  have "inv_ptr ?s b"
    using ip fin dn unfolding inv_ptr_def eqs by simp
  moreover have "inv_rows ?s b"
    using ir pt unfolding inv_rows_def eqs by simp
  moreover have "inv_sched ?s b"
    unfolding inv_sched_def eqs
  proof (intro conjI allI impI)
    fix i assume i: "i < num_opes s" and sch: "scheduled s b i"
    note old = inv_schedD(3)[OF isc i sch]
    from old pt[OF i, of "chosen_machine s b i"]
    show "feat_opes_batch s b 2 i = proc_times_batch ?s b i (chosen_machine s b i)" by simp
  qed (use isc in \<open>auto simp: inv_sched_def\<close>)
  moreover have "inv_run ?s b"
    using iru unfolding inv_run_def eqs by simp
  moreover have "inv_est ?s b"
    using ie unfolding inv_est_def eqs by simp
  ultimately show ?thesis using so by (simp add: inv_def)
qed

section \<open>A call of next_time keeps the invariant\<close>

lemma next_time_update_static [simp]:
  "batch_size (next_time_update flag s) = batch_size s"
  "num_jobs (next_time_update flag s) = num_jobs s"
  "num_mas (next_time_update flag s) = num_mas s"
  "num_opes (next_time_update flag s) = num_opes s"
  "proc_times_batch (next_time_update flag s) = proc_times_batch s"
  "ope_ma_adj_batch (next_time_update flag s) = ope_ma_adj_batch s"
  "cal_cumul_adj_batch (next_time_update flag s) = cal_cumul_adj_batch s"
  "opes_appertain_batch (next_time_update flag s) = opes_appertain_batch s"
  "num_ope_biases_batch (next_time_update flag s) = num_ope_biases_batch s"
  "nums_ope_batch (next_time_update flag s) = nums_ope_batch s"
  "end_ope_biases_batch (next_time_update flag s) = end_ope_biases_batch s"
  "nums_opes (next_time_update flag s) = nums_opes s"
  "batch_idxes (next_time_update flag s) = batch_idxes s"
  "N (next_time_update flag s) = N s"
  "ope_step_batch (next_time_update flag s) = ope_step_batch s"
  "feat_opes_batch (next_time_update flag s) = feat_opes_batch s"
  "schedules_batch (next_time_update flag s) = schedules_batch s"
  "done_batch (next_time_update flag s) = done_batch s"
  "old_proc_times_batch (next_time_update flag s) = old_proc_times_batch s"
  "old_ope_ma_adj_batch (next_time_update flag s) = old_ope_ma_adj_batch s"
  "old_cal_cumul_adj_batch (next_time_update flag s) = old_cal_cumul_adj_batch s"
  by (simp_all add: next_time_update_def Let_def)

lemma next_time_update_derived [simp]:
  "in_job (next_time_update flag s) b j i = in_job s b j i"
  "scheduled (next_time_update flag s) b i = scheduled s b i"
  "sched_end (next_time_update flag s) b i = sched_end s b i"
  "chosen_machine (next_time_update flag s) b i = chosen_machine s b i"
  "static_ok (next_time_update flag s) b = static_ok s b"
  "inv_rows (next_time_update flag s) b = inv_rows s b"
  "inv_est (next_time_update flag s) b = inv_est s b"
  "max_feat (next_time_update flag s) = max_feat s"
proof -
  show a: "\<And>j i. in_job (next_time_update flag s) b j i = in_job s b j i"
    by (simp add: in_job_def)
  show c: "\<And>i. scheduled (next_time_update flag s) b i = scheduled s b i"
    by (simp add: scheduled_def a)
  show d: "\<And>i. sched_end (next_time_update flag s) b i = sched_end s b i"
    by (simp add: sched_end_def)
  show "chosen_machine (next_time_update flag s) b i = chosen_machine s b i"
    by (simp add: chosen_machine_def)
  show "static_ok (next_time_update flag s) b = static_ok s b"
    by (simp add: static_ok_def a)
  show "inv_rows (next_time_update flag s) b = inv_rows s b"
    by (simp add: inv_rows_def c)
  show "inv_est (next_time_update flag s) b = inv_est s b"
    by (simp add: inv_est_def a d)
  show "max_feat (next_time_update flag s) = max_feat s"
    by (simp add: max_feat_def)
qed

lemma inv_ptr_next_time_update:
  assumes "inv_ptr s b"
  shows "inv_ptr (next_time_update flag s) b"
proof -
  have "mask_job_finish_batch (next_time_update flag s) b j = mask_job_finish_batch s b j"
    if "j < num_jobs s" for j
    using next_time_update_fields(5)[of flag s b j] inv_ptrD(5)[OF assms that] by auto
  with assms show ?thesis
    unfolding inv_ptr_def next_time_update_static next_time_update_derived by simp
qed

lemma max_feat_ge:
  assumes "b < batch_size s" and "i < num_opes s"
  shows "feat_opes_batch s b 4 i \<le> max_feat s"
proof -
  have "feat_opes_batch s b 4 i \<le> tmax (feat_opes_batch s b 4) (num_opes s)"
    by (rule tmax_ge[OF assms(2)])
  also have "\<dots> \<le> max_feat s"
    unfolding max_feat_def
    by (rule tmax_ge[where f = "\<lambda>b. tmax (feat_opes_batch s b 4) (num_opes s)", OF assms(1)])
  finally show ?thesis .
qed

lemma sched_end_le_max_feat:
  assumes "inv s b" and "b < batch_size s" and "j < num_jobs s"
    and "num_ope_biases_batch s b j < ope_step_batch s b j"
  shows "sched_end s b (ope_step_batch s b j - 1) \<le> max_feat s"
proof -
  note so = invD(1)[OF assms(1)] and ip = invD(2)[OF assms(1)] and ie = invD(6)[OF assms(1)]
  note ll = latest_in_job[OF so ip assms(3,4)]
  from static_okD(8)[OF so ll(1)] inv_estD(2)[OF ie ll(3)]
  have "feat_opes_batch s b 4 (ope_step_batch s b j - 1) = sched_end s b (end_ope_biases_batch s b j)"
    by simp
  with inv_estD(3)[OF ie assms(3,4)] max_feat_ge[OF assms(2) ll(3)] show ?thesis by simp
qed

lemma busy_avail:
  assumes "inv s b" and "b < batch_size s" and "m < num_mas s" and "mask_ma_procing_batch s b m"
  shows "machines_batch s b m (Suc 0) \<le> max_feat s" "time s b < machines_batch s b m (Suc 0)"
proof -
  note ir = invD(5)[OF assms(1)]
  from inv_runD(2)[OF ir assms(3,4)] obtain j where t: "time s b < machines_batch s b m (Suc 0)"
    and j: "j < num_jobs s" "mask_job_procing_batch s b j"
    "chosen_machine s b (ope_step_batch s b j - 1) = m" by blast
  from t show "time s b < machines_batch s b m (Suc 0)" .
  from inv_runD(4)[OF ir j(1,2)] j(3)
  have lt: "num_ope_biases_batch s b j < ope_step_batch s b j"
    and "machines_batch s b m (Suc 0) = sched_end s b (ope_step_batch s b j - 1)" by simp_all
  with sched_end_le_max_feat[OF assms(1,2) j(1) lt]
  show "machines_batch s b m (Suc 0) \<le> max_feat s" by simp
qed

lemma busy_iff_later:
  assumes "inv s b" and "m < num_mas s"
  shows "mask_ma_procing_batch s b m \<longleftrightarrow> time s b < machines_batch s b m (Suc 0)"
  using inv_runD(2,3)[OF invD(5)[OF assms(1)] assms(2)] by fastforce

text \<open>The clock \<open>next_time\<close> moves an instance to: not before the present one, at most
  one past the largest completion feature, and no later than any machine in process
  becomes available.\<close>

lemma next_clock_bounds:
  assumes "inv s b" and "b < batch_size s" and "clock_ok s" and "\<not> done_batch s b"
  shows "time s b \<le> next_clock s b" "next_clock s b \<le> max_feat s + 1"
    "m < num_mas s \<Longrightarrow> mask_ma_procing_batch s b m \<Longrightarrow> next_clock s b \<le> machines_batch s b m (Suc 0)"
    "(\<exists>m<num_mas s. mask_ma_procing_batch s b m) \<Longrightarrow>
       \<exists>m<num_mas s. mask_ma_procing_batch s b m \<and> machines_batch s b m (Suc 0) = next_clock s b"
proof -
  let ?f = "\<lambda>m. if machines_batch s b m (Suc 0) > time s b then machines_batch s b m (Suc 0)
                else max_feat s + 1"
  note so = invD(1)[OF assms(1)]
  from static_okD(2)[OF so] have nm: "0 < num_mas s" .
  from assms(2,3,4) have k: "time s b \<le> max_feat s + 1" by (simp add: clock_ok_def)
  have nc: "next_clock s b = tmin ?f (num_mas s)" by (rule next_clock_Suc)
  from tmin_in[OF nm, where f = ?f] obtain m0 where m0: "m0 < num_mas s" "tmin ?f (num_mas s) = ?f m0"
    by blast
  from m0 k nc show "time s b \<le> next_clock s b" by (auto split: if_splits)
  have el: "?f m \<le> max_feat s + 1" if "m < num_mas s" for m
    using busy_avail(1)[OF assms(1,2) that] busy_iff_later[OF assms(1) that] by auto
  from tmin_le[OF nm, where f = ?f] el[OF nm] nc show "next_clock s b \<le> max_feat s + 1" by simp
  show "next_clock s b \<le> machines_batch s b m (Suc 0)"
    if m: "m < num_mas s" and bm: "mask_ma_procing_batch s b m" for m
    using tmin_le[OF m, where f = ?f] nc busy_iff_later[OF assms(1) m] bm by simp
  show "\<exists>m<num_mas s. mask_ma_procing_batch s b m \<and> machines_batch s b m (Suc 0) = next_clock s b"
    if "\<exists>m<num_mas s. mask_ma_procing_batch s b m"
  proof -
    from that obtain m1 where m1: "m1 < num_mas s" "mask_ma_procing_batch s b m1" by blast
    show ?thesis
    proof (cases "mask_ma_procing_batch s b m0")
      case True
      with m0 nc busy_iff_later[OF assms(1) m0(1)] show ?thesis by auto
    next
      case False
      with m0 nc busy_iff_later[OF assms(1) m0(1)] have "next_clock s b = max_feat s + 1" by simp
      moreover from tmin_le[OF m1(1), where f = ?f] nc busy_iff_later[OF assms(1) m1(1)] m1(2)
      have "next_clock s b \<le> machines_batch s b m1 (Suc 0)" by simp
      moreover note busy_avail(1)[OF assms(1,2) m1]
      ultimately show ?thesis by simp
    qed
  qed
qed


lemma py_index_nat: "j < n \<Longrightarrow> py_index (int j) n = Some j"
  by (simp add: py_index_def)

lemma freed_busy:
  assumes "inv s b" and "m < num_mas s" and "freed flag s b m"
  shows "mask_ma_procing_batch s b m" "machines_batch s b m (Suc 0) = next_clock s b"
    "flag_need_trans flag s b"
  using assms(3) inv_runD(1)[OF invD(5)[OF assms(1)] assms(2)]
  by (auto simp: freed_Suc split: if_splits)

text \<open>The jobs \<open>next_time\<close> releases are the jobs recorded at the machines it
  releases.\<close>

lemma released_iff:
  assumes "inv s b" and "j < num_jobs s"
  shows "mask_job_procing_batch (next_time_update flag s) b j
       \<longleftrightarrow> mask_job_procing_batch s b j
           \<and> \<not> (\<exists>m<num_mas s. freed flag s b m \<and> machines_batch s b m 3 = real j)"
proof -
  note ir = invD(5)[OF assms(1)]
  have "(freed_jobs flag s b m \<ge> 0
          \<and> py_index (trunc (freed_jobs flag s b m)) (num_jobs s) = Some j)
      \<longleftrightarrow> (freed flag s b m \<and> machines_batch s b m 3 = real j)" if m: "m < num_mas s" for m
  proof (cases "freed flag s b m")
    case True
    from inv_runD(2)[OF ir m freed_busy(1)[OF assms(1) m True]]
    obtain j' where j': "j' < num_jobs s" "machines_batch s b m 3 = real j'" by blast
    with True py_index_nat[OF j'(1)] show ?thesis by (auto simp: freed_jobs_def)
  next
    case False
    then show ?thesis by (simp add: freed_jobs_def)
  qed
  then have "tany (\<lambda>m. freed_jobs flag s b m \<ge> 0
                    \<and> py_index (trunc (freed_jobs flag s b m)) (num_jobs s) = Some j) (num_mas s)
      \<longleftrightarrow> (\<exists>m<num_mas s. freed flag s b m \<and> machines_batch s b m 3 = real j)"
    unfolding tany_iff by blast
  with next_time_update_fields(4)[of flag s b j] show ?thesis by auto
qed

lemma next_time_update_clock:
  assumes "inv s b" and "b < batch_size s" and "clock_ok s"
  shows "time s b \<le> time (next_time_update flag s) b"
  using next_clock_bounds(1)[OF assms] next_time_update_fields(1)[of flag s b]
  by (auto simp: flag_need_trans_def)

lemma inv_sched_next_time_update:
  assumes "inv s b" and "b < batch_size s" and "clock_ok s"
  shows "inv_sched (next_time_update flag s) b"
proof -
  note isc = invD(4)[OF assms(1)] and mono = next_time_update_clock[OF assms, of flag]
  have T0: "0 \<le> time (next_time_update flag s) b" using inv_schedD(1)[OF isc] mono by simp
  have T2: "feat_opes_batch s b 5 i \<le> time (next_time_update flag s) b"
    if "i < num_opes s" "scheduled s b i" for i
    using inv_schedD(3)[OF isc that] mono by simp
  from isc T0 T2 show ?thesis
    unfolding inv_sched_def next_time_update_static next_time_update_derived by blast
qed

lemma inv_run_next_time_update:
  assumes "inv s b" and "b < batch_size s" and "clock_ok s"
  shows "inv_run (next_time_update flag s) b"
proof -
  let ?s = "next_time_update flag s"
  note so = invD(1)[OF assms(1)] and ir = invD(5)[OF assms(1)]
  note mono = next_time_update_clock[OF assms, of flag]
  note f = next_time_update_fields[of flag s b]
  note fb = freed_busy[OF assms(1)]
  note rel = released_iff[OF assms(1), of _ flag]
  have nd: "\<not> done_batch s b" if "freed flag s b m" for m
    using that by (simp add: freed_def flag_need_trans_def)
  have tm: "time ?s b = next_clock s b" if "freed flag s b m" for m
    using that f(1) by (simp add: freed_def)
  have m1: "machines_batch ?s b m (Suc 0) = machines_batch s b m (Suc 0)" for m
    using f(2)[of m "Suc 0"] by simp
  have m3: "machines_batch ?s b m 3 = machines_batch s b m 3" for m
    using f(2)[of m 3] by simp
  have M1: "\<forall>m<num_mas s. machines_batch ?s b m 0 = (if mask_ma_procing_batch ?s b m then 0 else 1)"
  proof (intro allI impI)
    fix m assume m: "m < num_mas s"
    from f(2)[of m 0] f(3)[of m] inv_runD(1)[OF ir m]
    show "machines_batch ?s b m 0 = (if mask_ma_procing_batch ?s b m then 0 else 1)" by auto
  qed
  have keep: "mask_job_procing_batch ?s b j"
    if j: "j < num_jobs s" and pj: "mask_job_procing_batch s b j"
      and nf: "\<not> freed flag s b (chosen_machine s b (ope_step_batch s b j - 1))" for j
  proof -
    have "\<not> (\<exists>m<num_mas s. freed flag s b m \<and> machines_batch s b m 3 = real j)"
    proof
      assume "\<exists>m<num_mas s. freed flag s b m \<and> machines_batch s b m 3 = real j"
      then obtain m where m: "m < num_mas s" "freed flag s b m" "machines_batch s b m 3 = real j"
        by blast
      from inv_runD(2)[OF ir m(1) fb(1)[OF m(1,2)]] m(3)
      have "chosen_machine s b (ope_step_batch s b j - 1) = m" by auto
      with nf m(2) show False by simp
    qed
    with rel[OF j] pj show ?thesis by simp
  qed
  have M2: "\<forall>m<num_mas s. mask_ma_procing_batch ?s b m \<longrightarrow>
          time ?s b < machines_batch ?s b m (Suc 0)
          \<and> (\<exists>j<num_jobs s. machines_batch ?s b m 3 = real j \<and> mask_job_procing_batch ?s b j
                \<and> chosen_machine s b (ope_step_batch s b j - 1) = m)"
  proof (intro allI impI)
    fix m assume m: "m < num_mas s" and bm': "mask_ma_procing_batch ?s b m"
    from bm' f(3)[of m] have nf: "\<not> freed flag s b m" and bm: "mask_ma_procing_batch s b m"
      by simp_all
    from inv_runD(2)[OF ir m bm] obtain j where t: "time s b < machines_batch s b m (Suc 0)"
      and j: "j < num_jobs s" "machines_batch s b m 3 = real j" "mask_job_procing_batch s b j"
      "chosen_machine s b (ope_step_batch s b j - 1) = m" by blast
    have "time ?s b < machines_batch s b m (Suc 0)"
    proof (cases "flag_need_trans flag s b")
      case True
      then have "\<not> done_batch s b" by (simp add: flag_need_trans_def)
      from next_clock_bounds(3)[OF assms this m bm] nf bm True inv_runD(1)[OF ir m] f(1)
      show ?thesis by (auto simp: freed_Suc)
    next
      case False
      with f(1) t show ?thesis by simp
    qed
    moreover from keep[OF j(1,3)] nf j(4) have "mask_job_procing_batch ?s b j" by simp
    ultimately show "time ?s b < machines_batch ?s b m (Suc 0)
          \<and> (\<exists>j<num_jobs s. machines_batch ?s b m 3 = real j \<and> mask_job_procing_batch ?s b j
                \<and> chosen_machine s b (ope_step_batch s b j - 1) = m)"
      using j m1[of m] m3[of m] by auto
  qed
  have M3: "\<forall>m<num_mas s. \<not> mask_ma_procing_batch ?s b m \<longrightarrow>
      machines_batch ?s b m (Suc 0) \<le> time ?s b"
  proof (intro allI impI)
    fix m assume m: "m < num_mas s" and bm': "\<not> mask_ma_procing_batch ?s b m"
    show "machines_batch ?s b m (Suc 0) \<le> time ?s b"
    proof (cases "freed flag s b m")
      case True
      from fb(2)[OF m True] tm[OF True] m1[of m] show ?thesis by simp
    next
      case False
      with bm' f(3)[of m] have "\<not> mask_ma_procing_batch s b m" by simp
      from inv_runD(3)[OF ir m this] mono m1[of m] show ?thesis by simp
    qed
  qed
  have M4: "\<forall>j<num_jobs s. mask_job_procing_batch ?s b j \<longrightarrow>
          num_ope_biases_batch s b j < ope_step_batch s b j
          \<and> mask_ma_procing_batch ?s b (chosen_machine s b (ope_step_batch s b j - 1))
          \<and> machines_batch ?s b (chosen_machine s b (ope_step_batch s b j - 1)) 3 = real j
          \<and> machines_batch ?s b (chosen_machine s b (ope_step_batch s b j - 1)) (Suc 0)
              = sched_end s b (ope_step_batch s b j - 1)"
  proof (intro allI impI)
    fix j assume j: "j < num_jobs s" and pj': "mask_job_procing_batch ?s b j"
    let ?m = "chosen_machine s b (ope_step_batch s b j - 1)"
    from pj' rel[OF j] have pj: "mask_job_procing_batch s b j"
      and nr: "\<not> (\<exists>m<num_mas s. freed flag s b m \<and> machines_batch s b m 3 = real j)" by simp_all
    note old = inv_runD(4)[OF ir j pj]
    note pl = procing_latest[OF assms(1) j pj]
    from inv_schedD(3)[OF invD(4)[OF assms(1)] pl(3) pl(2)] have mm: "?m < num_mas s" by simp
    from nr mm old have "\<not> freed flag s b ?m" by auto
    with old f(3)[of ?m] m1[of ?m] m3[of ?m]
    show "num_ope_biases_batch s b j < ope_step_batch s b j
          \<and> mask_ma_procing_batch ?s b ?m
          \<and> machines_batch ?s b ?m 3 = real j
          \<and> machines_batch ?s b ?m (Suc 0) = sched_end s b (ope_step_batch s b j - 1)"
      by simp
  qed
  have M5: "\<forall>i<num_opes s. scheduled s b i \<longrightarrow>
          sched_end s b i \<le> time ?s b
          \<or> (\<exists>j<num_jobs s. mask_job_procing_batch ?s b j \<and> i = ope_step_batch s b j - 1)"
  proof (intro allI impI)
    fix i assume i: "i < num_opes s" and sch: "scheduled s b i"
    from inv_runD(5)[OF ir i sch]
    show "sched_end s b i \<le> time ?s b
          \<or> (\<exists>j<num_jobs s. mask_job_procing_batch ?s b j \<and> i = ope_step_batch s b j - 1)"
    proof
      assume "sched_end s b i \<le> time s b"
      with mono show ?thesis by simp
    next
      assume "\<exists>j<num_jobs s. mask_job_procing_batch s b j \<and> i = ope_step_batch s b j - 1"
      then obtain j where j: "j < num_jobs s" "mask_job_procing_batch s b j"
        "i = ope_step_batch s b j - 1" by blast
      let ?m = "chosen_machine s b (ope_step_batch s b j - 1)"
      note old = inv_runD(4)[OF ir j(1,2)]
      show ?thesis
      proof (cases "freed flag s b ?m")
        case True
        from inv_schedD(3)[OF invD(4)[OF assms(1)] i sch] j(3) have mm: "?m < num_mas s" by simp
        from fb(2)[OF mm True] tm[OF True] old j(3) have "sched_end s b i \<le> time ?s b" by simp
        then show ?thesis ..
      next
        case False
        from keep[OF j(1,2) False] j show ?thesis by blast
      qed
    qed
  qed
  from M1 M2 M3 M4 M5 show ?thesis
    unfolding inv_run_def next_time_update_static next_time_update_derived by blast
qed

lemma next_time_update_inv:
  assumes "inv s b" and "b < batch_size s" and "clock_ok s"
  shows "inv (next_time_update flag s) b"
  using invD[OF assms(1)] inv_ptr_next_time_update[of s b flag]
    inv_sched_next_time_update[OF assms, of flag] inv_run_next_time_update[OF assms, of flag]
  by (simp add: inv_def)

lemma clock_ok_next_time_update:
  assumes "\<And>b. b < batch_size s \<Longrightarrow> inv s b" and "clock_ok s"
  shows "clock_ok (next_time_update flag s)"
  unfolding clock_ok_def
proof (intro allI impI)
  fix b assume b: "b < batch_size (next_time_update flag s)"
    and nd: "\<not> done_batch (next_time_update flag s) b"
  from b nd have b': "b < batch_size s" and nd': "\<not> done_batch s b" by simp_all
  from next_clock_bounds(2)[OF assms(1)[OF b'] b' assms(2) nd'] assms(2) b' nd'
    next_time_update_fields(1)[of flag s b]
  show "time (next_time_update flag s) b \<le> max_feat (next_time_update flag s) + 1"
    by (auto simp: clock_ok_def)
qed

section \<open>The time-advance loop ends\<close>

lemma if_no_eligible_flag:
  assumes "if_no_eligible s = Inr flag"
  shows "flag b = tsum (\<lambda>m. tsum (\<lambda>j.
      if \<not> mask_ma_procing_batch s b m
          \<and> \<not> (mask_job_procing_batch s b j \<or> mask_job_finish_batch s b j)
      then proc_times_batch s b (if ope_step_batch s b j > end_ope_biases_batch s b j
                                 then end_ope_biases_batch s b j else ope_step_batch s b j) m
      else 0) (num_jobs s)) (num_mas s)"
  using assms by (auto simp: if_no_eligible_def Let_def split: if_splits)

lemma if_no_eligible_returns:
  assumes "\<And>b. b < batch_size s \<Longrightarrow> static_ok s b"
  shows "\<exists>flag. if_no_eligible s = Inr flag"
proof -
  have "(if ope_step_batch s b j > end_ope_biases_batch s b j
         then end_ope_biases_batch s b j else ope_step_batch s b j) < num_opes s"
    if "b < batch_size s" "j < num_jobs s" for b j
    using static_okD(6)[OF assms[OF that(1)] that(2)] by auto
  then show ?thesis by (simp add: if_no_eligible_def Let_def tall_iff)
qed

text \<open>An instance that is not done and has no eligible pair has a machine in process.\<close>

lemma stalled_busy:
  assumes "inv s b" and "if_no_eligible s = Inr flag" and "flag b = 0" and "\<not> done_batch s b"
  shows "\<exists>m<num_mas s. mask_ma_procing_batch s b m"
proof (rule ccontr)
  assume nb: "\<not> (\<exists>m<num_mas s. mask_ma_procing_batch s b m)"
  note so = invD(1)[OF assms(1)] and ip = invD(2)[OF assms(1)] and ir = invD(3)[OF assms(1)]
    and isc = invD(4)[OF assms(1)] and iru = invD(5)[OF assms(1)]
  let ?clip = "\<lambda>j. if ope_step_batch s b j > end_ope_biases_batch s b j
                   then end_ope_biases_batch s b j else ope_step_batch s b j"
  let ?t = "\<lambda>m j. if \<not> mask_ma_procing_batch s b m
          \<and> \<not> (mask_job_procing_batch s b j \<or> mask_job_finish_batch s b j)
      then proc_times_batch s b (?clip j) m else 0"
  from assms(4) inv_ptrD(6)[OF ip] obtain j where j: "j < num_jobs s"
    and nf: "\<not> mask_job_finish_batch s b j" by blast
  from inv_ptrD(1,2,5)[OF ip j] nf have ij: "in_job s b j (ope_step_batch s b j)"
    by (auto simp: in_job_def j)
  then have cl: "?clip j = ope_step_batch s b j" by (simp add: in_job_def)
  have np: "\<not> mask_job_procing_batch s b j"
  proof
    assume pj: "mask_job_procing_batch s b j"
    note pl = procing_latest[OF assms(1) j pj]
    from inv_schedD(3)[OF isc pl(3) pl(2)] pl(4) nb show False by auto
  qed
  have ns: "\<not> scheduled s b (ope_step_batch s b j)"
  proof
    assume "scheduled s b (ope_step_batch s b j)"
    then obtain j' where a: "in_job s b j' (ope_step_batch s b j)"
      and c: "ope_step_batch s b j < ope_step_batch s b j'" by (auto simp: scheduled_def)
    from in_job_unique[OF so a ij] c show False by simp
  qed
  from ij static_okD(11)[OF so, of "ope_step_batch s b j"]
  have "ope_step_batch s b j < nums_opes s b" by blast
  from static_okD(13)[OF so this] obtain m where m: "m < num_mas s"
    and pos: "0 < old_proc_times_batch s b (ope_step_batch s b j) m" by blast
  from inv_rowsD(1)[OF ir in_job_bounds(4)[OF so ij] ns m] pos
  have pp: "0 < proc_times_batch s b (ope_step_batch s b j) m" by simp
  have cn: "?clip j' < num_opes s" if "j' < num_jobs s" for j'
    using static_okD(6)[OF so that] by auto
  have t0: "0 \<le> ?t m' j'" if "m' < num_mas s" "j' < num_jobs s" for m' j'
    using inv_rowsD(3)[OF ir cn[OF that(2)] that(1)] by simp
  have s0: "0 \<le> tsum (?t m') (num_jobs s)" if "m' < num_mas s" for m'
    by (rule tsum_nonneg) (rule t0[OF that])
  from nb m np nf cl pp have tp: "0 < ?t m j" by auto
  have sp: "0 < tsum (?t m) (num_jobs s)"
  proof (rule tsum_pos[where k = j])
    show "\<And>i. i < num_jobs s \<Longrightarrow> 0 \<le> ?t m i" by (rule t0[OF m])
    show "j < num_jobs s" by (rule j)
    show "0 < ?t m j" by (rule tp)
  qed
  have "0 < tsum (\<lambda>m. tsum (?t m) (num_jobs s)) (num_mas s)"
  proof (rule tsum_pos[where k = m])
    show "\<And>i. i < num_mas s \<Longrightarrow> 0 \<le> tsum (?t i) (num_jobs s)" by (rule s0)
    show "m < num_mas s" by (rule m)
    show "0 < tsum (?t m) (num_jobs s)" by (rule sp)
  qed
  with if_no_eligible_flag[OF assms(2), of b] assms(3) show False by simp
qed

lemma filter_fewer:
  assumes "\<And>x. x \<in> set xs \<Longrightarrow> Q x \<Longrightarrow> P x" and "x \<in> set xs" and "P x" and "\<not> Q x"
  shows "length (filter Q xs) < length (filter P xs)"
proof -
  from assms(1) have "filter Q xs = filter Q (filter P xs)"
    by (auto simp: filter_filter intro: filter_cong)
  moreover from assms(2,3) have "x \<in> set (filter P xs)" by simp
  from length_filter_less[of x "filter P xs" Q, OF this assms(4)]
  have "length (filter Q (filter P xs)) < length (filter P xs)" .
  ultimately show ?thesis by simp
qed

lemma busy_count_le: "busy_count s b \<le> num_mas s"
  using length_filter_le[of "mask_ma_procing_batch s b" "[0..<num_mas s]"]
  by (simp add: busy_count_def)

text \<open>A call of \<open>next_time\<close> releases a machine of every instance it moves that has
  a machine in process.\<close>

lemma next_time_releases:
  assumes "inv s b" and "b < batch_size s" and "clock_ok s" and "flag_need_trans flag s b"
    and "\<exists>m<num_mas s. mask_ma_procing_batch s b m"
  shows "busy_count (next_time_update flag s) b < busy_count s b"
proof -
  from assms(4) have nd: "\<not> done_batch s b" by (simp add: flag_need_trans_def)
  from next_clock_bounds(4)[OF assms(1,2,3) nd assms(5)] obtain m where m: "m < num_mas s"
    "mask_ma_procing_batch s b m" "machines_batch s b m (Suc 0) = next_clock s b" by blast
  from inv_runD(1)[OF invD(5)[OF assms(1)] m(1)] m(2,3) assms(4) have "freed flag s b m"
    by (simp add: freed_Suc)
  with next_time_update_fields(3)[of flag s b m]
  have "\<not> mask_ma_procing_batch (next_time_update flag s) b m" by simp
  moreover have "m \<in> set [0..<num_mas s]" using m(1) by simp
  moreover have "mask_ma_procing_batch s b x"
    if "mask_ma_procing_batch (next_time_update flag s) b x" for x
    using that next_time_update_fields(3)[of flag s b x] by simp
  ultimately show ?thesis
    unfolding busy_count_def next_time_update_static
    using m(2) by (intro filter_fewer[where x = m]) auto
qed

text \<open>\<open>next_time\<close> leaves an instance it does not move as it is.\<close>

lemma next_time_untouched:
  assumes "inv s b" and "\<not> flag_need_trans flag s b"
  shows "time (next_time_update flag s) b = time s b"
    and "m < num_mas s \<Longrightarrow>
          mask_ma_procing_batch (next_time_update flag s) b m = mask_ma_procing_batch s b m"
    and "j < num_jobs s \<Longrightarrow>
          mask_job_procing_batch (next_time_update flag s) b j = mask_job_procing_batch s b j"
    and "j < num_jobs s \<Longrightarrow>
          mask_job_finish_batch (next_time_update flag s) b j = mask_job_finish_batch s b j"
proof -
  from assms(2) have nf: "\<not> freed flag s b m" for m by (simp add: freed_def)
  from assms(2) show "time (next_time_update flag s) b = time s b"
    by (simp add: next_time_update_fields(1))
  from nf show "mask_ma_procing_batch (next_time_update flag s) b m = mask_ma_procing_batch s b m"
    by (simp add: next_time_update_fields(3))
  from nf released_iff[OF assms(1), of j flag]
  show "j < num_jobs s \<Longrightarrow>
      mask_job_procing_batch (next_time_update flag s) b j = mask_job_procing_batch s b j"
    by simp
  from inv_ptrD(5)[OF invD(2)[OF assms(1)], of j]
  show "j < num_jobs s \<Longrightarrow>
      mask_job_finish_batch (next_time_update flag s) b j = mask_job_finish_batch s b j"
    by (auto simp: next_time_update_fields(5))
qed

lemma next_time_untouched_flag:
  assumes "inv s b" and "\<not> flag_need_trans flag s b"
    and "if_no_eligible s = Inr flag" and "if_no_eligible (next_time_update flag s) = Inr flag'"
  shows "flag' b = flag b"
proof -
  note u = next_time_untouched[OF assms(1,2)]
  show ?thesis
    unfolding if_no_eligible_flag[OF assms(3), of b] if_no_eligible_flag[OF assms(4), of b]
      next_time_update_static
    by (intro tsum_cong) (simp add: u)
qed

lemma next_time_returns:
  assumes "loop_ok s"
  shows "next_time flag s = Inr (next_time_update flag s)"
proof -
  from assms have bs: "0 < batch_size s" and iv: "\<And>b. b < batch_size s \<Longrightarrow> inv s b"
    by (simp_all add: loop_ok_def)
  note so = invD(1)[OF iv[OF bs]]
  have "next_time_check flag s = None"
  proof (rule next_time_check_None)
    from static_okD(2,3)[OF so] bs
    show "num_mas s \<noteq> 0" "num_opes s \<noteq> 0" "batch_size s \<noteq> 0" by simp_all
    fix b m assume b: "b < batch_size s" and m: "m < num_mas s" and fr: "freed flag s b m"
    from inv_runD(2)[OF invD(5)[OF iv[OF b]] m freed_busy(1)[OF iv[OF b] m fr]]
    obtain j where "j < num_jobs s" "machines_batch s b m 3 = real j" by blast
    then show "py_index (trunc (machines_batch s b m 3)) (num_jobs s) \<noteq> None"
      by (simp add: py_index_nat)
  qed
  then show ?thesis by (simp add: next_time_Inr_iff)
qed

lemma loop_ok_next_time_update:
  assumes "loop_ok s"
  shows "loop_ok (next_time_update flag s)"
proof -
  from assms have bs: "0 < batch_size s" and iv: "\<And>b. b < batch_size s \<Longrightarrow> inv s b"
    and ck: "clock_ok s" by (simp_all add: loop_ok_def)
  from bs next_time_update_inv[OF iv _ ck] clock_ok_next_time_update[OF iv ck]
  show ?thesis by (simp add: loop_ok_def)
qed

lemma loop_ok_next_time:
  assumes "loop_ok s" and "next_time flag s = Inr s'"
  shows "loop_ok s'" "b < batch_size s \<Longrightarrow> time s b \<le> time s' b"
proof -
  from assms(2) next_time_returns[OF assms(1), of flag] have e: "s' = next_time_update flag s"
    by simp
  with loop_ok_next_time_update[OF assms(1)] show "loop_ok s'" by simp
  assume b: "b < batch_size s"
  with assms(1) have "inv s b" "clock_ok s" by (simp_all add: loop_ok_def)
  from next_time_update_clock[OF this(1) b this(2)] e show "time s b \<le> time s' b" by simp
qed


lemma busy_count_pos:
  assumes "m < num_mas s" and "mask_ma_procing_batch s b m"
  shows "0 < busy_count s b"
proof -
  from assms have "m \<in> set (filter (mask_ma_procing_batch s b) [0..<num_mas s])" by simp
  then show ?thesis unfolding busy_count_def by (rule length_pos_if_in_set)
qed

text \<open>When every instance that is not done and has no eligible pair has at most \<open>k\<close>
  machines in process, the loop returns after at most \<open>k\<close> calls of \<open>next_time\<close>.\<close>

lemma time_advance_bound:
  assumes "loop_ok s"
    and "\<And>b flag. b < batch_size s \<Longrightarrow> if_no_eligible s = Inr flag \<Longrightarrow> flag b = 0 \<Longrightarrow>
          \<not> done_batch s b \<Longrightarrow> busy_count s b \<le> k"
  shows "\<exists>s'. time_advance_within k s = Some (Inr s') \<and> loop_ok s' \<and> kept s s'
          \<and> (\<forall>b<batch_size s. time s b \<le> time s' b)"
  using assms
proof (induction k arbitrary: s)
  case 0
  from 0(1) have iv: "\<And>b. b < batch_size s \<Longrightarrow> inv s b" by (simp add: loop_ok_def)
  from if_no_eligible_returns[OF invD(1)[OF iv]] obtain flag
    where fl: "if_no_eligible s = Inr flag" by blast
  have "\<not> need_trans s flag"
  proof
    assume "need_trans s flag"
    then obtain b where b: "b < batch_size s" "flag b = 0" "\<not> done_batch s b"
      by (auto simp: need_trans_def tany_iff)
    from stalled_busy[OF iv[OF b(1)] fl b(2,3)] obtain m where "m < num_mas s"
      "mask_ma_procing_batch s b m" by blast
    from busy_count_pos[OF this] 0(2)[OF b(1) fl b(2,3)] show False by simp
  qed
  with fl 0(1) show ?case by simp
next
  case (Suc k)
  from Suc(2) have iv: "\<And>b. b < batch_size s \<Longrightarrow> inv s b" and ck: "clock_ok s"
    by (simp_all add: loop_ok_def)
  from if_no_eligible_returns[OF invD(1)[OF iv]] obtain flag
    where fl: "if_no_eligible s = Inr flag" by blast
  show ?case
  proof (cases "need_trans s flag")
    case False
    with fl Suc(2) show ?thesis by simp
  next
    case True
    let ?s = "next_time_update flag s"
    note nt = next_time_returns[OF Suc(2), of flag]
    note ok = loop_ok_next_time_update[OF Suc(2), of flag]
    have "\<exists>s'. time_advance_within k ?s = Some (Inr s') \<and> loop_ok s' \<and> kept ?s s'
          \<and> (\<forall>b<batch_size ?s. time ?s b \<le> time s' b)"
    proof (rule Suc(1)[OF ok])
      fix b flag1
      assume b: "b < batch_size ?s" and fl1: "if_no_eligible ?s = Inr flag1" and z: "flag1 b = 0"
        and nd: "\<not> done_batch ?s b"
      from b nd have b': "b < batch_size s" and nd': "\<not> done_batch s b" by simp_all
      have ft: "flag_need_trans flag s b"
      proof (rule ccontr)
        assume n: "\<not> flag_need_trans flag s b"
        from next_time_untouched_flag[OF iv[OF b'] n fl fl1] z nd' n show False
          by (simp add: flag_need_trans_def)
      qed
      then have "flag b = 0" by (simp add: flag_need_trans_def)
      from stalled_busy[OF iv[OF b'] fl this nd'] next_time_releases[OF iv[OF b'] b' ck ft]
        Suc(3)[OF b' fl this nd']
      show "busy_count ?s b \<le> k" by simp
    qed
    then obtain s' where s': "time_advance_within k ?s = Some (Inr s')"
      "loop_ok s'" "kept ?s s'" "\<forall>b<batch_size s. time ?s b \<le> time s' b" by auto
    from fl True nt s'(1) have "time_advance_within (Suc k) s = Some (Inr s')" by simp
    moreover from next_time_kept[OF nt] s'(3) have "kept s s'" by (rule kept_trans)
    moreover have "\<forall>b<batch_size s. time s b \<le> time s' b"
    proof (intro allI impI)
      fix b assume b: "b < batch_size s"
      from next_time_update_clock[OF iv[OF b] b ck, of flag] s'(4) b
      show "time s b \<le> time s' b" by fastforce
    qed
    ultimately show ?thesis using s'(2) by blast
  qed
qed

lemma time_advance_returns:
  assumes "loop_ok s"
  shows "\<exists>s'. time_advance_within (num_mas s) s = Some (Inr s') \<and> time_advance s = Some (Inr s')
          \<and> loop_ok s' \<and> kept s s' \<and> (\<forall>b<batch_size s. time s b \<le> time s' b)"
proof -
  from time_advance_bound[OF assms, of "num_mas s"] busy_count_le
  obtain s' where s': "time_advance_within (num_mas s) s = Some (Inr s')" "loop_ok s'" "kept s s'"
    "\<forall>b<batch_size s. time s b \<le> time s' b" by blast
  from within_imp_advance[OF s'(1)] s' show ?thesis by blast
qed

section \<open>Legal runs\<close>

lemma legal_act:
  assumes "legal_actions s a" and "act_of s a b = Some x"
  shows "legal s b x"
proof -
  from assms(2) have "(b, x) \<in> set (zip (batch_idxes s) a)"
    unfolding act_of_def by (rule map_of_SomeD)
  with assms(1) show ?thesis by (auto simp: legal_actions_def list_all2_iff)
qed

lemma act_of_active:
  assumes "legal_actions s a"
  shows "b \<in> set (batch_idxes s) \<longleftrightarrow> (\<exists>x. act_of s a b = Some x)"
proof -
  from assms have "length (batch_idxes s) = length a"
    by (simp add: legal_actions_def list_all2_lengthD)
  then show ?thesis unfolding act_of_def by (rule map_of_zip_is_Some)
qed

lemma sum_list_upt_bump_if:
  fixes f :: "nat \<Rightarrow> nat"
  shows "sum_list (map (\<lambda>j. if j = k then f j + 1 else f j) [0..<n])
       = sum_list (map f [0..<n]) + (if k < n then 1 else 0)"
  by (induction n) auto

lemma sum_list_upt_bump:
  fixes f :: "nat \<Rightarrow> nat"
  assumes "k < n"
  shows "sum_list (map (\<lambda>j. if j = k then f j + 1 else f j) [0..<n]) = sum_list (map f [0..<n]) + 1"
  using assms by (simp add: sum_list_upt_bump_if)

lemma sum_list_upt_less:
  fixes f g :: "nat \<Rightarrow> nat"
  assumes "\<And>j. j < n \<Longrightarrow> f j \<le> g j" and "k < n" and "f k < g k"
  shows "sum_list (map f [0..<n]) < sum_list (map g [0..<n])"
proof -
  have "sum f {0..<n} < sum g {0..<n}"
    by (rule sum_strict_mono_ex1) (use assms in auto)
  then show ?thesis by (simp add: interv_sum_list_conv_sum_set_nat)
qed

text \<open>An instance that is not done is active.\<close>

lemma not_done_active:
  assumes "run_ok s" and "b < batch_size s" and "\<not> done_batch s b"
  shows "b \<in> set (batch_idxes s)"
proof -
  from assms(1,2) have iv: "inv s b"
    and n: "nums_opes s b = sum_list (map (nums_ope_batch s b) [0..<num_jobs s])"
    and c: "sched_count s b = min (N s b) (nums_opes s b)"
    and bi: "set (batch_idxes s) = {b. b < batch_size s \<and> N s b < nums_opes s b}"
    by (simp_all add: run_ok_def loop_ok_def count_ok_def)
  note so = invD(1)[OF iv] and ip = invD(2)[OF iv]
  from assms(3) inv_ptrD(6)[OF ip] obtain j where j: "j < num_jobs s"
    and nf: "\<not> mask_job_finish_batch s b j" by blast
  have "sched_count s b < sum_list (map (nums_ope_batch s b) [0..<num_jobs s])"
    unfolding sched_count_def
  proof (rule sum_list_upt_less[where k = j])
    fix j' assume j': "j' < num_jobs s"
    from inv_ptrD(2)[OF ip j'] static_okD(7)[OF so j']
    show "ope_step_batch s b j' - num_ope_biases_batch s b j' \<le> nums_ope_batch s b j'" by simp
  next
    show "j < num_jobs s" by (rule j)
    from inv_ptrD(1,2,5)[OF ip j] nf static_okD(5,7)[OF so j]
    show "ope_step_batch s b j - num_ope_biases_batch s b j < nums_ope_batch s b j" by simp
  qed
  with n c have "N s b < nums_opes s b" by simp
  with bi assms(2) show ?thesis by simp
qed

lemma done_step_update:
  assumes "inv s b" and "done_batch s b"
  shows "done_batch (step_update s a) b"
proof -
  from inv_ptrD(6)[OF invD(2)[OF assms(1)]] assms(2)
  have "\<forall>j<num_jobs s. mask_job_finish_batch s b j" by simp
  then show ?thesis by (simp add: step_update_finish tall_iff)
qed

lemma max_feat_step_update:
  assumes "inv s b" and "b < batch_size s" and "legal s b (p, ma, job)"
    and "act_of s a b = Some (p, ma, job)"
  shows "time s b \<le> max_feat (step_update s a)"
proof -
  let ?s = "step_update s a"
  note lf = legal_facts[OF assms(1,3)]
  note iv' = step_update_inv_active[OF assms(1,3,4)]
  note mk = step_update_masks(1)[OF assms(4), of job]
  from lf(4,9) mk have lt: "num_ope_biases_batch ?s b job < ope_step_batch ?s b job"
    and l: "ope_step_batch ?s b job - 1 = p" by (simp_all add: in_job_def)
  from assms(2) lf(1) have "b < batch_size ?s" "job < num_jobs ?s" by simp_all
  from sched_end_le_max_feat[OF iv' this lt] l
  have "sched_end ?s b p \<le> max_feat ?s" by simp
  with step_update_start(6)[OF assms(1,3,4) lf(3)] lf(5) show ?thesis by simp
qed

lemma sched_count_step_update:
  assumes "inv s b" and "legal s b (p, ma, job)" and "act_of s a b = Some (p, ma, job)"
  shows "sched_count (step_update s a) b = sched_count s b + 1"
proof -
  note lf = legal_facts[OF assms(1,2)]
  note mk = step_update_masks(1)[OF assms(3)]
  let ?f = "\<lambda>j. ope_step_batch s b j - num_ope_biases_batch s b j"
  have meq: "map (\<lambda>j. ope_step_batch (step_update s a) b j - num_ope_biases_batch s b j) [0..<num_jobs s]
      = map (\<lambda>j. if j = job then ?f j + 1 else ?f j) [0..<num_jobs s]"
  proof (intro map_cong refl)
    fix j assume "j \<in> set [0..<num_jobs s]"
    from lf(4,9) mk[of j]
    show "ope_step_batch (step_update s a) b j - num_ope_biases_batch s b j
        = (if j = job then ?f j + 1 else ?f j)" by (auto simp: in_job_def)
  qed
  show ?thesis
    unfolding sched_count_def step_update_static meq by (rule sum_list_upt_bump[OF lf(1)])
qed

lemma step_update_ok:
  assumes "run_ok s" and "legal_actions s a"
  shows "loop_ok (step_update s a)" "count_ok (step_update s a)"
proof -
  let ?s = "step_update s a"
  from assms(1) have bs: "0 < batch_size s" and iv: "\<And>b. b < batch_size s \<Longrightarrow> inv s b"
    and co: "count_ok s"
    and bi: "set (batch_idxes s) = {b. b < batch_size s \<and> N s b < nums_opes s b}"
    by (simp_all add: run_ok_def loop_ok_def)
  have iv': "inv ?s b" if b: "b < batch_size s" for b
  proof (cases "act_of s a b")
    case None
    from step_update_inv_inactive[OF iv[OF b] None] show ?thesis .
  next
    case (Some x)
    obtain p ma job where x: "x = (p, ma, job)" by (cases x)
    from legal_act[OF assms(2) Some] Some x step_update_inv_active[OF iv[OF b]]
    show ?thesis by simp
  qed
  have ck: "clock_ok ?s"
    unfolding clock_ok_def
  proof (intro allI impI)
    fix b assume b': "b < batch_size ?s" and nd': "\<not> done_batch ?s b"
    from b' have b: "b < batch_size s" by simp
    from nd' done_step_update[OF iv[OF b], of a] have "\<not> done_batch s b" by blast
    from not_done_active[OF assms(1) b this] act_of_active[OF assms(2), where b = b]
    obtain x where x: "act_of s a b = Some x" by blast
    obtain p ma job where e: "x = (p, ma, job)" by (cases x)
    from legal_act[OF assms(2) x] e have lg: "legal s b (p, ma, job)" by simp
    from x e have "act_of s a b = Some (p, ma, job)" by simp
    from max_feat_step_update[OF iv[OF b] b lg this]
    show "time ?s b \<le> max_feat ?s + 1" by simp
  qed
  from bs iv' ck show "loop_ok ?s" by (simp add: loop_ok_def)
  show "count_ok ?s"
    unfolding count_ok_def
  proof (intro allI impI)
    fix b assume b': "b < batch_size ?s"
    then have b: "b < batch_size s" by simp
    from co b have n: "nums_opes s b = sum_list (map (nums_ope_batch s b) [0..<num_jobs s])"
      and c: "sched_count s b = min (N s b) (nums_opes s b)" by (simp_all add: count_ok_def)
    have "sched_count ?s b = min (N s b + 1) (nums_opes s b)"
    proof (cases "act_of s a b")
      case None
      with act_of_active[OF assms(2), where b = b] have "b \<notin> set (batch_idxes s)" by simp
      with bi b have "\<not> N s b < nums_opes s b" by simp
      moreover from None have "sched_count ?s b = sched_count s b"
        by (simp add: sched_count_def step_update_inactive(5))
      ultimately show ?thesis using c by simp
    next
      case (Some x)
      obtain p ma job where e: "x = (p, ma, job)" by (cases x)
      from Some have "\<exists>x. act_of s a b = Some x" by blast
      with act_of_active[OF assms(2), where b = b] have "b \<in> set (batch_idxes s)" by simp
      with bi have "N s b < nums_opes s b" by simp
      moreover from legal_act[OF assms(2) Some] e Some sched_count_step_update[OF iv[OF b]]
      have "sched_count ?s b = sched_count s b + 1" by simp
      ultimately show ?thesis using c by simp
    qed
    with n show "nums_opes ?s b = sum_list (map (nums_ope_batch ?s b) [0..<num_jobs ?s])
        \<and> sched_count ?s b = min (N ?s b) (nums_opes ?s b)" by simp
  qed
qed

lemma kept_inv_parts:
  assumes "kept s s'"
  shows "in_job s' b j i = in_job s b j i" "scheduled s' b i = scheduled s b i"
    "sched_end s' b i = sched_end s b i" "chosen_machine s' b i = chosen_machine s b i"
    "sched_count s' b = sched_count s b" "max_feat s' = max_feat s"
  using assms
  by (simp_all add: kept_def in_job_def scheduled_def sched_end_def chosen_machine_def
      sched_count_def max_feat_def)

lemma count_ok_kept:
  assumes "kept s s'" and "count_ok s"
  shows "count_ok s'"
  using assms(2) unfolding count_ok_def kept_inv_parts[OF assms(1)]
  using assms(1) by (simp add: kept_def)

lemma step_finish_derived [simp]:
  "in_job (step_finish s) b j i = in_job s b j i" "scheduled (step_finish s) b i = scheduled s b i"
  "sched_end (step_finish s) b i = sched_end s b i"
  "chosen_machine (step_finish s) b i = chosen_machine s b i"
  "sched_count (step_finish s) b = sched_count s b" "max_feat (step_finish s) = max_feat s"
  "static_ok (step_finish s) b = static_ok s b"
  "inv_ptr (step_finish s) b = inv_ptr s b" "inv_rows (step_finish s) b = inv_rows s b"
  "inv_sched (step_finish s) b = inv_sched s b" "inv_run (step_finish s) b = inv_run s b"
  "inv_est (step_finish s) b = inv_est s b"
proof -
  show a: "\<And>j i. in_job (step_finish s) b j i = in_job s b j i" by (simp add: in_job_def)
  show c: "\<And>i. scheduled (step_finish s) b i = scheduled s b i" by (simp add: scheduled_def a)
  show d: "\<And>i. sched_end (step_finish s) b i = sched_end s b i" by (simp add: sched_end_def)
  show e: "\<And>i. chosen_machine (step_finish s) b i = chosen_machine s b i"
    by (simp add: chosen_machine_def)
  show "sched_count (step_finish s) b = sched_count s b" by (simp add: sched_count_def)
  show "max_feat (step_finish s) = max_feat s" by (simp add: max_feat_def)
  show "static_ok (step_finish s) b = static_ok s b" by (simp add: static_ok_def a)
  show "inv_ptr (step_finish s) b = inv_ptr s b" by (simp add: inv_ptr_def c)
  show "inv_rows (step_finish s) b = inv_rows s b" by (simp add: inv_rows_def c)
  show "inv_sched (step_finish s) b = inv_sched s b" by (simp add: inv_sched_def c d e)
  show "inv_run (step_finish s) b = inv_run s b" by (simp add: inv_run_def c d e)
  show "inv_est (step_finish s) b = inv_est s b" by (simp add: inv_est_def a d)
qed

lemma step_finish_ok:
  assumes "loop_ok s" and "count_ok s"
    and "set (batch_idxes s) = {b. b < batch_size s \<and> N s b < Suc (nums_opes s b)}"
  shows "run_ok (step_finish s)"
proof -
  have bi: "batch_idxes (step_finish s)
      = (if \<not> tall (\<lambda>b. N s b + 1 \<le> nums_opes s b) (batch_size s)
         then filter (\<lambda>b. N s b + 1 \<le> nums_opes s b) [0..<batch_size s] else batch_idxes s)"
    by (simp add: step_finish_def Let_def)
  have "set (batch_idxes (step_finish s)) = {b. b < batch_size s \<and> N s b < nums_opes s b}"
  proof (cases "tall (\<lambda>b. N s b + 1 \<le> nums_opes s b) (batch_size s)")
    case True
    with bi assms(3) show ?thesis by (auto simp: tall_iff)
  next
    case False
    with bi show ?thesis by auto
  qed
  moreover from assms(1) have "loop_ok (step_finish s)"
    by (simp add: loop_ok_def inv_def clock_ok_def)
  moreover from assms(2) have "count_ok (step_finish s)" by (simp add: count_ok_def)
  ultimately show ?thesis by (simp add: run_ok_def)
qed

lemma init_run_ok:
  assumes wf: "wf_load bs nj nm n ld" and init: "init bs nj nm n ld = Inr s"
  shows "run_ok s"
proof -
  note d = init_dims[OF init] and st = init_static[OF init]
  have iv: "inv s b" if "b < batch_size s" for b
    using init_inv[OF wf init] that d(1) by simp
  have ck: "clock_ok s"
    unfolding clock_ok_def
  proof (intro allI impI)
    fix b assume b: "b < batch_size s"
    note so = invD(1)[OF iv[OF b]] and isc = invD(4)[OF iv[OF b]] and ie = invD(6)[OF iv[OF b]]
    from static_okD(3)[OF so] have z: "0 < num_opes s" .
    from static_okD(9)[OF so z] static_okD(6)[OF so]
    have e: "end_ope_biases_batch s b (opes_appertain_batch s b 0) < num_opes s" by simp
    from inv_estD(2)[OF ie z] inv_estD(4)[OF ie e] inv_schedD(2)[OF isc e]
    have "0 \<le> feat_opes_batch s b 4 0" by (simp add: sched_end_def)
    with max_feat_ge[OF b z] d(7) show "time s b \<le> max_feat s + 1" by simp
  qed
  have co: "count_ok s"
    using st(5,6,8,10,11) d(2) by (simp add: count_ok_def sched_count_def)
  have "0 < nums_opes s b" if b: "b < batch_size s" for b
  proof -
    note so = invD(1)[OF iv[OF b]]
    from static_okD(1,5)[OF so] have "in_job s b 0 (num_ope_biases_batch s b 0)"
      by (simp add: in_job_def)
    with static_okD(11)[OF so, of "num_ope_biases_batch s b 0"] show ?thesis by auto
  qed
  with st(9,10) d(1) have "set (batch_idxes s) = {b. b < batch_size s \<and> N s b < nums_opes s b}"
    by auto
  with d(1,5) iv ck co show ?thesis by (simp add: run_ok_def loop_ok_def)
qed

lemma step_run_ok:
  assumes "run_ok s" and "legal_actions s a" and "step s a = Some (Inr s')"
  shows "run_ok s'" "batch_size s' = batch_size s" "b < batch_size s \<Longrightarrow> time s b \<le> time s' b"
proof -
  from assms(3) obtain s1 where s1: "time_advance (step_update s a) = Some (Inr s1)"
    and s': "s' = step_finish s1" by (rule step_Inr_D)
  note ok = step_update_ok[OF assms(1,2)]
  from time_advance_returns[OF ok(1)] s1 have l1: "loop_ok s1" and k: "kept (step_update s a) s1"
    and t: "\<forall>b<batch_size s. time (step_update s a) b \<le> time s1 b" by auto
  from assms(1) have bi: "set (batch_idxes s) = {b. b < batch_size s \<and> N s b < nums_opes s b}"
    by (simp add: run_ok_def)
  from k bi have "set (batch_idxes s1) = {b. b < batch_size s1 \<and> N s1 b < Suc (nums_opes s1 b)}"
    by (simp add: kept_def)
  from step_finish_ok[OF l1 count_ok_kept[OF k ok(2)] this] s' show "run_ok s'" by simp
  from k s' show "batch_size s' = batch_size s" by (simp add: kept_def)
  from t s' show "b < batch_size s \<Longrightarrow> time s b \<le> time s' b" by simp
qed

lemma next_time_run_ok:
  assumes "run_ok s" and "next_time flag s = Inr s'"
  shows "run_ok s'" "batch_size s' = batch_size s" "b < batch_size s \<Longrightarrow> time s b \<le> time s' b"
proof -
  from assms(1) have l: "loop_ok s" and c: "count_ok s"
    and bi: "set (batch_idxes s) = {b. b < batch_size s \<and> N s b < nums_opes s b}"
    by (simp_all add: run_ok_def)
  note k = next_time_kept[OF assms(2)]
  from k bi have "set (batch_idxes s') = {b. b < batch_size s' \<and> N s' b < nums_opes s' b}"
    by (simp add: kept_def)
  with loop_ok_next_time(1)[OF l assms(2)] count_ok_kept[OF k c] show "run_ok s'"
    by (simp add: run_ok_def)
  from k show "batch_size s' = batch_size s" by (simp add: kept_def)
  from loop_ok_next_time(2)[OF l assms(2)] show "b < batch_size s \<Longrightarrow> time s b \<le> time s' b" .
qed

text \<open>Legal runs keep \<open>run_ok\<close>, and their clocks do not go back.\<close>

lemma legal_reaches_run_ok:
  assumes "legal_reaches s s'" and "run_ok s"
  shows "run_ok s' \<and> batch_size s' = batch_size s \<and> (\<forall>b<batch_size s. time s b \<le> time s' b)"
  using assms
proof (induction rule: legal_reaches.induct)
  case legal_start
  then show ?case by simp
next
  case (legal_step s1 actions s2)
  from legal_step(4)[OF legal_step(5)] have r: "run_ok s1" and b: "batch_size s1 = batch_size s"
    and t: "\<forall>b<batch_size s. time s b \<le> time s1 b" by simp_all
  note n = step_run_ok[OF r legal_step(2,3)]
  have "\<forall>b<batch_size s. time s b \<le> time s2 b"
  proof (intro allI impI)
    fix b' assume b': "b' < batch_size s"
    with n(3)[of b'] b t show "time s b' \<le> time s2 b'" by fastforce
  qed
  with n(1,2) b show ?case by simp
next
  case (legal_next_time s1 flag s2)
  from legal_next_time(3)[OF legal_next_time(4)] have r: "run_ok s1"
    and b: "batch_size s1 = batch_size s"
    and t: "\<forall>b<batch_size s. time s b \<le> time s1 b" by simp_all
  note n = next_time_run_ok[OF r legal_next_time(2)]
  have "\<forall>b<batch_size s. time s b \<le> time s2 b"
  proof (intro allI impI)
    fix b' assume b': "b' < batch_size s"
    with n(3)[of b'] b t show "time s b' \<le> time s2 b'" by fastforce
  qed
  with n(1,2) b show ?case by simp
qed


lemma wf_a: "wf_load 1 1 2 2 ld_a"
  by (simp add: wf_load_def wf_instance_def tall_iff tany_iff ld_a_def all_less_1 all_less_2
      ex_less_2 upt_0_1 less_Suc_eq)

lemma legal_a: "legal_actions env_a [(0, 0, 0)]"
  by (simp add: legal_actions_def legal_def env_a_static env_a_simps upt_0_1 ld_a_def)

section \<open>The clock of an instance\<close>

text \<open>
  C6 (as the code has it, for legal decisions).  From the state constructed from a
  well-formed load, through any sequence of calls of \<open>step\<close> with legal decision
  batches and of \<open>next_time\<close> with any flags, the clock of an instance never goes
  back: it is at least what it was at every earlier point of the sequence.
\<close>

theorem clock_never_goes_back:
  assumes "wf_load bs nj nm n ld" and "init bs nj nm n ld = Inr s0"
    and "legal_reaches s0 s" and "legal_reaches s s'" and "b < bs"
  shows "time s b \<le> time s' b"
proof -
  note r0 = init_run_ok[OF assms(1,2)]
  from legal_reaches_run_ok[OF assms(3) r0] init_dims(1)[OF assms(2)]
  have r: "run_ok s" and bs: "batch_size s = bs" by simp_all
  from legal_reaches_run_ok[OF assms(4) r] bs assms(5) show ?thesis by simp
qed

lemma reach_a3: "legal_reaches env_a env_a3"
  by (rule legal_step[OF legal_start legal_a step_a])

theorem clock_never_goes_back_witness:
  "wf_load 1 1 2 2 ld_a \<and> init 1 1 2 2 ld_a = Inr env_a \<and> legal_reaches env_a env_a3
   \<and> time env_a 0 = 0 \<and> time env_a3 0 = 3 \<and> time env_a 0 \<le> time env_a3 0"
  using clock_never_goes_back[OF wf_a init_a legal_start reach_a3, of 0] wf_a init_a reach_a3
  by (simp add: env_a_simps env_a3_def env_a2_fields)

section \<open>The bound of the time-advance loop\<close>



section \<open>The schedule of a completed instance\<close>













section \<open>Completed instances pass the validator\<close>


lemma env_a3_state:
  "batch_idxes env_a3 = [0]" "batch_size env_a3 = Suc 0" "num_jobs env_a3 = Suc 0"
  "num_mas env_a3 = 2" "num_opes env_a3 = 2"
  "ope_step_batch env_a3 0 0 = Suc 0" "proc_times_batch env_a3 0 (Suc 0) 0 = 2"
  "\<not> mask_ma_procing_batch env_a3 0 m" "\<not> mask_job_procing_batch env_a3 0 0"
  "\<not> mask_job_finish_batch env_a3 0 0" "end_ope_biases_batch env_a3 0 0 = Suc 0"
  "opes_appertain_batch env_a3 0 i = 0"
proof -
  have "N env_a2 0 + 1 \<le> nums_opes env_a2 0"
    using kept_a2 by (simp add: kept_def env_a1_def env_a_static upt_0_1 ld_a_def)
  moreover have "batch_idxes env_a2 = [0]" "batch_size env_a2 = Suc 0"
    using kept_a2 by (simp_all add: kept_def env_a1_def env_a_static env_a_simps upt_0_1)
  ultimately show "batch_idxes env_a3 = [0]"
    by (simp add: env_a3_def step_finish_def Let_def tall_iff)
  from kept_a2
  show "batch_size env_a3 = Suc 0" "num_jobs env_a3 = Suc 0" "num_mas env_a3 = 2"
    "num_opes env_a3 = 2" "ope_step_batch env_a3 0 0 = Suc 0"
    "proc_times_batch env_a3 0 (Suc 0) 0 = 2" "end_ope_biases_batch env_a3 0 0 = Suc 0"
    by (simp_all add: env_a3_def kept_def env_a1_dims env_a1_masks env_a1_proc)
  show "\<not> mask_ma_procing_batch env_a3 0 m" "\<not> mask_job_procing_batch env_a3 0 0"
    "\<not> mask_job_finish_batch env_a3 0 0"
    by (simp_all add: env_a3_def env_a2_fields)
  from kept_a2 show "opes_appertain_batch env_a3 0 i = 0"
    by (simp add: env_a3_def kept_def env_a1_def env_a_static ld_a_def)
qed

lemma act_of_a3: "act_of env_a3 [(1, 0, 0)] 0 = Some (1, 0, 0)"
  by (simp add: act_of_def env_a3_state)

lemma legal_a3: "legal_actions env_a3 [(1, 0, 0)]"
  by (simp add: legal_actions_def legal_def env_a3_state)

lemma step_check_a3: "step_check env_a3 [(1, 0, 0)] = None"
  by (simp add: step_check_def env_a3_state tall_iff all_less_1 all_less_2)

lemma done_a4: "done_batch env_a4 0"
  using step_update_masks(1)[OF act_of_a3, of 0]
  by (simp add: env_a4_def step_update_finish env_a3_state tall_iff)

lemma step_a3: "step env_a3 [(1, 0, 0)] = Some (Inr env_a4)"
proof -
  from legal_reaches_run_ok[OF reach_a3 init_run_ok[OF wf_a init_a]] have r: "run_ok env_a3"
    by simp
  from step_update_ok(1)[OF r legal_a3] have "loop_ok (step_update env_a3 [(1, 0, 0)])" .
  then have "\<And>b. b < batch_size (step_update env_a3 [(1, 0, 0)]) \<Longrightarrow>
      static_ok (step_update env_a3 [(1, 0, 0)]) b"
    using invD(1) unfolding loop_ok_def by blast
  from if_no_eligible_returns[OF this] obtain flag
    where f: "if_no_eligible (step_update env_a3 [(1, 0, 0)]) = Inr flag" by blast
  from done_a4 have "\<not> need_trans (step_update env_a3 [(1, 0, 0)]) flag"
    by (simp add: need_trans_def tany_iff env_a3_state env_a4_def)
  from step_no_trans[OF step_check_a3 f this] show ?thesis by (simp add: env_a4_def)
qed



section \<open>A decision for an ineligible machine and the loop\<close>














section \<open>A run with decisions that are not legal\<close>

lemma tsum_3: "tsum f 3 = f 0 + f (Suc 0) + f 2"
  by (simp add: numeral_3_eq_3 numeral_2_eq_2)

lemma tmax_3: "tmax f 3 = max (max (f 0) (f (Suc 0))) (f 2)"
  by (simp add: numeral_3_eq_3 numeral_2_eq_2)

lemma all_less_3: "(\<forall>i<3. P i) \<longleftrightarrow> P 0 \<and> P (Suc 0) \<and> P 2"
  by (auto simp: numeral_3_eq_3 numeral_2_eq_2 less_Suc_eq)

lemma init_c: "init 1 1 1 3 ld_c = Inr env_c"
  by (simp add: env_c_def init_def Let_def tall_iff ld_c_def)

lemmas env_c_simps = init_dims[OF init_c]

lemmas env_c_static = init_static[OF init_c]

lemma wf_c: "wf_load 1 1 1 3 ld_c"
  by (simp add: wf_load_def wf_instance_def tall_iff tany_iff ld_c_def all_less_1 all_less_3
      upt_0_1)

lemma act_of_c: "act_of env_c [(2, 0, 0)] 0 = Some (2, 0, 0)"
  by (simp add: act_of_def env_c_static upt_0_1)

lemma step_check_c: "step_check env_c [(2, 0, 0)] = None"
  by (simp add: step_check_def env_c_simps env_c_static tall_iff ld_c_def upt_0_1)

lemma env_c_feat:
  "feat_opes_batch env_c 0 0 i = 0"
  by (simp_all add: init_feat[OF init_c])

lemma env_c1_dims:
  "batch_size env_c1 = Suc 0" "num_jobs env_c1 = Suc 0" "num_mas env_c1 = Suc 0"
  "num_opes env_c1 = 3" "time env_c1 = (\<lambda>b. 0)" "end_ope_biases_batch env_c1 0 0 = 2"
  "opes_appertain_batch env_c1 0 i = 0" "num_ope_biases_batch env_c1 0 0 = 0"
  "batch_idxes env_c1 = [0]" "N env_c1 0 = Suc 0" "nums_opes env_c1 0 = 3"
  by (simp_all add: env_c1_def env_c_simps env_c_static ld_c_def upt_0_1)

lemma env_c1_masks:
  "mask_ma_procing_batch env_c1 0 m = (m = 0)"
  "mask_job_procing_batch env_c1 0 0"
  "\<not> mask_job_finish_batch env_c1 0 0"
  "ope_step_batch env_c1 0 0 = Suc 0"
  "\<not> done_batch env_c1 0"
  by (simp_all add: env_c1_def step_update_masks[OF act_of_c] step_update_finish
      env_c_simps env_c_static ld_c_def tall_iff)

lemma env_c1_machines:
  "machines_batch env_c1 0 m 0 = (if m = 0 then 0 else 1)"
  "machines_batch env_c1 0 m (Suc 0) = (if m = 0 then 1 else 0)"
  "machines_batch env_c1 0 m 3 = 0"
  by (simp_all add: env_c1_def step_update_machines[OF act_of_c] step_update_machines_1[OF act_of_c]
      env_c_simps env_c_static ld_c_def)

lemma env_c1_proc:
  "proc_times_batch env_c1 0 0 0 = 5" "proc_times_batch env_c1 0 (Suc 0) 0 = 1"
  "proc_times_batch env_c1 0 2 0 = 1"
  by (simp_all add: env_c1_def step_update_proc_times step_update_schedule_active[OF act_of_c]
      env_c_static ld_c_def)

lemma env_c1_feat:
  "feat_opes_batch env_c1 0 0 2 = 1" "feat_opes_batch env_c1 0 2 2 = 1"
  "feat_opes_batch env_c1 0 5 2 = 0" "feat_opes_batch env_c1 0 4 i = 1"
proof -
  show a: "feat_opes_batch env_c1 0 0 2 = 1" "feat_opes_batch env_c1 0 2 2 = 1"
    by (simp_all add: env_c1_def step_update_feat[OF act_of_c] env_c_static ld_c_def)
  show c: "feat_opes_batch env_c1 0 5 2 = 0"
    using a step_update_feat5[OF act_of_c, of 2]
    by (simp add: env_c1_def env_c_simps)
  from a c show "feat_opes_batch env_c1 0 4 i = 1"
    by (simp add: env_c1_def step_update_feat4[OF act_of_c] env_c_static ld_c_def)
qed

lemma flag_c1: "if_no_eligible env_c1 = Inr flag_c1" "flag_c1 0 = 0"
proof -
  have "\<exists>f. if_no_eligible env_c1 = Inr f \<and> f 0 = 0"
    by (simp add: if_no_eligible_def Let_def env_c1_dims env_c1_masks tall_iff)
  then show "if_no_eligible env_c1 = Inr flag_c1" "flag_c1 0 = 0"
    by (auto simp: flag_c1_def)
qed

lemma max_feat_c1: "max_feat env_c1 = 1"
  by (simp add: max_feat_def env_c1_dims env_c1_feat tmax_3)

lemma next_clock_c1: "next_clock env_c1 0 = 1"
  by (simp add: next_clock_Suc env_c1_dims env_c1_machines max_feat_c1)

lemma freed_c1: "freed flag_c1 env_c1 0 m = (m = 0)"
  by (simp add: freed_Suc flag_need_trans_def flag_c1 env_c1_masks env_c1_machines next_clock_c1)

lemma next_time_c1: "next_time flag_c1 env_c1 = Inr env_c2"
proof -
  have "next_time_check flag_c1 env_c1 = None"
    by (rule next_time_check_None)
      (simp_all add: env_c1_dims env_c1_machines py_index_def trunc_def)
  then show ?thesis by (simp add: next_time_def env_c2_def)
qed

lemma env_c2_eq: "env_c2 = next_time_update flag_c1 env_c1"
  using next_time_c1 by (simp add: next_time_Inr_iff)

lemma kept_c2: "kept env_c1 env_c2"
  by (rule next_time_kept[OF next_time_c1])

lemma env_c2_fields:
  "time env_c2 0 = 1"
  "mask_ma_procing_batch env_c2 0 m = False"
  "mask_job_procing_batch env_c2 0 0 = False"
  "mask_job_finish_batch env_c2 0 0 = False"
  "machines_batch env_c2 0 m (Suc 0) = (if m = 0 then 1 else 0)"
  "machines_batch env_c2 0 m 0 = 1"
  by (auto simp: env_c2_eq next_time_update_fields freed_c1 freed_jobs_def flag_need_trans_def
      flag_c1 env_c1_masks env_c1_machines env_c1_dims next_clock_c1 tany_iff py_index_def
      trunc_def)

lemma flag_c2: "\<exists>f. if_no_eligible env_c2 = Inr f \<and> f 0 = 1"
  using kept_c2
  by (simp add: if_no_eligible_def Let_def kept_def env_c1_dims env_c1_masks env_c1_proc
      env_c2_fields tall_iff)

lemma time_advance_c1: "time_advance env_c1 = Some (Inr env_c2)"
proof -
  from flag_c2 obtain f where f: "if_no_eligible env_c2 = Inr f" "f 0 = 1" by blast
  from f(2) kept_c2 have "\<not> need_trans env_c2 f"
    by (simp add: need_trans_def tany_iff kept_def env_c1_dims)
  with f(1) have 2: "time_advance env_c2 = Some (Inr env_c2)"
    by (subst time_advance.simps) simp
  have "need_trans env_c1 flag_c1"
    by (simp add: need_trans_def tany_iff env_c1_dims flag_c1 env_c1_masks)
  with flag_c1(1) next_time_c1 2 show ?thesis
    by (subst time_advance.simps) simp
qed

lemma step_c: "step env_c [(2, 0, 0)] = Some (Inr env_c3)"
  using step_check_c time_advance_c1 by (simp add: step_def env_c1_def env_c3_def)


lemma env_c3_state:
  "batch_idxes env_c3 = [0]" "batch_size env_c3 = Suc 0" "num_jobs env_c3 = Suc 0"
  "num_mas env_c3 = Suc 0" "num_opes env_c3 = 3" "time env_c3 0 = 1"
  "ope_step_batch env_c3 0 0 = Suc 0" "end_ope_biases_batch env_c3 0 0 = 2"
  "opes_appertain_batch env_c3 0 i = 0" "num_ope_biases_batch env_c3 0 0 = 0"
  "proc_times_batch env_c3 0 0 0 = 5" "proc_times_batch env_c3 0 2 0 = 1"
  "feat_opes_batch env_c3 0 0 2 = 1" "feat_opes_batch env_c3 0 2 2 = 1"
  "feat_opes_batch env_c3 0 5 2 = 0"
  "\<not> mask_ma_procing_batch env_c3 0 m" "\<not> mask_job_procing_batch env_c3 0 0"
  "\<not> mask_job_finish_batch env_c3 0 0"
  "machines_batch env_c3 0 m (Suc 0) = (if m = 0 then 1 else 0)"
proof -
  from kept_c2 have "N env_c2 0 + 1 \<le> nums_opes env_c2 0" "batch_idxes env_c2 = [0]"
    "batch_size env_c2 = Suc 0"
    by (simp_all add: kept_def env_c1_dims)
  then show "batch_idxes env_c3 = [0]"
    by (simp add: env_c3_def step_finish_def Let_def tall_iff)
  from kept_c2
  show "batch_size env_c3 = Suc 0" "num_jobs env_c3 = Suc 0" "num_mas env_c3 = Suc 0"
    "num_opes env_c3 = 3" "ope_step_batch env_c3 0 0 = Suc 0"
    "end_ope_biases_batch env_c3 0 0 = 2" "opes_appertain_batch env_c3 0 i = 0"
    "num_ope_biases_batch env_c3 0 0 = 0"
    "proc_times_batch env_c3 0 0 0 = 5" "proc_times_batch env_c3 0 2 0 = 1"
    "feat_opes_batch env_c3 0 0 2 = 1" "feat_opes_batch env_c3 0 2 2 = 1"
    "feat_opes_batch env_c3 0 5 2 = 0"
    by (simp_all add: env_c3_def kept_def env_c1_dims env_c1_masks env_c1_proc env_c1_feat)
  show "time env_c3 0 = 1" "\<not> mask_ma_procing_batch env_c3 0 m"
    "\<not> mask_job_procing_batch env_c3 0 0" "\<not> mask_job_finish_batch env_c3 0 0"
    "machines_batch env_c3 0 m (Suc 0) = (if m = 0 then 1 else 0)"
    by (simp_all add: env_c3_def env_c2_fields)
qed

lemma act_of_c3: "act_of env_c3 [(0, 0, 0)] 0 = Some (0, 0, 0)"
  by (simp add: act_of_def env_c3_state)

lemma step_check_c3: "step_check env_c3 [(0, 0, 0)] = None"
  by (simp add: step_check_def env_c3_state tall_iff all_less_1 all_less_3)

lemma env_c4_dims:
  "batch_size env_c4 = Suc 0" "num_jobs env_c4 = Suc 0" "num_mas env_c4 = Suc 0"
  "num_opes env_c4 = 3" "time env_c4 0 = 1" "end_ope_biases_batch env_c4 0 0 = 2"
  "batch_idxes env_c4 = [0]"
  by (simp_all add: env_c4_def env_c3_state)

lemma env_c4_masks:
  "mask_ma_procing_batch env_c4 0 m = (m = 0)"
  "mask_job_procing_batch env_c4 0 0"
  "\<not> mask_job_finish_batch env_c4 0 0"
  "ope_step_batch env_c4 0 0 = 2"
  "\<not> done_batch env_c4 0"
  by (simp_all add: env_c4_def step_update_masks[OF act_of_c3] step_update_finish
      env_c3_state tall_iff)

lemma env_c4_machines:
  "machines_batch env_c4 0 m 0 = (if m = 0 then 0 else machines_batch env_c3 0 m 0)"
  "machines_batch env_c4 0 m (Suc 0) = (if m = 0 then 6 else 0)"
  "machines_batch env_c4 0 0 3 = 0"
  by (simp_all add: env_c4_def step_update_machines[OF act_of_c3]
      step_update_machines_1[OF act_of_c3] env_c3_state)

lemma env_c4_proc: "proc_times_batch env_c4 0 2 0 = 1"
proof -
  from kept_c2 have "ope_ma_adj_batch env_c3 0 2 0 = 1"
    by (simp add: env_c3_def kept_def env_c1_def step_update_schedule_active[OF act_of_c])
  then show ?thesis
    by (simp add: env_c4_def step_update_proc_times step_update_schedule_active[OF act_of_c3]
        env_c3_state)
qed

lemma env_c4_feat4: "feat_opes_batch env_c4 0 4 i = 1"
proof -
  have a: "feat_opes_batch env_c4 0 0 2 = 1" "feat_opes_batch env_c4 0 2 2 = 1"
    by (simp_all add: env_c4_def step_update_feat[OF act_of_c3] env_c3_state)
  have c: "feat_opes_batch env_c4 0 5 2 = 0"
    using a step_update_feat5[OF act_of_c3, of 2]
    by (simp add: env_c4_def env_c3_state)
  from a c show ?thesis
    by (simp add: env_c4_def step_update_feat4[OF act_of_c3] env_c3_state)
qed

lemma flag_c4: "if_no_eligible env_c4 = Inr flag_c4" "flag_c4 0 = 0"
proof -
  have "\<exists>f. if_no_eligible env_c4 = Inr f \<and> f 0 = 0"
    by (simp add: if_no_eligible_def Let_def env_c4_dims env_c4_masks tall_iff)
  then show "if_no_eligible env_c4 = Inr flag_c4" "flag_c4 0 = 0"
    by (auto simp: flag_c4_def)
qed

lemma max_feat_c4: "max_feat env_c4 = 1"
  by (simp add: max_feat_def env_c4_dims env_c4_feat4 tmax_3)

lemma next_clock_c4: "next_clock env_c4 0 = 6"
  by (simp add: next_clock_Suc env_c4_dims env_c4_machines max_feat_c4)

lemma freed_c4: "freed flag_c4 env_c4 0 m = (m = 0)"
  by (simp add: freed_Suc flag_need_trans_def flag_c4 env_c4_masks env_c4_machines next_clock_c4)

lemma next_time_c4: "next_time flag_c4 env_c4 = Inr env_c5"
proof -
  have "next_time_check flag_c4 env_c4 = None"
  proof (rule next_time_check_None)
    show "num_mas env_c4 \<noteq> 0" "num_opes env_c4 \<noteq> 0" "batch_size env_c4 \<noteq> 0"
      by (simp_all add: env_c4_dims)
    fix b m assume "b < batch_size env_c4" and "freed flag_c4 env_c4 b m"
    then have "b = 0" "m = 0" by (simp_all add: env_c4_dims freed_c4)
    then show "py_index (trunc (machines_batch env_c4 b m 3)) (num_jobs env_c4) \<noteq> None"
      by (simp add: env_c4_machines env_c4_dims py_index_def trunc_def)
  qed
  then show ?thesis by (simp add: next_time_def env_c5_def)
qed

lemma env_c5_eq: "env_c5 = next_time_update flag_c4 env_c4"
  using next_time_c4 by (simp add: next_time_Inr_iff)

lemma kept_c5: "kept env_c4 env_c5"
  by (rule next_time_kept[OF next_time_c4])

lemma env_c5_fields:
  "time env_c5 0 = 6"
  "mask_ma_procing_batch env_c5 0 m = False"
  "mask_job_procing_batch env_c5 0 0 = False"
  "mask_job_finish_batch env_c5 0 0 = False"
  "machines_batch env_c5 0 m (Suc 0) = (if m = 0 then 6 else 0)"
  by (auto simp: env_c5_eq next_time_update_fields freed_c4 freed_jobs_def flag_need_trans_def
      flag_c4 env_c4_masks env_c4_machines env_c4_dims next_clock_c4 tany_iff py_index_def
      trunc_def)

lemma flag_c5: "\<exists>f. if_no_eligible env_c5 = Inr f \<and> f 0 = 1"
  using kept_c5
  by (simp add: if_no_eligible_def Let_def kept_def env_c4_dims env_c4_masks env_c4_proc
      env_c5_fields tall_iff)

lemma time_advance_c4: "time_advance env_c4 = Some (Inr env_c5)"
proof -
  from flag_c5 obtain f where f: "if_no_eligible env_c5 = Inr f" "f 0 = 1" by blast
  from f(2) kept_c5 have "\<not> need_trans env_c5 f"
    by (simp add: need_trans_def tany_iff kept_def env_c4_dims)
  with f(1) have 2: "time_advance env_c5 = Some (Inr env_c5)"
    by (subst time_advance.simps) simp
  have "need_trans env_c4 flag_c4"
    by (simp add: need_trans_def tany_iff env_c4_dims flag_c4 env_c4_masks)
  with flag_c4(1) next_time_c4 2 show ?thesis
    by (subst time_advance.simps) simp
qed

lemma step_c3: "step env_c3 [(0, 0, 0)] = Some (Inr env_c6)"
  using step_check_c3 time_advance_c4 by (simp add: step_def env_c4_def env_c6_def)

lemma env_c6_state:
  "batch_size env_c6 = Suc 0" "num_jobs env_c6 = Suc 0" "num_mas env_c6 = Suc 0"
  "num_opes env_c6 = 3" "time env_c6 0 = 6" "max_feat env_c6 = 1" "\<not> done_batch env_c6 0"
  "machines_batch env_c6 0 m (Suc 0) = (if m = 0 then 6 else 0)"
proof -
  from kept_c5
  show "batch_size env_c6 = Suc 0" "num_jobs env_c6 = Suc 0" "num_mas env_c6 = Suc 0"
    "num_opes env_c6 = 3" "\<not> done_batch env_c6 0"
    by (simp_all add: env_c6_def kept_def env_c4_dims env_c4_masks)
  show "time env_c6 0 = 6" "machines_batch env_c6 0 m (Suc 0) = (if m = 0 then 6 else 0)"
    by (simp_all add: env_c6_def env_c5_fields)
  from kept_inv_parts(6)[OF kept_c5] show "max_feat env_c6 = 1"
    by (simp add: env_c6_def max_feat_c4)
qed

lemma next_clock_c6: "next_clock env_c6 0 = 2"
  by (simp add: next_clock_Suc env_c6_state)

lemma next_time_c6: "next_time (\<lambda>b. 0) env_c6 = Inr env_c7"
proof -
  have "next_time_check (\<lambda>b. 0) env_c6 = None"
  proof (rule next_time_check_None)
    show "num_mas env_c6 \<noteq> 0" "num_opes env_c6 \<noteq> 0" "batch_size env_c6 \<noteq> 0"
      by (simp_all add: env_c6_state)
    fix b m assume "b < batch_size env_c6" and "freed (\<lambda>b. 0) env_c6 b m"
    then have False by (simp add: env_c6_state freed_Suc next_clock_c6 split: if_splits)
    then show "py_index (trunc (machines_batch env_c6 b m 3)) (num_jobs env_c6) \<noteq> None" ..
  qed
  then show ?thesis by (simp add: next_time_def env_c7_def)
qed

lemma time_c7: "time env_c7 0 = 2"
proof -
  from next_time_c6 have e: "env_c7 = next_time_update (\<lambda>b. 0) env_c6"
    by (simp add: next_time_Inr_iff)
  show ?thesis
    unfolding e
    by (simp add: next_time_update_fields(1) flag_need_trans_def env_c6_state next_clock_c6)
qed

text \<open>
  On the well-formed \<open>ld_c\<close> the two calls of \<open>step\<close> return and leave the clock at 6,
  where the one machine becomes available, while the largest completion feature is
  that of the first decision, 1.  The call of \<open>next_time\<close> then moves the clock to 2.
\<close>

theorem clock_goes_back_after_illegal_decisions:
  "wf_load 1 1 1 3 ld_c \<and> init 1 1 1 3 ld_c = Inr env_c
   \<and> step env_c [(2, 0, 0)] = Some (Inr env_c3) \<and> step env_c3 [(0, 0, 0)] = Some (Inr env_c6)
   \<and> next_time (\<lambda>b. 0) env_c6 = Inr env_c7
   \<and> time env_c6 0 = 6 \<and> time env_c7 0 = 2 \<and> time env_c7 0 < time env_c6 0"
  using wf_c init_c step_c step_c3 next_time_c6 time_c7 by (simp add: env_c6_state)

section \<open>A pruned arc on ld_a\<close>

text \<open>On \<open>ld_a\<close> operation 1 can run on machine 0 (2 time units) and on machine 1 (4).
  The second call of \<open>step\<close> gives it to machine 0: the arc to machine 1 leaves the
  adjacency and its processing time becomes 0, and a later call of \<open>next_time\<close> keeps
  it so.\<close>

lemma reaches_a4: "reaches env_a env_a4"
  by (rule reaches_step[OF reaches_step[OF reaches_start step_a] step_a3])

lemma arc_a3: "ope_ma_adj_batch env_a3 0 1 1 = 1" "proc_times_batch env_a3 0 1 1 = 4"
  using kept_a2 env_a1_proc(2)
  by (simp_all add: env_a3_def kept_def env_a1_def step_update_schedule_active[OF act_of_a]
      env_a_static ld_a_def)

lemma next_time_a4: "\<exists>s5. next_time (\<lambda>b. 0) env_a4 = Inr s5"
proof -
  have d: "batch_size env_a4 = Suc 0" "num_mas env_a4 = 2" "num_opes env_a4 = 2"
    by (simp_all add: env_a4_def env_a3_state)
  have "next_time_check (\<lambda>b. 0) env_a4 = None"
  proof (rule next_time_check_None)
    from d show "num_mas env_a4 \<noteq> 0" "num_opes env_a4 \<noteq> 0" "batch_size env_a4 \<noteq> 0"
      by simp_all
    fix b m assume "b < batch_size env_a4" and "freed (\<lambda>b. 0) env_a4 b m"
    with d done_a4 have False by (simp add: freed_def flag_need_trans_def)
    then show "py_index (trunc (machines_batch env_a4 b m 3)) (num_jobs env_a4) \<noteq> None" ..
  qed
  then show ?thesis by (simp add: next_time_def)
qed

theorem scheduled_row_pruned_witness:
  "reaches env_a env_a3 \<and> step env_a3 [(1, 0, 0)] = Some (Inr env_a4)
   \<and> ope_ma_adj_batch env_a3 0 1 1 = 1 \<and> proc_times_batch env_a3 0 1 1 = 4
   \<and> schedules_batch env_a4 0 1 0 = 1 \<and> chosen_machine env_a4 0 1 = 0
   \<and> pruned_row env_a4 0 1 0
   \<and> ope_ma_adj_batch env_a4 0 1 0 = 1 \<and> ope_ma_adj_batch env_a4 0 1 1 = 0
   \<and> proc_times_batch env_a4 0 1 1 = 0
   \<and> (\<exists>s5. next_time (\<lambda>b. 0) env_a4 = Inr s5 \<and> schedules_batch s5 0 1 0 = 1
          \<and> pruned_row s5 0 1 (chosen_machine s5 0 1) \<and> proc_times_batch s5 0 1 1 = 0)"
proof -
  have r3: "reaches env_a env_a3" by (rule reaches_step[OF reaches_start step_a])
  note sc = step_chosen_machine[OF step_a3 act_of_a3]
  note th = scheduled_row_pruned[OF init_a reaches_a4 sc(1)]
  from th sc(2) have p4: "pruned_row env_a4 0 1 0" by simp
  have n: "num_mas env_a4 = 2" by (simp add: env_a4_def env_a3_state)
  from p4 n have e4: "ope_ma_adj_batch env_a4 0 1 0 = 1" "ope_ma_adj_batch env_a4 0 1 1 = 0"
    "proc_times_batch env_a4 0 1 1 = 0"
    by (simp_all add: pruned_row_def tall_iff all_less_2)
  from next_time_a4 obtain s5 where s5: "next_time (\<lambda>b. 0) env_a4 = Inr s5" ..
  have r5: "reaches env_a4 s5" by (rule reaches_next_time[OF reaches_start s5])
  from th r5 have l: "schedules_batch s5 0 1 0 = 1" "pruned_row s5 0 1 (chosen_machine s5 0 1)"
    by blast+
  from next_time_kept[OF s5] e4(3) have "proc_times_batch s5 0 1 1 = 0" by (simp add: kept_def)
  with s5 l have "\<exists>s5. next_time (\<lambda>b. 0) env_a4 = Inr s5 \<and> schedules_batch s5 0 1 0 = 1
      \<and> pruned_row s5 0 1 (chosen_machine s5 0 1) \<and> proc_times_batch s5 0 1 1 = 0" by blast
  with r3 step_a3 arc_a3 sc p4 e4 show ?thesis by simp
qed

section \<open>Rounding to float32\<close>

lemma rne_of_int [simp]: "rne (of_int k) = k"
  by (simp add: rne_def)

lemma f32_0 [simp]: "f32 0 = 0"
  by (simp add: f32_def)

lemma f32_at:
  assumes "2 powr of_int (e + 23) \<le> \<bar>x\<bar>" and "\<bar>x\<bar> < 2 powr of_int (e + 24)"
  shows "f32 x = of_int (rne (x / 2 powr of_int e)) * 2 powr of_int e"
proof -
  from assms(1) have pos: "0 < \<bar>x\<bar>"
    by (smt (verit) powr_gt_zero)
  then have nz: "x \<noteq> 0" by simp
  from assms(1) pos have "of_int (e + 23) \<le> log 2 \<bar>x\<bar>"
    by (simp add: le_log_iff)
  moreover from assms(2) pos have "log 2 \<bar>x\<bar> < of_int (e + 23) + 1"
    by (simp add: log_less_iff add.commute)
  ultimately have "\<lfloor>log 2 \<bar>x\<bar>\<rfloor> = e + 23" by linarith
  with nz show ?thesis by (simp add: f32_def)
qed

lemma f32_hi:
  assumes "2 ^ 23 * 2 ^ k \<le> \<bar>x\<bar>" and "\<bar>x\<bar> < 2 ^ 24 * 2 ^ k"
  shows "f32 x = of_int (rne (x / 2 ^ k)) * 2 ^ k"
proof -
  have "2 powr of_int (int k + 23) = (2::real) ^ 23 * 2 ^ k"
    by (simp add: powr_add powr_realpow)
  moreover have "2 powr of_int (int k + 24) = (2::real) ^ 24 * 2 ^ k"
    by (simp add: powr_add powr_realpow)
  ultimately show ?thesis
    using f32_at[of "int k" x] assms by (simp add: powr_realpow)
qed

lemma f32_lo:
  assumes "2 ^ 23 \<le> \<bar>x\<bar> * 2 ^ k" and "\<bar>x\<bar> * 2 ^ k < 2 ^ 24"
  shows "f32 x = of_int (rne (x * 2 ^ k)) / 2 ^ k"
proof -
  have a: "2 powr of_int (- int k) = 1 / (2::real) ^ k"
    by (simp add: powr_minus powr_realpow divide_simps)
  have b: "2 powr of_int (- int k + 23) = (2::real) ^ 23 / 2 ^ k"
    by (simp add: powr_diff powr_realpow)
  have c: "2 powr of_int (- int k + 24) = (2::real) ^ 24 / 2 ^ k"
    by (simp add: powr_diff powr_realpow)
  have p: "(0::real) < 2 ^ k" by simp
  from assms(1) p have "(2::real) ^ 23 / 2 ^ k \<le> \<bar>x\<bar>"
    by (simp add: pos_divide_le_eq)
  moreover from assms(2) p have "\<bar>x\<bar> < (2::real) ^ 24 / 2 ^ k"
    by (simp add: pos_less_divide_eq)
  ultimately have "2 powr of_int (- int k + 23) \<le> \<bar>x\<bar>"
    "\<bar>x\<bar> < 2 powr of_int (- int k + 24)"
    unfolding b c by simp_all
  from f32_at[OF this] a show ?thesis by simp
qed

text \<open>The roundings that the runs below meet.\<close>

lemma f32_v_0: "f32 (- (9786709 / 2097152)) = - (9786709 / 2097152)"
  by (subst f32_lo[where k = 21]) (simp_all add: rne_def)

lemma f32_v_2: "f32 (9007199 / 9007199254740992) = 9007199 / 9007199254740992"
  by (subst f32_lo[where k = 53]) (simp_all add: rne_def)

lemma f32_v_3: "f32 (1 / 1000000000) = 9007199 / 9007199254740992"
  by (subst f32_lo[where k = 53]) (simp_all add: rne_def)

lemma f32_v_4: "f32 (1 / 100000) = 2748779 / 274877906944"
  by (subst f32_lo[where k = 40]) (simp_all add: rne_def)

lemma f32_v_5: "f32 (4194304 / 4194325) = 4194283 / 4194304"
  by (subst f32_lo[where k = 24]) (simp_all add: rne_def)

lemma f32_v_6: "f32 (2097152 / 2097159) = 2097145 / 2097152"
  by (subst f32_lo[where k = 24]) (simp_all add: rne_def)

lemma f32_v_7: "f32 (2097152 / 2097153) = 2097151 / 2097152"
  by (subst f32_lo[where k = 24]) (simp_all add: rne_def)

lemma f32_v_8: "f32 1 = 1"
  by (subst f32_lo[where k = 23]) (simp_all add: rne_def)

lemma f32_v_9: "f32 (9007199263748191 / 9007199254740992) = 1"
  by (subst f32_lo[where k = 23]) (simp_all add: rne_def)

lemma f32_v_10: "f32 2 = 2"
  by (subst f32_lo[where k = 22]) (simp_all add: rne_def)

lemma f32_v_11: "f32 (18014398518489183 / 9007199254740992) = 2"
  by (subst f32_lo[where k = 22]) (simp_all add: rne_def)

lemma f32_v_12: "f32 (549758562667 / 274877906944) = 4194325 / 2097152"
  by (subst f32_lo[where k = 22]) (simp_all add: rne_def)

lemma f32_v_13: "f32 3 = 3"
  by (subst f32_lo[where k = 22]) (simp_all add: rne_def)

lemma f32_v_14: "f32 (27021597773230175 / 9007199254740992) = 3"
  by (subst f32_lo[where k = 22]) (simp_all add: rne_def)

lemma f32_v_15: "f32 (824636469611 / 274877906944) = 6291477 / 2097152"
  by (subst f32_lo[where k = 22]) (simp_all add: rne_def)

lemma f32_v_16: "f32 (13 / 3) = 9087659 / 2097152"
  by (subst f32_lo[where k = 21]) (simp_all add: rne_def)

lemma f32_v_17: "f32 (9087659 / 2097152) = 9087659 / 2097152"
  by (subst f32_lo[where k = 21]) (simp_all add: rne_def)

lemma f32_v_18: "f32 5 = 5"
  by (subst f32_lo[where k = 21]) (simp_all add: rne_def)

lemma f32_v_19: "f32 6 = 6"
  by (subst f32_lo[where k = 21]) (simp_all add: rne_def)

lemma f32_v_20: "f32 (13281963 / 2097152) = 13281963 / 2097152"
  by (subst f32_lo[where k = 21]) (simp_all add: rne_def)

lemma f32_v_21: "f32 7 = 7"
  by (subst f32_lo[where k = 21]) (simp_all add: rne_def)

lemma f32_v_22: "f32 (15379115 / 2097152) = 15379115 / 2097152"
  by (subst f32_lo[where k = 21]) (simp_all add: rne_def)

lemma f32_v_23: "f32 8 = 8"
  by (subst f32_lo[where k = 20]) (simp_all add: rne_def)

lemma f32_v_24: "f32 (20272469 / 2097152) = 5068117 / 524288"
  by (subst f32_lo[where k = 20]) (simp_all add: rne_def)

lemma f32_v_25: "f32 11 = 11"
  by (subst f32_lo[where k = 20]) (simp_all add: rne_def)

lemma f32_v_26: "f32 (35 / 3) = 12233387 / 1048576"
  by (subst f32_lo[where k = 20]) (simp_all add: rne_def)

lemma f32_v_27: "f32 (12233387 / 1048576) = 12233387 / 1048576"
  by (subst f32_lo[where k = 20]) (simp_all add: rne_def)

lemma f32_v_28: "f32 13 = 13"
  by (subst f32_lo[where k = 20]) (simp_all add: rne_def)

lemma f32_v_29: "f32 (33554433 / 2097152) = 16"
  by (subst f32_lo[where k = 19]) (simp_all add: rne_def)

lemma f32_v_30: "f32 17 = 17"
  by (subst f32_lo[where k = 19]) (simp_all add: rne_def)

lemma f32_v_31: "f32 19 = 19"
  by (subst f32_lo[where k = 19]) (simp_all add: rne_def)

lemma f32_v_32: "f32 35 = 35"
  by (subst f32_lo[where k = 18]) (simp_all add: rne_def)

lemma f32_v_33: "f32 16777216 = 16777216"
  by (subst f32_hi[where k = 1]) (simp_all add: rne_def)

lemma f32_v_34: "f32 (151115727451828655845471 / 9007199254740992) = 16777216"
  by (subst f32_hi[where k = 1]) (simp_all add: rne_def)

lemma f32_v_35: "f32 (4611686018430136683 / 274877906944) = 16777216"
  by (subst f32_hi[where k = 1]) (simp_all add: rne_def)

lemma f32_v_36: "f32 16777217 = 16777216"
  by (subst f32_hi[where k = 1]) (simp_all add: rne_def)

lemma f32_v_37: "f32 16777224 = 16777224"
  by (subst f32_hi[where k = 1]) (simp_all add: rne_def)

lemma f32_v_38: "f32 (4611688217453392235 / 274877906944) = 16777224"
  by (subst f32_hi[where k = 1]) (simp_all add: rne_def)

lemma f32_v_39: "f32 16777225 = 16777224"
  by (subst f32_hi[where k = 1]) (simp_all add: rne_def)

lemmas f32_vals = f32_v_0 f32_v_2 f32_v_3 f32_v_4 f32_v_5 f32_v_6 f32_v_7 f32_v_8 f32_v_9 f32_v_10 f32_v_11 f32_v_12 f32_v_13 f32_v_14 f32_v_15 f32_v_16 f32_v_17 f32_v_18 f32_v_19 f32_v_20 f32_v_21 f32_v_22 f32_v_23 f32_v_24 f32_v_25 f32_v_26 f32_v_27 f32_v_28 f32_v_29 f32_v_30 f32_v_31 f32_v_32 f32_v_33 f32_v_34 f32_v_35 f32_v_36 f32_v_37 f32_v_38 f32_v_39

section \<open>Sums in float32\<close>

lemma fsum_1: "fsum rd f (Suc 0) = rd (f 0)"
  by simp

lemma fsum_2: "fsum rd f 2 = rd (rd (f 0) + f (Suc 0))"
  by (simp add: numeral_2_eq_2)

lemma fsum_3: "fsum rd f 3 = rd (rd (rd (f 0) + f (Suc 0)) + f 2)"
proof -
  have "fsum rd f 3 = fsum rd f (Suc 2)" by simp
  then show ?thesis by (simp only: fsum.simps fsum_2)
qed

lemma fsum_exact: "fsum (\<lambda>x. x) f n = tsum f n"
  by (induction n) simp_all

section \<open>The fields after construction and after the update of a step, in float32\<close>

lemma init_fl_dims:
  assumes "init_fl rd bs nj nm n ld = Inr s"
  shows "batch_size s = bs" "num_jobs s = nj" "num_mas s = nm" "num_opes s = n"
    "0 < bs" "0 < n" "time s = (\<lambda>b. 0)" "done_batch s = (\<lambda>b. tall (\<lambda>j. False) nj)"
    "machines_batch s = (\<lambda>b m k. if k = 0 then 1 else 0)"
    "mask_ma_procing_batch s = (\<lambda>b m. False)"
    "mask_job_procing_batch s = (\<lambda>b m. False)"
    "mask_job_finish_batch s = (\<lambda>b m. False)"
  using assms by (auto simp: init_fl_def Let_def split: if_splits)

lemma init_fl_static:
  assumes "init_fl rd bs nj nm n ld = Inr s"
  shows "proc_times_batch s = ld_proc_times ld" "ope_ma_adj_batch s = ld_ope_ma_adj ld"
    "cal_cumul_adj_batch s = ld_cal_cumul_adj ld" "opes_appertain_batch s = ld_opes_appertain ld"
    "num_ope_biases_batch s = ld_num_ope_biases ld" "nums_ope_batch s = ld_nums_ope ld"
    "end_ope_biases_batch s = (\<lambda>b j. ld_num_ope_biases ld b j + ld_nums_ope ld b j - 1)"
    "nums_opes s = (\<lambda>b. sum_list (map (ld_nums_ope ld b) [0..<nj]))"
    "batch_idxes s = [0..<bs]" "N s = (\<lambda>b. 0)" "ope_step_batch s = ld_num_ope_biases ld"
  using assms by (auto simp: init_fl_def Let_def split: if_splits)

lemma init_fl_feat:
  assumes "init_fl rd bs nj nm n ld = Inr s"
  shows "feat_opes_batch s b 0 i = 0"
    "feat_opes_batch s b 1 i = real (count_nonzero (ld_ope_ma_adj ld b i) nm)"
    "feat_opes_batch s b 2 i
       = rd (fsum rd (ld_proc_times ld b i) nm
             / rd (real (count_nonzero (ld_ope_ma_adj ld b i) nm) + rd (1 / 10 ^ 9)))"
    "feat_opes_batch s b 3 i = real (ld_nums_ope ld b (ld_opes_appertain ld b i))"
    "feat_opes_batch s b 5 i = fsum rd (\<lambda>k. rd (feat_opes_batch s b 2 k * ld_cal_cumul_adj ld b k i)) n"
    "feat_opes_batch s b 4 i
       = rd (feat_opes_batch s b 5 (end_ope_biases_batch s b (ld_opes_appertain ld b i))
             + feat_opes_batch s b 2 (end_ope_biases_batch s b (ld_opes_appertain ld b i)))"
  using assms
  by (auto simp: init_fl_def Let_def convert_feat_job_2_ope_def split: if_splits)

lemma init_fl_schedule:
  assumes "init_fl rd bs nj nm n ld = Inr s"
  shows "schedules_batch s b i 0 = 0" "schedules_batch s b i (Suc 0) = 0"
    "schedules_batch s b i 2 = feat_opes_batch s b 5 i"
    "schedules_batch s b i 3 = rd (feat_opes_batch s b 5 i + feat_opes_batch s b 2 i)"
    "feat_mas_batch s b 2 m = 0"
    "makespan_batch s = (\<lambda>b. tmax (feat_opes_batch s b 4) (num_opes s))"
    "reward_batch s = None"
  using assms by (auto simp: init_fl_def Let_def split: if_splits)

lemma step_update_fl_static [simp]:
  "batch_size (step_update_fl rd s a) = batch_size s" "num_jobs (step_update_fl rd s a) = num_jobs s"
  "num_mas (step_update_fl rd s a) = num_mas s" "num_opes (step_update_fl rd s a) = num_opes s"
  "opes_appertain_batch (step_update_fl rd s a) = opes_appertain_batch s"
  "num_ope_biases_batch (step_update_fl rd s a) = num_ope_biases_batch s"
  "nums_ope_batch (step_update_fl rd s a) = nums_ope_batch s"
  "end_ope_biases_batch (step_update_fl rd s a) = end_ope_biases_batch s"
  "nums_opes (step_update_fl rd s a) = nums_opes s" "batch_idxes (step_update_fl rd s a) = batch_idxes s"
  "time (step_update_fl rd s a) = time s" "N (step_update_fl rd s a) = (\<lambda>b. N s b + 1)"
  "state (step_update_fl rd s a) = state s" "state_shared (step_update_fl rd s a) = state_shared s"
  "old_proc_times_batch (step_update_fl rd s a) = old_proc_times_batch s"
  "old_ope_ma_adj_batch (step_update_fl rd s a) = old_ope_ma_adj_batch s"
  "old_cal_cumul_adj_batch (step_update_fl rd s a) = old_cal_cumul_adj_batch s"
  "old_feat_opes_batch (step_update_fl rd s a) = old_feat_opes_batch s"
  "old_feat_mas_batch (step_update_fl rd s a) = old_feat_mas_batch s"
  "old_state (step_update_fl rd s a) = old_state s"
  by (simp_all add: step_update_fl_def Let_def)

lemma step_update_fl_feat:
  assumes "act_of s a b = Some (ope, ma, job)"
  shows "feat_opes_batch (step_update_fl rd s a) b 0 i = (if i = ope then 1 else feat_opes_batch s b 0 i)"
    "feat_opes_batch (step_update_fl rd s a) b 1 i = (if i = ope then 1 else feat_opes_batch s b 1 i)"
    "feat_opes_batch (step_update_fl rd s a) b 2 i
       = (if i = ope then proc_times_batch s b ope ma else feat_opes_batch s b 2 i)"
    "feat_opes_batch (step_update_fl rd s a) b 3 i
       = (if num_ope_biases_batch s b job \<le> i \<and> i < end_ope_biases_batch s b job + 1 \<and> i < num_opes s
          then rd (feat_opes_batch s b 3 i - 1) else feat_opes_batch s b 3 i)"
  using assms by (simp_all add: step_update_fl_def Let_def)

lemma step_update_fl_feat5:
  assumes "act_of s a b = Some (ope, ma, job)"
  shows "feat_opes_batch (step_update_fl rd s a) b 5 i
       = rd ((if i = ope then time s b else feat_opes_batch s b 5 i)
               * feat_opes_batch (step_update_fl rd s a) b 0 i
             + fsum rd (\<lambda>k. rd (rd ((if k = ope then time s b else feat_opes_batch s b 5 k)
                                      * feat_opes_batch (step_update_fl rd s a) b 0 k
                                    + feat_opes_batch (step_update_fl rd s a) b 2 k)
                                * cal_cumul_adj_batch (step_update_fl rd s a) b k i)) (num_opes s)
               * (1 - feat_opes_batch (step_update_fl rd s a) b 0 i))"
  using assms by (simp add: step_update_fl_def Let_def cong: if_cong)

lemma step_update_fl_feat4:
  assumes "act_of s a b = Some (ope, ma, job)"
  shows "feat_opes_batch (step_update_fl rd s a) b 4 i
       = rd (feat_opes_batch (step_update_fl rd s a) b 5 (end_ope_biases_batch s b (opes_appertain_batch s b i))
             + feat_opes_batch (step_update_fl rd s a) b 2
                 (end_ope_biases_batch s b (opes_appertain_batch s b i)))"
  using assms by (simp add: step_update_fl_def Let_def convert_feat_job_2_ope_def)

lemma step_update_fl_cumul:
  assumes "act_of s a b = Some (ope, ma, job)"
  shows "cal_cumul_adj_batch (step_update_fl rd s a) b i k
       = (if i = (if int ope - 1 < int (num_ope_biases_batch s b job) then num_opes s - 1 else ope - 1)
          then 0 else cal_cumul_adj_batch s b i k)"
  using assms by (simp add: step_update_fl_def Let_def)

lemma step_update_fl_times:
  assumes "act_of s a b = Some (ope, ma, job)"
  shows "schedules_batch (step_update_fl rd s a) b i 2 = feat_opes_batch (step_update_fl rd s a) b 5 i"
    "schedules_batch (step_update_fl rd s a) b i 3
       = rd (feat_opes_batch (step_update_fl rd s a) b 5 i + feat_opes_batch (step_update_fl rd s a) b 2 i)"
  using assms by (simp_all add: step_update_fl_def Let_def)

lemma step_update_fl_schedule:
  assumes "act_of s a b = Some (ope, ma, job)"
  shows "schedules_batch (step_update_fl rd s a) b i 0 = (if i = ope then 1 else schedules_batch s b i 0)"
    "schedules_batch (step_update_fl rd s a) b i (Suc 0)
       = (if i = ope then real ma else schedules_batch s b i (Suc 0))"
    "ope_ma_adj_batch (step_update_fl rd s a) b i m =
       (if i = ope then (if m = ma then 1 else 0) else ope_ma_adj_batch s b i m)"
  using assms by (simp_all add: step_update_fl_def Let_def)

lemma step_update_fl_proc_times:
  "proc_times_batch (step_update_fl rd s a) b i m
     = proc_times_batch s b i m * of_int (ope_ma_adj_batch (step_update_fl rd s a) b i m)"
  by (simp add: step_update_fl_def Let_def)

lemma step_update_fl_machines:
  assumes "act_of s a b = Some (ope, ma, job)"
  shows "machines_batch (step_update_fl rd s a) b m 0 = (if m = ma then 0 else machines_batch s b m 0)"
    "machines_batch (step_update_fl rd s a) b m (Suc 0)
       = (if m = ma then rd (time s b + proc_times_batch s b ope ma) else machines_batch s b m (Suc 0))"
    "machines_batch (step_update_fl rd s a) b m 2
       = (if m = ma then rd (machines_batch s b m 2 + proc_times_batch s b ope ma)
          else machines_batch s b m 2)"
    "machines_batch (step_update_fl rd s a) b m 3 = (if m = ma then real job else machines_batch s b m 3)"
  using assms by (simp_all add: step_update_fl_def Let_def)

lemma step_update_fl_masks:
  assumes "act_of s a b = Some (ope, ma, job)"
  shows "ope_step_batch (step_update_fl rd s a) b j
       = (if j = job then ope_step_batch s b j + 1 else ope_step_batch s b j)"
    "mask_job_procing_batch (step_update_fl rd s a) b j = (j = job \<or> mask_job_procing_batch s b j)"
    "mask_ma_procing_batch (step_update_fl rd s a) b m = (m = ma \<or> mask_ma_procing_batch s b m)"
  using assms by (simp_all add: step_update_fl_def Let_def)

lemma step_update_fl_feat_mas:
  assumes "act_of s a b = Some (ope, ma, job)"
  shows "feat_mas_batch (step_update_fl rd s a) b 2 m
       = rd (min (machines_batch (step_update_fl rd s a) b m 2) (time s b)
             / rd (time s b + rd (1 / 10 ^ 9)))"
  using assms by (simp add: step_update_fl_def Let_def)

lemma step_update_fl_finish:
  "mask_job_finish_batch (step_update_fl rd s a) b j
     = (ope_step_batch (step_update_fl rd s a) b j = end_ope_biases_batch s b j + 1
        \<or> mask_job_finish_batch s b j)"
  "done_batch (step_update_fl rd s a) b
     = tall (mask_job_finish_batch (step_update_fl rd s a) b) (num_jobs s)"
  by (simp_all add: step_update_fl_def Let_def)

lemma step_update_fl_inactive:
  assumes "act_of s a b = None"
  shows "feat_opes_batch (step_update_fl rd s a) b = feat_opes_batch s b"
    "cal_cumul_adj_batch (step_update_fl rd s a) b = cal_cumul_adj_batch s b"
    "machines_batch (step_update_fl rd s a) b = machines_batch s b"
    "feat_mas_batch (step_update_fl rd s a) b = feat_mas_batch s b"
    "ope_step_batch (step_update_fl rd s a) b = ope_step_batch s b"
    "mask_job_procing_batch (step_update_fl rd s a) b = mask_job_procing_batch s b"
    "mask_ma_procing_batch (step_update_fl rd s a) b = mask_ma_procing_batch s b"
    "schedules_batch (step_update_fl rd s a) b = schedules_batch s b"
    "ope_ma_adj_batch (step_update_fl rd s a) b = ope_ma_adj_batch s b"
  using assms by (simp_all add: step_update_fl_def Let_def fun_eq_iff)

lemma step_update_fl_reward:
  "reward_batch (step_update_fl rd s a)
     = Some (\<lambda>b. rd (makespan_batch s b - makespan_batch (step_update_fl rd s a) b))"
  "makespan_batch (step_update_fl rd s a)
     = (\<lambda>b. tmax (feat_opes_batch (step_update_fl rd s a) b 4) (num_opes s))"
  by (simp_all add: step_update_fl_def Let_def)

section \<open>The fields after a call of next_time, in float32\<close>

lemma next_clock_fl_Suc:
  "next_clock_fl rd s b =
     tmin (\<lambda>m. if machines_batch s b m (Suc 0) > time s b then machines_batch s b m (Suc 0)
                else rd (max_feat s + 1)) (num_mas s)"
  by (simp add: next_clock_fl_def cong: if_cong)

lemma freed_fl_Suc:
  "freed_fl rd flag s b m \<longleftrightarrow>
     machines_batch s b m (Suc 0) = next_clock_fl rd s b \<and> machines_batch s b m 0 = 0
     \<and> flag_need_trans flag s b"
  by (simp add: freed_fl_def)

lemma next_time_fl_Inr_iff:
  "next_time_fl rd flag s = Inr s'
     \<longleftrightarrow> next_time_check_fl rd flag s = None \<and> s' = next_time_update_fl rd flag s"
  by (auto simp: next_time_fl_def split: option.splits)

lemma next_time_update_fl_fields:
  "time (next_time_update_fl rd flag s) b
     = (if flag_need_trans flag s b then next_clock_fl rd s b else time s b)"
  "machines_batch (next_time_update_fl rd flag s) b m k
     = (if freed_fl rd flag s b m \<and> k = 0 then 1 else machines_batch s b m k)"
  "mask_ma_procing_batch (next_time_update_fl rd flag s) b m
     = (\<not> freed_fl rd flag s b m \<and> mask_ma_procing_batch s b m)"
  "mask_job_procing_batch (next_time_update_fl rd flag s) b j
     = (\<not> tany (\<lambda>m. freed_jobs_fl rd flag s b m \<ge> 0
                    \<and> py_index (trunc (freed_jobs_fl rd flag s b m)) (num_jobs s) = Some j) (num_mas s)
        \<and> mask_job_procing_batch s b j)"
  "mask_job_finish_batch (next_time_update_fl rd flag s) b j
     = (ope_step_batch s b j = end_ope_biases_batch s b j + 1 \<or> mask_job_finish_batch s b j)"
  "feat_mas_batch (next_time_update_fl rd flag s) b 2 m
     = rd (min (machines_batch (next_time_update_fl rd flag s) b m 2)
               (time (next_time_update_fl rd flag s) b)
           / rd (time (next_time_update_fl rd flag s) b + rd (1 / 10 ^ 5)))"
  by (simp_all add: next_time_update_fl_def Let_def)

lemma next_time_check_fl_None:
  assumes "num_mas s \<noteq> 0" "num_opes s \<noteq> 0" "batch_size s \<noteq> 0"
    and "\<And>b m. b < batch_size s \<Longrightarrow> m < num_mas s \<Longrightarrow> freed_fl rd flag s b m \<Longrightarrow>
          0 \<le> machines_batch s b m 3 \<Longrightarrow>
          py_index (trunc (machines_batch s b m 3)) (num_jobs s) \<noteq> None"
  shows "next_time_check_fl rd flag s = None"
  using assms by (auto simp: next_time_check_fl_def tany_iff freed_jobs_fl_def)

lemma next_time_update_fl_static [simp]:
  "batch_size (next_time_update_fl rd flag s) = batch_size s"
  "num_jobs (next_time_update_fl rd flag s) = num_jobs s"
  "num_mas (next_time_update_fl rd flag s) = num_mas s"
  "num_opes (next_time_update_fl rd flag s) = num_opes s"
  "proc_times_batch (next_time_update_fl rd flag s) = proc_times_batch s"
  "ope_ma_adj_batch (next_time_update_fl rd flag s) = ope_ma_adj_batch s"
  "cal_cumul_adj_batch (next_time_update_fl rd flag s) = cal_cumul_adj_batch s"
  "opes_appertain_batch (next_time_update_fl rd flag s) = opes_appertain_batch s"
  "num_ope_biases_batch (next_time_update_fl rd flag s) = num_ope_biases_batch s"
  "nums_ope_batch (next_time_update_fl rd flag s) = nums_ope_batch s"
  "end_ope_biases_batch (next_time_update_fl rd flag s) = end_ope_biases_batch s"
  "nums_opes (next_time_update_fl rd flag s) = nums_opes s"
  "batch_idxes (next_time_update_fl rd flag s) = batch_idxes s"
  "N (next_time_update_fl rd flag s) = N s"
  "ope_step_batch (next_time_update_fl rd flag s) = ope_step_batch s"
  "feat_opes_batch (next_time_update_fl rd flag s) = feat_opes_batch s"
  "schedules_batch (next_time_update_fl rd flag s) = schedules_batch s"
  "done_batch (next_time_update_fl rd flag s) = done_batch s"
  "makespan_batch (next_time_update_fl rd flag s) = makespan_batch s"
  "reward_batch (next_time_update_fl rd flag s) = reward_batch s"
  "old_proc_times_batch (next_time_update_fl rd flag s) = old_proc_times_batch s"
  "old_ope_ma_adj_batch (next_time_update_fl rd flag s) = old_ope_ma_adj_batch s"
  "old_cal_cumul_adj_batch (next_time_update_fl rd flag s) = old_cal_cumul_adj_batch s"
  by (simp_all add: next_time_update_fl_def Let_def)

lemma max_feat_next_time_update_fl [simp]:
  "max_feat (next_time_update_fl rd flag s) = max_feat s"
  by (simp add: max_feat_def)

lemma next_time_fl_kept: "next_time_fl rd flag s = Inr s' \<Longrightarrow> kept s s'"
  by (auto simp: next_time_fl_def next_time_update_fl_def Let_def kept_def split: option.splits)

section \<open>The time-advance loop in float32\<close>

lemma within_imp_advance_fl:
  "time_advance_within_fl rd n s = Some r \<Longrightarrow> time_advance_fl rd s = Some r"
proof (induction n arbitrary: s)
  case 0
  then show ?case
    by (subst time_advance_fl.simps) (auto split: sum.splits if_splits)
next
  case (Suc n)
  then show ?case
    by (subst time_advance_fl.simps) (auto split: sum.splits if_splits)
qed

lemma advance_imp_within_fl:
  assumes "time_advance_fl rd s = Some r"
  shows "\<exists>n. time_advance_within_fl rd n s = Some r"
proof (rule time_advance_fl.raw_induct[where P = "\<lambda>rd s r. \<exists>n. time_advance_within_fl rd n s = Some r",
      OF _ assms])
  fix ta :: "(real \<Rightarrow> real) \<Rightarrow> FJSPEnv \<Rightarrow> (error + FJSPEnv) option" and rd s r
  assume IH: "\<And>rd x y. ta rd x = Some y \<Longrightarrow> \<exists>n. time_advance_within_fl rd n x = Some y"
    and body: "(case if_no_eligible s of Inl err \<Rightarrow> Some (Inl err)
      | Inr flag \<Rightarrow> if need_trans s flag
          then case next_time_fl rd flag s of Inl err \<Rightarrow> Some (Inl err) | Inr s' \<Rightarrow> ta rd s'
          else Some (Inr s)) = Some r"
  show "\<exists>n. time_advance_within_fl rd n s = Some r"
  proof (cases "if_no_eligible s")
    case (Inl e)
    with body have "time_advance_within_fl rd 0 s = Some r" by simp
    then show ?thesis ..
  next
    case (Inr flag)
    show ?thesis
    proof (cases "need_trans s flag")
      case False
      with Inr body have "time_advance_within_fl rd 0 s = Some r" by simp
      then show ?thesis ..
    next
      case True
      show ?thesis
      proof (cases "next_time_fl rd flag s")
        case (Inl e)
        with Inr True body have "time_advance_within_fl rd (Suc 0) s = Some r" by auto
        then show ?thesis ..
      next
        case nt: (Inr s1)
        with Inr True body have "ta rd s1 = Some r" by simp
        from IH[OF this] obtain n where "time_advance_within_fl rd n s1 = Some r" ..
        with Inr True nt have "time_advance_within_fl rd (Suc n) s = Some r" by simp
        then show ?thesis ..
      qed
    qed
  qed
qed

lemma within_fl_mono:
  "time_advance_within_fl rd n s = Some r \<Longrightarrow> time_advance_within_fl rd (n + k) s = Some r"
proof (induction n arbitrary: s)
  case 0
  then show ?case by (cases k) (auto split: sum.splits if_splits)
next
  case (Suc n)
  then show ?case by (auto split: sum.splits if_splits)
qed

lemma time_advance_fl_kept:
  assumes "time_advance_within_fl rd n s = Some (Inr s')"
  shows "kept s s'"
  using assms
proof (induction n arbitrary: s)
  case 0
  then show ?case by (auto split: sum.splits if_splits)
next
  case (Suc n)
  show ?case
  proof (cases "if_no_eligible s")
    case (Inl e) with Suc.prems show ?thesis by simp
  next
    case (Inr flag)
    show ?thesis
    proof (cases "need_trans s flag")
      case False with Inr Suc.prems show ?thesis by simp
    next
      case True
      show ?thesis
      proof (cases "next_time_fl rd flag s")
        case (Inl e) with Inr True Suc.prems show ?thesis by simp
      next
        case nt: (Inr s1)
        with Inr True Suc.prems have "time_advance_within_fl rd n s1 = Some (Inr s')" by simp
        from next_time_fl_kept[OF nt] Suc.IH[OF this] show ?thesis by (rule kept_trans)
      qed
    qed
  qed
qed

lemma step_fl_Inr_D:
  assumes "step_fl rd s a = Some (Inr s')"
  obtains s1 where "step_check s a = None" "time_advance_fl rd (step_update_fl rd s a) = Some (Inr s1)"
    "s' = step_finish s1"
  using assms by (auto simp: step_fl_def split: option.splits sum.splits)

lemma step_fl_within:
  assumes "step_check s a = None"
    and "time_advance_within_fl rd n (step_update_fl rd s a) = Some (Inr s1)"
  shows "step_fl rd s a = Some (Inr (step_finish s1))"
  using assms(1) within_imp_advance_fl[OF assms(2)] by (simp add: step_fl_def)

lemma step_fl_reward:
  assumes "step_fl rd s a = Some (Inr s')"
  shows "reward_batch s' = Some (\<lambda>b. rd (makespan_batch s b - makespan_batch s' b))"
    and "makespan_batch s' = (\<lambda>b. tmax (feat_opes_batch s' b 4) (num_opes s'))"
proof -
  from assms obtain s1 where s1: "time_advance_fl rd (step_update_fl rd s a) = Some (Inr s1)"
    and s': "s' = step_finish s1" by (rule step_fl_Inr_D)
  from advance_imp_within_fl[OF s1] obtain n
    where "time_advance_within_fl rd n (step_update_fl rd s a) = Some (Inr s1)" ..
  from time_advance_fl_kept[OF this] have k: "kept (step_update_fl rd s a) s1" .
  from k s' show "reward_batch s' = Some (\<lambda>b. rd (makespan_batch s b - makespan_batch s' b))"
    by (simp add: kept_def step_update_fl_reward(1))
  from k s' show "makespan_batch s' = (\<lambda>b. tmax (feat_opes_batch s' b 4) (num_opes s'))"
    by (simp add: kept_def step_update_fl_reward(2))
qed

section \<open>The float32 operations without rounding\<close>

text \<open>With the identity as rounding, the operations in float32 are the operations on
  exact reals.\<close>

lemma fsum_exact_fun: "fsum (\<lambda>x. x) = tsum"
  by (simp add: fun_eq_iff fsum_exact)

lemma init_fl_exact: "init_fl (\<lambda>x. x) bs nj nm n ld = init bs nj nm n ld"
  unfolding init_fl_def init_def fsum_exact_fun ..

lemma step_update_fl_exact: "step_update_fl (\<lambda>x. x) s a = step_update s a"
  unfolding step_update_fl_def step_update_def fsum_exact_fun ..

lemma next_clock_fl_exact: "next_clock_fl (\<lambda>x. x) = next_clock"
  by (simp add: fun_eq_iff next_clock_fl_def next_clock_def)

lemma freed_fl_exact: "freed_fl (\<lambda>x. x) = freed"
  by (simp add: fun_eq_iff freed_fl_def freed_def next_clock_fl_exact)

lemma freed_jobs_fl_exact: "freed_jobs_fl (\<lambda>x. x) = freed_jobs"
  by (simp add: fun_eq_iff freed_jobs_fl_def freed_jobs_def freed_fl_exact)

lemma next_time_fl_exact: "next_time_fl (\<lambda>x. x) flag s = next_time flag s"
proof -
  have c: "next_time_check_fl (\<lambda>x. x) flag s = next_time_check flag s"
    unfolding next_time_check_fl_def next_time_check_def freed_jobs_fl_exact ..
  have u: "next_time_update_fl (\<lambda>x. x) flag s = next_time_update flag s"
    unfolding next_time_update_fl_def next_time_update_def freed_jobs_fl_exact freed_fl_exact
      next_clock_fl_exact ..
  show ?thesis unfolding next_time_fl_def next_time_def c u ..
qed

lemma time_advance_within_fl_exact:
  "time_advance_within_fl (\<lambda>x. x) n s = time_advance_within n s"
  by (induction n arbitrary: s) (simp_all add: next_time_fl_exact cong: sum.case_cong if_cong)

lemma time_advance_fl_exact: "time_advance_fl (\<lambda>x. x) s = time_advance s"
proof (cases "time_advance s")
  case None
  show ?thesis
  proof (cases "time_advance_fl (\<lambda>x. x) s")
    case None
    with \<open>time_advance s = None\<close> show ?thesis by simp
  next
    case (Some r)
    from advance_imp_within_fl[OF this] obtain n
      where "time_advance_within_fl (\<lambda>x. x) n s = Some r" ..
    then have "time_advance_within n s = Some r" by (simp add: time_advance_within_fl_exact)
    from within_imp_advance[OF this] None show ?thesis by simp
  qed
next
  case (Some r)
  from advance_imp_within[OF this] obtain n where "time_advance_within n s = Some r" ..
  then have "time_advance_within_fl (\<lambda>x. x) n s = Some r" by (simp add: time_advance_within_fl_exact)
  from within_imp_advance_fl[OF this] Some show ?thesis by simp
qed

lemma step_fl_exact: "step_fl (\<lambda>x. x) s a = step s a"
  unfolding step_fl_def step_def time_advance_fl_exact step_update_fl_exact ..

lemma validate_gantt_fl_exact: "validate_gantt_fl (\<lambda>x. x) s = validate_gantt s"
  unfolding validate_gantt_fl_def validate_gantt_def flag_proc_time_of_fl_def
      flag_proc_time_of_def proc_time_count_fl_def proc_time_count_def ..

section \<open>The run on ld_a in float32\<close>

lemma init_af: "init_fl f32 1 1 2 2 ld_a = Inr env_af"
  by (simp add: env_af_def init_fl_def Let_def tall_iff ld_a_def)

lemmas env_af_simps = init_fl_dims[OF init_af]

lemmas env_af_static = init_fl_static[OF init_af]

lemma act_of_af: "act_of env_af [(0, 0, 0)] 0 = Some (0, 0, 0)"
  by (simp add: act_of_def env_af_static upt_0_1)

lemma step_check_af: "step_check env_af [(0, 0, 0)] = None"
  by (simp add: step_check_def env_af_simps env_af_static tall_iff ld_a_def upt_0_1)

lemma legal_af: "legal_actions env_af [(0, 0, 0)]"
  by (simp add: legal_actions_def legal_def env_af_simps env_af_static upt_0_1 ld_a_def)

lemma env_af_feat:
  "feat_opes_batch env_af 0 0 i = 0"
  "feat_opes_batch env_af 0 2 0 = 3"
  "feat_opes_batch env_af 0 2 (Suc 0) = 3"
  "feat_opes_batch env_af 0 5 0 = 0"
  "feat_opes_batch env_af 0 5 (Suc 0) = 3"
  "feat_opes_batch env_af 0 4 i = 6"
  by (simp_all add: init_fl_feat[OF init_af] env_af_simps env_af_static ld_a_def fsum_2
      count_nonzero_2 f32_vals)

lemma makespan_af: "makespan_batch env_af 0 = 6"
  by (simp add: init_fl_schedule(6)[OF init_af] env_af_simps env_af_feat tmax_2)

lemma env_af1_dims:
  "batch_size env_af1 = Suc 0" "num_jobs env_af1 = Suc 0" "num_mas env_af1 = 2" "num_opes env_af1 = 2"
  "time env_af1 = (\<lambda>b. 0)" "end_ope_biases_batch env_af1 0 0 = Suc 0"
  by (simp_all add: env_af1_def env_af_simps env_af_static ld_a_def)

lemma env_af1_masks:
  "mask_ma_procing_batch env_af1 0 m = (m = 0)"
  "mask_job_procing_batch env_af1 0 0"
  "\<not> mask_job_finish_batch env_af1 0 0"
  "ope_step_batch env_af1 0 0 = Suc 0"
  "\<not> done_batch env_af1 0"
  by (simp_all add: env_af1_def step_update_fl_masks[OF act_of_af] step_update_fl_finish
      env_af_simps env_af_static ld_a_def tall_iff)

lemma env_af1_machines:
  "machines_batch env_af1 0 m 0 = (if m = 0 then 0 else 1)"
  "machines_batch env_af1 0 m (Suc 0) = (if m = 0 then 3 else 0)"
  "machines_batch env_af1 0 m 2 = (if m = 0 then 3 else 0)"
  "machines_batch env_af1 0 m 3 = 0"
  by (simp_all add: env_af1_def step_update_fl_machines[OF act_of_af]
      env_af_simps env_af_static ld_a_def f32_vals)

lemma env_af1_proc:
  "proc_times_batch env_af1 0 (Suc 0) 0 = 2" "proc_times_batch env_af1 0 (Suc 0) (Suc 0) = 4"
  by (simp_all add: env_af1_def step_update_fl_proc_times step_update_fl_schedule[OF act_of_af]
      env_af_static ld_a_def)

lemma env_af1_feat4: "feat_opes_batch env_af1 0 4 i = 6"
  by (simp add: env_af1_def step_update_fl_feat4[OF act_of_af] step_update_fl_feat5[OF act_of_af]
      step_update_fl_feat[OF act_of_af] step_update_fl_cumul[OF act_of_af]
      env_af_simps env_af_static env_af_feat ld_a_def fsum_2 f32_vals)

lemma reward_af1: "reward_batch env_af1 = Some (\<lambda>b. f32 (makespan_batch env_af b - makespan_batch env_af1 b))"
  "makespan_batch env_af1 0 = 6"
  by (simp_all add: env_af1_def step_update_fl_reward env_af_simps tmax_2
      env_af1_feat4[unfolded env_af1_def])

lemma flag_af1: "if_no_eligible env_af1 = Inr flag_af1" "flag_af1 0 = 0"
proof -
  have "\<exists>f. if_no_eligible env_af1 = Inr f \<and> f 0 = 0"
    by (simp add: if_no_eligible_def Let_def env_af1_dims env_af1_masks tall_iff tsum_2)
  then show "if_no_eligible env_af1 = Inr flag_af1" "flag_af1 0 = 0"
    by (auto simp: flag_af1_def)
qed

lemma max_feat_af1: "max_feat env_af1 = 6"
  by (simp add: max_feat_def env_af1_dims env_af1_feat4 tmax_2)

lemma next_clock_af1: "next_clock_fl f32 env_af1 0 = 3"
  by (simp add: next_clock_fl_Suc env_af1_dims env_af1_machines max_feat_af1 tmin_2 f32_vals)

lemma freed_af1: "freed_fl f32 flag_af1 env_af1 0 m = (m = 0)"
  by (simp add: freed_fl_Suc flag_need_trans_def flag_af1 env_af1_masks env_af1_machines
      next_clock_af1)

lemma next_time_af1: "next_time_fl f32 flag_af1 env_af1 = Inr env_af2"
proof -
  have "next_time_check_fl f32 flag_af1 env_af1 = None"
    by (rule next_time_check_fl_None)
      (simp_all add: env_af1_dims env_af1_machines py_index_def trunc_def)
  then show ?thesis by (simp add: next_time_fl_def env_af2_def)
qed

lemma env_af2_eq: "env_af2 = next_time_update_fl f32 flag_af1 env_af1"
  using next_time_af1 by (simp add: next_time_fl_Inr_iff)

lemma kept_af2: "kept env_af1 env_af2"
  by (rule next_time_fl_kept[OF next_time_af1])

lemma env_af2_fields:
  "time env_af2 0 = 3"
  "machines_batch env_af2 0 m 2 = (if m = 0 then 3 else 0)"
  "mask_ma_procing_batch env_af2 0 m = False"
  "mask_job_procing_batch env_af2 0 0 = False"
  "mask_job_finish_batch env_af2 0 0 = False"
  "feat_mas_batch env_af2 0 2 0 = 2097145 / 2097152"
  by (auto simp: env_af2_eq next_time_update_fl_fields freed_af1 freed_jobs_fl_def flag_need_trans_def
      flag_af1 env_af1_masks env_af1_machines env_af1_dims next_clock_af1 tany_iff py_index_def
      trunc_def ex_less_2 f32_vals)

lemma flag_af2: "\<exists>f. if_no_eligible env_af2 = Inr f \<and> f 0 = 6"
  using kept_af2
  by (simp add: if_no_eligible_def Let_def kept_def env_af1_dims env_af1_masks env_af1_proc
      env_af2_fields tall_iff tsum_2)

lemma within_af1: "time_advance_within_fl f32 (Suc 0) env_af1 = Some (Inr env_af2)"
  "time_advance_within_fl f32 0 env_af1 = None"
proof -
  from flag_af2 obtain f where f: "if_no_eligible env_af2 = Inr f" "f 0 = 6" by blast
  from f(2) kept_af2 have "\<not> need_trans env_af2 f"
    by (simp add: need_trans_def tany_iff kept_def env_af1_dims)
  with f(1) have 2: "time_advance_within_fl f32 0 env_af2 = Some (Inr env_af2)" by simp
  have n: "need_trans env_af1 flag_af1"
    by (simp add: need_trans_def tany_iff env_af1_dims flag_af1 env_af1_masks)
  with flag_af1(1) next_time_af1 2 show "time_advance_within_fl f32 (Suc 0) env_af1 = Some (Inr env_af2)"
    by simp
  from n flag_af1(1) show "time_advance_within_fl f32 0 env_af1 = None" by simp
qed

lemma step_af: "step_fl f32 env_af [(0, 0, 0)] = Some (Inr env_af3)"
  using step_fl_within[OF step_check_af within_af1(1)[unfolded env_af1_def]]
  by (simp add: env_af3_def)

lemma env_af3_state:
  "batch_idxes env_af3 = [0]" "batch_size env_af3 = Suc 0" "num_jobs env_af3 = Suc 0"
  "num_mas env_af3 = 2" "num_opes env_af3 = 2"
  "ope_step_batch env_af3 0 0 = Suc 0" "proc_times_batch env_af3 0 (Suc 0) 0 = 2"
  "\<not> mask_ma_procing_batch env_af3 0 m" "\<not> mask_job_procing_batch env_af3 0 0"
  "\<not> mask_job_finish_batch env_af3 0 0" "end_ope_biases_batch env_af3 0 0 = Suc 0"
  "opes_appertain_batch env_af3 0 i = 0" "num_ope_biases_batch env_af3 0 0 = 0"
  "time env_af3 0 = 3" "makespan_batch env_af3 0 = 6"
  "reward_batch env_af3 = Some (\<lambda>b. f32 (makespan_batch env_af b - makespan_batch env_af1 b))"
proof -
  have "N env_af2 0 + 1 \<le> nums_opes env_af2 0"
    using kept_af2 by (simp add: kept_def env_af1_def env_af_static upt_0_1 ld_a_def)
  moreover have "batch_idxes env_af2 = [0]" "batch_size env_af2 = Suc 0"
    using kept_af2 by (simp_all add: kept_def env_af1_def env_af_static env_af_simps upt_0_1)
  ultimately show "batch_idxes env_af3 = [0]"
    by (simp add: env_af3_def step_finish_def Let_def tall_iff)
  from kept_af2
  show "batch_size env_af3 = Suc 0" "num_jobs env_af3 = Suc 0" "num_mas env_af3 = 2"
    "num_opes env_af3 = 2" "ope_step_batch env_af3 0 0 = Suc 0"
    "proc_times_batch env_af3 0 (Suc 0) 0 = 2" "end_ope_biases_batch env_af3 0 0 = Suc 0"
    by (simp_all add: env_af3_def kept_def env_af1_dims env_af1_masks env_af1_proc)
  show "\<not> mask_ma_procing_batch env_af3 0 m" "\<not> mask_job_procing_batch env_af3 0 0"
    "\<not> mask_job_finish_batch env_af3 0 0" "time env_af3 0 = 3"
    by (simp_all add: env_af3_def env_af2_fields)
  from kept_af2 show "opes_appertain_batch env_af3 0 i = 0" "num_ope_biases_batch env_af3 0 0 = 0"
    by (simp_all add: env_af3_def kept_def env_af1_def env_af_static ld_a_def)
  from kept_af2 show "makespan_batch env_af3 0 = 6"
    "reward_batch env_af3 = Some (\<lambda>b. f32 (makespan_batch env_af b - makespan_batch env_af1 b))"
    by (simp_all add: env_af3_def kept_def reward_af1)
qed

lemma env_af3_feat:
  "feat_opes_batch env_af3 0 k i = feat_opes_batch env_af1 0 k i"
  "cal_cumul_adj_batch env_af3 = cal_cumul_adj_batch env_af1"
  "machines_batch env_af3 0 m 2 = (if m = 0 then 3 else 0)"
  using kept_af2 by (simp_all add: env_af3_def kept_def env_af2_fields)

lemma act_of_af3: "act_of env_af3 [(Suc 0, 0, 0)] 0 = Some (Suc 0, 0, 0)"
  by (simp add: act_of_def env_af3_state)

lemma legal_af3: "legal_actions env_af3 [(1, 0, 0)]"
  by (simp add: legal_actions_def legal_def env_af3_state)

lemma step_check_af3: "step_check env_af3 [(1, 0, 0)] = None"
  by (simp add: step_check_def env_af3_state tall_iff all_less_1 all_less_2)

lemma done_af4: "done_batch env_af4 0"
  using step_update_fl_masks(1)[OF act_of_af3, where j = 0 and rd = f32]
  by (simp add: env_af4_def step_update_fl_finish env_af3_state tall_iff)

lemma flag_af4: "\<exists>f. if_no_eligible (step_update_fl f32 env_af3 [(1, 0, 0)]) = Inr f"
  using step_update_fl_masks(1)[OF act_of_af3, where j = 0 and rd = f32]
  by (simp add: if_no_eligible_def Let_def env_af3_state tall_iff)

lemma within_af3:
  "time_advance_within_fl f32 0 (step_update_fl f32 env_af3 [(1, 0, 0)])
     = Some (Inr (step_update_fl f32 env_af3 [(1, 0, 0)]))"
proof -
  from flag_af4 obtain f where f: "if_no_eligible (step_update_fl f32 env_af3 [(1, 0, 0)]) = Inr f"
    by blast
  from done_af4 have "\<not> need_trans (step_update_fl f32 env_af3 [(1, 0, 0)]) f"
    by (simp add: need_trans_def tany_iff env_af3_state env_af4_def)
  with f show ?thesis by simp
qed

lemma step_af3: "step_fl f32 env_af3 [(1, 0, 0)] = Some (Inr env_af4)"
  using step_fl_within[OF step_check_af3 within_af3] by (simp add: env_af4_def)

lemma env_af4_feat4: "feat_opes_batch env_af4 0 4 i = 5"
  by (simp add: env_af4_def step_update_fl_feat4[OF act_of_af3] step_update_fl_feat5[OF act_of_af3]
      step_update_fl_feat[OF act_of_af3] step_update_fl_cumul[OF act_of_af3]
      env_af3_state env_af3_feat env_af1_def step_update_fl_feat[OF act_of_af]
      env_af_feat f32_vals)

lemma makespan_af4: "makespan_batch env_af4 0 = 5"
proof -
  have n: "num_opes env_af4 = 2" by (simp add: env_af4_def env_af3_state)
  from step_fl_reward(2)[OF step_af3]
  have "makespan_batch env_af4 0 = tmax (feat_opes_batch env_af4 0 4) (num_opes env_af4)" by simp
  then show ?thesis by (simp add: n tmax_2 env_af4_feat4)
qed

lemma run_af:
  "run_steps_fl f32 env_af [[(0, 0, 0)], [(1, 0, 0)]] = Some [env_af3, env_af4]"
  using step_af step_af3 by simp

section \<open>The utilisation feature in float32\<close>

lemma util_is_fl_next_time:
  assumes "next_time_fl rd flag s = Inr s'"
  shows "util_is_fl rd (1 / 10 ^ 5) s' b"
  using assms next_time_update_fl_fields(6)[of rd flag s b]
  by (simp add: next_time_fl_Inr_iff util_is_fl_def utilization_fl_def tall_iff)

lemma util_is_fl_step_update:
  assumes "act_of s a b = Some x"
  shows "util_is_fl rd (1 / 10 ^ 9) (step_update_fl rd s a) b"
proof -
  obtain ope ma job where "x = (ope, ma, job)" by (cases x)
  with assms step_update_fl_feat_mas show ?thesis
    by (simp add: util_is_fl_def utilization_fl_def tall_iff)
qed

lemma util_is_fl_step_finish: "util_is_fl rd eps (step_finish s) b = util_is_fl rd eps s b"
  by (simp add: util_is_fl_def utilization_fl_def)

text \<open>The loop returns the state it was entered with, having made no call of
  \<open>next_time\<close>, or the state its last call of \<open>next_time\<close> returned.\<close>

lemma within_fl_last:
  assumes "time_advance_within_fl rd n s = Some (Inr s')"
  shows "(time_advance_within_fl rd 0 s = Some (Inr s') \<and> s' = s)
       \<or> (time_advance_within_fl rd 0 s = None \<and> (\<exists>flag s1. next_time_fl rd flag s1 = Inr s'))"
  using assms
proof (induction n arbitrary: s)
  case 0
  then show ?case by (auto split: sum.splits if_splits)
next
  case (Suc n)
  show ?case
  proof (cases "if_no_eligible s")
    case (Inl e) with Suc.prems show ?thesis by simp
  next
    case (Inr flag)
    show ?thesis
    proof (cases "need_trans s flag")
      case False with Inr Suc.prems show ?thesis by simp
    next
      case True
      show ?thesis
      proof (cases "next_time_fl rd flag s")
        case (Inl e) with Inr True Suc.prems show ?thesis by simp
      next
        case nt: (Inr s1)
        with Inr True Suc.prems have w: "time_advance_within_fl rd n s1 = Some (Inr s')" by simp
        from Inr True have z: "time_advance_within_fl rd 0 s = None" by simp
        from Suc.IH[OF w] show ?thesis
        proof
          assume "time_advance_within_fl rd 0 s1 = Some (Inr s') \<and> s' = s1"
          with nt z show ?thesis by blast
        next
          assume "time_advance_within_fl rd 0 s1 = None \<and> (\<exists>flag s1. next_time_fl rd flag s1 = Inr s')"
          with z show ?thesis by blast
        qed
      qed
    qed
  qed
qed

lemma step_fl_cases:
  assumes "step_fl rd t actions = Some (Inr t')"
  shows "(time_advance_within_fl rd 0 (step_update_fl rd t actions)
            = Some (Inr (step_update_fl rd t actions))
          \<and> t' = step_finish (step_update_fl rd t actions))
       \<or> (time_advance_within_fl rd 0 (step_update_fl rd t actions) = None
          \<and> (\<exists>flag s1 s2. next_time_fl rd flag s1 = Inr s2 \<and> t' = step_finish s2))"
proof -
  from assms obtain t1 where t1: "time_advance_fl rd (step_update_fl rd t actions) = Some (Inr t1)"
    and t': "t' = step_finish t1" by (rule step_fl_Inr_D)
  from advance_imp_within_fl[OF t1] obtain n
    where "time_advance_within_fl rd n (step_update_fl rd t actions) = Some (Inr t1)" ..
  from within_fl_last[OF this] t' show ?thesis by auto
qed

lemma utilization_fl_zero_clock:
  assumes "rd 0 = 0" and "util_is_fl rd eps s b" and "time s b = 0" and "m < num_mas s"
    and "0 \<le> machines_batch s b m 2"
  shows "feat_mas_batch s b 2 m = 0"
  using assms by (simp add: util_is_fl_def utilization_fl_def tall_iff)

section \<open>Rewards in float32\<close>

lemma run_steps_fl_Cons:
  assumes "run_steps_fl rd s (a # acts) = Some ss"
  obtains s1 ss' where "step_fl rd s a = Some (Inr s1)" "run_steps_fl rd s1 acts = Some ss'"
    "ss = s1 # ss'"
  using assms by (auto split: option.splits sum.splits)

lemma run_steps_fl_length: "run_steps_fl rd s acts = Some ss \<Longrightarrow> length ss = length acts"
proof (induction acts arbitrary: s ss)
  case Nil
  then show ?case by simp
next
  case (Cons a acts)
  from Cons.prems obtain s1 ss' where "run_steps_fl rd s1 acts = Some ss'" "ss = s1 # ss'"
    by (rule run_steps_fl_Cons)
  with Cons.IH[of s1 ss'] show ?case by simp
qed

lemma run_steps_fl_rewards:
  assumes "run_steps_fl rd s acts = Some ss" and "k < length ss"
  shows "reward_batch (ss ! k)
           = Some (\<lambda>b. rd (makespan_batch ((s # ss) ! k) b - makespan_batch (ss ! k) b))"
    and "makespan_batch (ss ! k) = (\<lambda>b. tmax (feat_opes_batch (ss ! k) b 4) (num_opes (ss ! k)))"
  using assms
proof (induction acts arbitrary: s ss k)
  case Nil
  {
    case 1 then show ?case by simp
  next
    case 2 then show ?case by simp
  }
next
  case (Cons a acts)
  {
    case 1
    from 1(1) obtain s1 ss' where st: "step_fl rd s a = Some (Inr s1)"
      and run: "run_steps_fl rd s1 acts = Some ss'" and ss: "ss = s1 # ss'"
      by (rule run_steps_fl_Cons)
    show ?case
    proof (cases k)
      case 0
      with ss step_fl_reward(1)[OF st] show ?thesis by simp
    next
      case (Suc k')
      with 1(2) ss have "k' < length ss'" by simp
      from Cons.IH(1)[OF run this] ss Suc show ?thesis by simp
    qed
  next
    case 2
    from 2(1) obtain s1 ss' where st: "step_fl rd s a = Some (Inr s1)"
      and run: "run_steps_fl rd s1 acts = Some ss'" and ss: "ss = s1 # ss'"
      by (rule run_steps_fl_Cons)
    show ?case
    proof (cases k)
      case 0
      with ss step_fl_reward(2)[OF st] show ?thesis by simp
    next
      case (Suc k')
      with 2(2) ss have "k' < length ss'" by simp
      from Cons.IH(2)[OF run this] ss Suc show ?thesis by simp
    qed
  }
qed

lemma run_steps_fl_sum:
  assumes "run_steps_fl rd s acts = Some ss"
    and "\<forall>k<length ss. rd (makespan_batch ((s # ss) ! k) b - makespan_batch (ss ! k) b)
           = makespan_batch ((s # ss) ! k) b - makespan_batch (ss ! k) b"
  shows "sum_list (map (\<lambda>t. reward_of t b) ss) = makespan_batch s b - makespan_batch (last (s # ss)) b"
  using assms
proof (induction acts arbitrary: s ss)
  case Nil
  then show ?case by simp
next
  case (Cons a acts)
  from Cons.prems(1) obtain s1 ss' where st: "step_fl rd s a = Some (Inr s1)"
    and run: "run_steps_fl rd s1 acts = Some ss'" and ss: "ss = s1 # ss'"
    by (rule run_steps_fl_Cons)
  from Cons.prems(2) ss
  have e0: "rd (makespan_batch s b - makespan_batch s1 b) = makespan_batch s b - makespan_batch s1 b"
    by auto
  have "\<forall>k<length ss'. rd (makespan_batch ((s1 # ss') ! k) b - makespan_batch (ss' ! k) b)
           = makespan_batch ((s1 # ss') ! k) b - makespan_batch (ss' ! k) b"
  proof (intro allI impI)
    fix k assume "k < length ss'"
    with Cons.prems(2) ss have "Suc k < length ss" by simp
    from Cons.prems(2)[rule_format, OF this] ss
    show "rd (makespan_batch ((s1 # ss') ! k) b - makespan_batch (ss' ! k) b)
           = makespan_batch ((s1 # ss') ! k) b - makespan_batch (ss' ! k) b" by simp
  qed
  from Cons.IH[OF run this]
  have "sum_list (map (\<lambda>t. reward_of t b) ss') = makespan_batch s1 b - makespan_batch (last (s1 # ss')) b" .
  moreover from step_fl_reward(1)[OF st] e0
  have "reward_of s1 b = makespan_batch s b - makespan_batch s1 b" by (simp add: reward_of_def)
  ultimately show ?case using ss by simp
qed

section \<open>The run on ld_f in float32\<close>

lemma tmin_3: "tmin f 3 = min (min (f 0) (f (Suc 0))) (f 2)"
  by (simp add: numeral_3_eq_3 numeral_2_eq_2)

lemma count_nonzero_3:
  "count_nonzero f 3 = (if f 0 \<noteq> 0 then 1 else 0) + (if f (Suc 0) \<noteq> 0 then 1 else 0)
     + (if f 2 \<noteq> 0 then 1 else 0)"
  by (simp add: numeral_3_eq_3 numeral_2_eq_2)

lemma ex_less_3: "(\<exists>i<3. P i) \<longleftrightarrow> P 0 \<or> P (Suc 0) \<or> P 2"
  by (auto simp: numeral_3_eq_3 numeral_2_eq_2 less_Suc_eq)

lemma init_ff: "init_fl f32 1 1 3 2 ld_f = Inr env_ff"
  by (simp add: env_ff_def init_fl_def Let_def tall_iff ld_f_def)

lemmas env_ff_simps = init_fl_dims[OF init_ff]

lemmas env_ff_static = init_fl_static[OF init_ff]

lemma wf_f: "wf_load 1 1 3 2 ld_f"
  by (simp add: wf_load_def wf_instance_def tall_iff tany_iff ld_f_def all_less_1 all_less_2
      all_less_3 ex_less_3 upt_0_1)

lemma act_of_ff: "act_of env_ff [(0, Suc 0, 0)] 0 = Some (0, Suc 0, 0)"
  by (simp add: act_of_def env_ff_static upt_0_1)

lemma step_check_ff: "step_check env_ff [(0, Suc 0, 0)] = None"
  by (simp add: step_check_def env_ff_simps env_ff_static tall_iff ld_f_def upt_0_1)

lemma legal_ff: "legal_actions env_ff [(0, 1, 0)]"
  by (simp add: legal_actions_def legal_def env_ff_simps env_ff_static upt_0_1 ld_f_def)

lemma env_ff_feat:
  "feat_opes_batch env_ff 0 0 i = 0"
  "feat_opes_batch env_ff 0 2 0 = 12233387 / 1048576"
  "feat_opes_batch env_ff 0 2 (Suc 0) = 9087659 / 2097152"
  "feat_opes_batch env_ff 0 5 0 = 0"
  "feat_opes_batch env_ff 0 5 (Suc 0) = 12233387 / 1048576"
  "feat_opes_batch env_ff 0 4 i = 16"
  by (simp_all add: init_fl_feat[OF init_ff] env_ff_simps env_ff_static ld_f_def fsum_2 fsum_3
      count_nonzero_3 f32_vals)

lemma makespan_ff: "makespan_batch env_ff 0 = 16"
  by (simp add: init_fl_schedule(6)[OF init_ff] env_ff_simps env_ff_feat tmax_2)

lemmas ff1_feat = step_update_fl_feat[OF act_of_ff, where rd = f32, folded env_ff1_def]
lemmas ff1_feat5 = step_update_fl_feat5[OF act_of_ff, where rd = f32, folded env_ff1_def]
lemmas ff1_feat4 = step_update_fl_feat4[OF act_of_ff, where rd = f32, folded env_ff1_def]
lemmas ff1_cumul = step_update_fl_cumul[OF act_of_ff, where rd = f32, folded env_ff1_def]
lemmas ff1_machines = step_update_fl_machines[OF act_of_ff, where rd = f32, folded env_ff1_def]
lemmas ff1_masks = step_update_fl_masks[OF act_of_ff, where rd = f32, folded env_ff1_def]
lemmas ff1_schedule = step_update_fl_schedule[OF act_of_ff, where rd = f32, folded env_ff1_def]
lemmas ff1_finish = step_update_fl_finish[where rd = f32 and s = env_ff and a = "[(0, Suc 0, 0)]",
    folded env_ff1_def]
lemmas ff1_proc = step_update_fl_proc_times[where rd = f32 and s = env_ff and a = "[(0, Suc 0, 0)]",
    folded env_ff1_def]
lemmas ff1_reward = step_update_fl_reward[where rd = f32 and s = env_ff and a = "[(0, Suc 0, 0)]",
    folded env_ff1_def]

lemma env_ff1_dims:
  "batch_size env_ff1 = Suc 0" "num_jobs env_ff1 = Suc 0" "num_mas env_ff1 = 3" "num_opes env_ff1 = 2"
  "time env_ff1 = (\<lambda>b. 0)" "end_ope_biases_batch env_ff1 0 0 = Suc 0"
  by (simp_all add: env_ff1_def env_ff_simps env_ff_static ld_f_def)

lemma env_ff1_masks:
  "mask_ma_procing_batch env_ff1 0 m = (m = Suc 0)"
  "mask_job_procing_batch env_ff1 0 0"
  "\<not> mask_job_finish_batch env_ff1 0 0"
  "ope_step_batch env_ff1 0 0 = Suc 0"
  "\<not> done_batch env_ff1 0"
  by (simp_all add: ff1_masks ff1_finish env_ff_simps env_ff_static ld_f_def tall_iff)

lemma env_ff1_machines:
  "machines_batch env_ff1 0 m 0 = (if m = Suc 0 then 0 else 1)"
  "machines_batch env_ff1 0 m (Suc 0) = (if m = Suc 0 then 2 else 0)"
  "machines_batch env_ff1 0 m 2 = (if m = Suc 0 then 2 else 0)"
  "machines_batch env_ff1 0 m 3 = 0"
  by (simp_all add: ff1_machines env_ff_simps env_ff_static ld_f_def f32_vals)

lemma env_ff1_proc:
  "proc_times_batch env_ff1 0 (Suc 0) 0 = 2" "proc_times_batch env_ff1 0 (Suc 0) (Suc 0) = 9"
  "proc_times_batch env_ff1 0 (Suc 0) 2 = 2"
  by (simp_all add: ff1_proc ff1_schedule env_ff_static ld_f_def)

lemma env_ff1_feat:
  "feat_opes_batch env_ff1 0 0 i = (if i = 0 then 1 else 0)"
  "feat_opes_batch env_ff1 0 2 0 = 2"
  "feat_opes_batch env_ff1 0 2 (Suc 0) = 9087659 / 2097152"
  by (simp_all add: ff1_feat env_ff_static env_ff_feat ld_f_def)

lemma env_ff1_feat5:
  "feat_opes_batch env_ff1 0 5 0 = 0" "feat_opes_batch env_ff1 0 5 (Suc 0) = 2"
  by (simp_all add: ff1_feat5 ff1_cumul env_ff1_feat env_ff_simps env_ff_static
      env_ff_feat ld_f_def fsum_2 f32_vals)

lemma env_ff1_feat4: "feat_opes_batch env_ff1 0 4 i = 13281963 / 2097152"
  by (simp add: ff1_feat4 env_ff1_feat5 env_ff1_feat env_ff_static ld_f_def f32_vals)

lemma reward_ff1:
  "reward_batch env_ff1 = Some (\<lambda>b. f32 (makespan_batch env_ff b - makespan_batch env_ff1 b))"
  "makespan_batch env_ff1 0 = 13281963 / 2097152"
  by (simp_all add: ff1_reward env_ff_simps tmax_2 env_ff1_feat4)

lemma flag_ff1: "if_no_eligible env_ff1 = Inr flag_ff1" "flag_ff1 0 = 0"
proof -
  have "\<exists>f. if_no_eligible env_ff1 = Inr f \<and> f 0 = 0"
    by (simp add: if_no_eligible_def Let_def env_ff1_dims env_ff1_masks tall_iff tsum_3)
  then show "if_no_eligible env_ff1 = Inr flag_ff1" "flag_ff1 0 = 0"
    by (auto simp: flag_ff1_def)
qed

lemma max_feat_ff1: "max_feat env_ff1 = 13281963 / 2097152"
  by (simp add: max_feat_def env_ff1_dims env_ff1_feat4 tmax_2)

lemma next_clock_ff1: "next_clock_fl f32 env_ff1 0 = 2"
  by (simp add: next_clock_fl_Suc env_ff1_dims env_ff1_machines max_feat_ff1 tmin_3 f32_vals)

lemma freed_ff1: "freed_fl f32 flag_ff1 env_ff1 0 m = (m = Suc 0)"
  by (simp add: freed_fl_Suc flag_need_trans_def flag_ff1 env_ff1_masks env_ff1_machines
      next_clock_ff1)

lemma next_time_ff1: "next_time_fl f32 flag_ff1 env_ff1 = Inr env_ff2"
proof -
  have "next_time_check_fl f32 flag_ff1 env_ff1 = None"
    by (rule next_time_check_fl_None)
      (simp_all add: env_ff1_dims env_ff1_machines py_index_def trunc_def)
  then show ?thesis by (simp add: next_time_fl_def env_ff2_def)
qed

lemma env_ff2_eq: "env_ff2 = next_time_update_fl f32 flag_ff1 env_ff1"
  using next_time_ff1 by (simp add: next_time_fl_Inr_iff)

lemma kept_ff2: "kept env_ff1 env_ff2"
  by (rule next_time_fl_kept[OF next_time_ff1])

lemma env_ff2_fields:
  "time env_ff2 0 = 2"
  "mask_ma_procing_batch env_ff2 0 m = False"
  "mask_job_procing_batch env_ff2 0 0 = False"
  "mask_job_finish_batch env_ff2 0 0 = False"
  by (auto simp: env_ff2_eq next_time_update_fl_fields freed_ff1 freed_jobs_fl_def flag_need_trans_def
      flag_ff1 env_ff1_masks env_ff1_machines env_ff1_dims next_clock_ff1 tany_iff py_index_def
      trunc_def ex_less_3)

lemma flag_ff2: "\<exists>f. if_no_eligible env_ff2 = Inr f \<and> f 0 = 13"
  using kept_ff2
  by (simp add: if_no_eligible_def Let_def kept_def env_ff1_dims env_ff1_masks env_ff1_proc
      env_ff2_fields tall_iff tsum_3)

lemma within_ff1: "time_advance_within_fl f32 (Suc 0) env_ff1 = Some (Inr env_ff2)"
proof -
  from flag_ff2 obtain f where f: "if_no_eligible env_ff2 = Inr f" "f 0 = 13" by blast
  from f(2) kept_ff2 have "\<not> need_trans env_ff2 f"
    by (simp add: need_trans_def tany_iff kept_def env_ff1_dims)
  with f(1) have 2: "time_advance_within_fl f32 0 env_ff2 = Some (Inr env_ff2)" by simp
  have n: "need_trans env_ff1 flag_ff1"
    by (simp add: need_trans_def tany_iff env_ff1_dims flag_ff1 env_ff1_masks)
  with flag_ff1(1) next_time_ff1 2 show ?thesis by simp
qed

lemma step_ff: "step_fl f32 env_ff [(0, Suc 0, 0)] = Some (Inr env_ff3)"
  using step_fl_within[OF step_check_ff within_ff1[unfolded env_ff1_def]]
  by (simp only: env_ff3_def)

lemma env_ff3_state:
  "batch_idxes env_ff3 = [0]" "batch_size env_ff3 = Suc 0" "num_jobs env_ff3 = Suc 0"
  "num_mas env_ff3 = 3" "num_opes env_ff3 = 2"
  "ope_step_batch env_ff3 0 0 = Suc 0" "proc_times_batch env_ff3 0 (Suc 0) (Suc 0) = 9"
  "\<not> mask_ma_procing_batch env_ff3 0 m" "\<not> mask_job_procing_batch env_ff3 0 0"
  "\<not> mask_job_finish_batch env_ff3 0 0" "end_ope_biases_batch env_ff3 0 0 = Suc 0"
  "opes_appertain_batch env_ff3 0 i = 0" "num_ope_biases_batch env_ff3 0 0 = 0"
  "time env_ff3 0 = 2" "makespan_batch env_ff3 0 = 13281963 / 2097152"
  "reward_batch env_ff3 = Some (\<lambda>b. f32 (makespan_batch env_ff b - makespan_batch env_ff1 b))"
proof -
  have "N env_ff2 0 + 1 \<le> nums_opes env_ff2 0"
    using kept_ff2 by (simp add: kept_def env_ff1_def env_ff_static upt_0_1 ld_f_def)
  moreover have "batch_idxes env_ff2 = [0]" "batch_size env_ff2 = Suc 0"
    using kept_ff2 by (simp_all add: kept_def env_ff1_def env_ff_static env_ff_simps upt_0_1)
  ultimately show "batch_idxes env_ff3 = [0]"
    by (simp add: env_ff3_def step_finish_def Let_def tall_iff)
  from kept_ff2
  show "batch_size env_ff3 = Suc 0" "num_jobs env_ff3 = Suc 0" "num_mas env_ff3 = 3"
    "num_opes env_ff3 = 2" "ope_step_batch env_ff3 0 0 = Suc 0"
    "proc_times_batch env_ff3 0 (Suc 0) (Suc 0) = 9" "end_ope_biases_batch env_ff3 0 0 = Suc 0"
    by (simp_all add: env_ff3_def kept_def env_ff1_dims env_ff1_masks env_ff1_proc)
  show "\<not> mask_ma_procing_batch env_ff3 0 m" "\<not> mask_job_procing_batch env_ff3 0 0"
    "\<not> mask_job_finish_batch env_ff3 0 0" "time env_ff3 0 = 2"
    by (simp_all add: env_ff3_def env_ff2_fields)
  from kept_ff2 show "opes_appertain_batch env_ff3 0 i = 0" "num_ope_biases_batch env_ff3 0 0 = 0"
    by (simp_all add: env_ff3_def kept_def env_ff1_def env_ff_static ld_f_def)
  from kept_ff2 show "makespan_batch env_ff3 0 = 13281963 / 2097152"
    "reward_batch env_ff3 = Some (\<lambda>b. f32 (makespan_batch env_ff b - makespan_batch env_ff1 b))"
    by (simp_all add: env_ff3_def kept_def reward_ff1)
qed

lemma env_ff3_feat:
  "feat_opes_batch env_ff3 0 k i = feat_opes_batch env_ff1 0 k i"
  "cal_cumul_adj_batch env_ff3 = cal_cumul_adj_batch env_ff1"
  using kept_ff2 by (simp_all add: env_ff3_def kept_def)

lemma act_of_ff3: "act_of env_ff3 [(Suc 0, Suc 0, 0)] 0 = Some (Suc 0, Suc 0, 0)"
  by (simp add: act_of_def env_ff3_state)

lemma legal_ff3: "legal_actions env_ff3 [(1, 1, 0)]"
  by (simp add: legal_actions_def legal_def env_ff3_state)

lemma step_check_ff3: "step_check env_ff3 [(Suc 0, Suc 0, 0)] = None"
  by (simp add: step_check_def env_ff3_state tall_iff all_less_1 all_less_2)

lemmas ff3_feat = step_update_fl_feat[OF act_of_ff3, where rd = f32, folded env_ff3u_def]
lemmas ff3_feat5 = step_update_fl_feat5[OF act_of_ff3, where rd = f32, folded env_ff3u_def]
lemmas ff3_feat4 = step_update_fl_feat4[OF act_of_ff3, where rd = f32, folded env_ff3u_def]
lemmas ff3_masks = step_update_fl_masks[OF act_of_ff3, where rd = f32, folded env_ff3u_def]
lemmas ff3_finish = step_update_fl_finish[where rd = f32 and s = env_ff3
    and a = "[(Suc 0, Suc 0, 0)]", folded env_ff3u_def]

lemma env_ff3u_dims:
  "batch_size env_ff3u = Suc 0" "num_jobs env_ff3u = Suc 0" "num_mas env_ff3u = 3"
  "num_opes env_ff3u = 2" "end_ope_biases_batch env_ff3u 0 0 = Suc 0"
  by (simp_all add: env_ff3u_def env_ff3_state)

lemma done_ff4: "done_batch env_ff4 0"
  by (simp add: env_ff4_def ff3_finish ff3_masks env_ff3_state tall_iff)

lemma flag_ff4: "\<exists>f. if_no_eligible env_ff3u = Inr f"
  by (simp add: if_no_eligible_def Let_def env_ff3u_dims ff3_masks env_ff3_state tall_iff)

lemma within_ff3: "time_advance_within_fl f32 0 env_ff3u = Some (Inr env_ff3u)"
proof -
  from flag_ff4 obtain f where f: "if_no_eligible env_ff3u = Inr f" by blast
  from done_ff4 have "\<not> need_trans env_ff3u f"
    by (simp add: need_trans_def tany_iff env_ff3u_dims env_ff4_def)
  with f show ?thesis by simp
qed

lemma step_ff3: "step_fl f32 env_ff3 [(Suc 0, Suc 0, 0)] = Some (Inr env_ff4)"
  using step_fl_within[OF step_check_ff3 within_ff3[unfolded env_ff3u_def]]
  by (simp only: env_ff4_def env_ff3u_def)

lemma env_ff4_feat4: "feat_opes_batch env_ff4 0 4 i = 11"
  by (simp add: env_ff4_def ff3_feat4 ff3_feat5 ff3_feat env_ff3_state env_ff3_feat env_ff1_feat
      env_ff1_feat5 f32_vals)

lemma makespan_ff4: "makespan_batch env_ff4 0 = 11"
proof -
  have n: "num_opes env_ff4 = 2" by (simp add: env_ff4_def env_ff3u_dims)
  from step_fl_reward(2)[OF step_ff3]
  have "makespan_batch env_ff4 0 = tmax (feat_opes_batch env_ff4 0 4) (num_opes env_ff4)" by simp
  then show ?thesis by (simp add: n tmax_2 env_ff4_feat4)
qed

lemma run_ff:
  "run_steps_fl f32 env_ff [[(0, 1, 0)], [(1, 1, 0)]] = Some [env_ff3, env_ff4]"
  using step_ff step_ff3 by simp

lemma rewards_ff:
  "reward_of env_ff3 0 = 5068117 / 524288" "reward_of env_ff4 0 = - (9786709 / 2097152)"
proof -
  show "reward_of env_ff3 0 = 5068117 / 524288"
    by (simp add: reward_of_def env_ff3_state makespan_ff reward_ff1 f32_vals)
  from step_fl_reward(1)[OF step_ff3]
  show "reward_of env_ff4 0 = - (9786709 / 2097152)"
    by (simp add: reward_of_def env_ff3_state makespan_ff4 f32_vals)
qed

section \<open>The utilisation feature and the rewards of the code\<close>

text \<open>
  C9 (as the code has it, in float32).  The utilisation feature of a machine is a
  float32 quotient: min(busy time, clock) divided by the float32 sum of the clock and
  a small constant, the quotient rounded again.  After every call of \<open>next_time\<close> that
  returns, it is this quotient with the constant 1e-5, for every instance.  After a
  call of \<open>step\<close> that returns it is, for an instance that had a decision, the
  quotient with the constant 1e-9 when the loop of the call made no call of
  \<open>next_time\<close>, and, for every instance, the quotient with the constant 1e-5 when the
  loop made a call of \<open>next_time\<close>; clock and busy time are read after the call.
  After either call the feature is 0 when the clock is 0 and the busy time is not
  negative.
\<close>

theorem utilization_feature_float:
  "(next_time_fl f32 flag s = Inr s' \<longrightarrow> util_is_fl f32 (1 / 10 ^ 5) s' b)
   \<and> (step_fl f32 t actions = Some (Inr t') \<longrightarrow>
        time_advance_within_fl f32 0 (step_update_fl f32 t actions) \<noteq> None \<longrightarrow>
        act_of t actions b \<noteq> None \<longrightarrow> util_is_fl f32 (1 / 10 ^ 9) t' b)
   \<and> (step_fl f32 t actions = Some (Inr t') \<longrightarrow>
        time_advance_within_fl f32 0 (step_update_fl f32 t actions) = None \<longrightarrow>
        util_is_fl f32 (1 / 10 ^ 5) t' b)
   \<and> (next_time_fl f32 flag s = Inr u
        \<or> (step_fl f32 t actions = Some (Inr u) \<and> act_of t actions b \<noteq> None) \<longrightarrow>
        time u b = 0 \<longrightarrow> m < num_mas u \<longrightarrow> 0 \<le> machines_batch u b m 2 \<longrightarrow>
        feat_mas_batch u b 2 m = 0)"
proof -
  have A: "util_is_fl f32 (1 / 10 ^ 5) x b" if "next_time_fl f32 flag s = Inr x" for x
    using that by (rule util_is_fl_next_time)
  have B: "util_is_fl f32 (1 / 10 ^ 9) x b"
    if st: "step_fl f32 t actions = Some (Inr x)"
      and w: "time_advance_within_fl f32 0 (step_update_fl f32 t actions) \<noteq> None"
      and act: "act_of t actions b \<noteq> None" for x
  proof -
    from act obtain a where a: "act_of t actions b = Some a" by auto
    from step_fl_cases[OF st] w have "x = step_finish (step_update_fl f32 t actions)" by auto
    with util_is_fl_step_update[OF a, of f32] show ?thesis by (simp add: util_is_fl_step_finish)
  qed
  have C: "util_is_fl f32 (1 / 10 ^ 5) x b"
    if st: "step_fl f32 t actions = Some (Inr x)"
      and w: "time_advance_within_fl f32 0 (step_update_fl f32 t actions) = None" for x
  proof -
    from step_fl_cases[OF st] w obtain fl s1 s2
      where "next_time_fl f32 fl s1 = Inr s2" "x = step_finish s2" by auto
    with util_is_fl_next_time[of f32 fl s1 s2 b] show ?thesis by (simp add: util_is_fl_step_finish)
  qed
  have D: "feat_mas_batch u b 2 m = 0"
    if h: "next_time_fl f32 flag s = Inr u
        \<or> (step_fl f32 t actions = Some (Inr u) \<and> act_of t actions b \<noteq> None)"
      and z: "time u b = 0" "m < num_mas u" "0 \<le> machines_batch u b m 2"
  proof -
    have "\<exists>eps. util_is_fl f32 eps u b"
    proof (cases "next_time_fl f32 flag s = Inr u")
      case True
      from A[OF this] show ?thesis ..
    next
      case False
      with h have st: "step_fl f32 t actions = Some (Inr u)" and act: "act_of t actions b \<noteq> None"
        by simp_all
      show ?thesis
      proof (cases "time_advance_within_fl f32 0 (step_update_fl f32 t actions) = None")
        case True
        from C[OF st this] show ?thesis ..
      next
        case False
        from B[OF st this act] show ?thesis ..
      qed
    qed
    then obtain eps where "util_is_fl f32 eps u b" ..
    from utilization_fl_zero_clock[OF f32_0 this z] show ?thesis .
  qed
  from A B C D show ?thesis by blast
qed

lemma next_time_af0: "next_time_fl f32 (\<lambda>b. 1) env_af = Inr env_af0"
  "time env_af0 0 = 0" "machines_batch env_af0 0 0 2 = 0" "num_mas env_af0 = 2"
proof -
  have c: "next_time_check_fl f32 (\<lambda>b. 1) env_af = None"
    by (simp add: next_time_check_fl_def freed_jobs_fl_def freed_fl_def flag_need_trans_def
        env_af_simps tany_iff)
  then show n: "next_time_fl f32 (\<lambda>b. 1) env_af = Inr env_af0"
    by (simp add: next_time_fl_def env_af0_def)
  then have e: "env_af0 = next_time_update_fl f32 (\<lambda>b. 1) env_af"
    by (simp add: next_time_fl_Inr_iff)
  show "time env_af0 0 = 0" "machines_batch env_af0 0 0 2 = 0" "num_mas env_af0 = 2"
    by (simp_all add: e next_time_update_fl_fields flag_need_trans_def env_af_simps)
qed

lemma within_af_0: "time_advance_within_fl f32 0 (step_update_fl f32 env_af [(0, 0, 0)]) = None"
  using within_af1(2) by (simp add: env_af1_def)

lemma feat_mas_af4: "feat_mas_batch env_af4 0 2 0 = 1"
  using step_update_fl_feat_mas[OF act_of_af3, where rd = f32 and m = 0]
    step_update_fl_machines(3)[OF act_of_af3, where rd = f32 and m = 0]
  by (simp add: env_af4_def env_af3_state env_af3_feat f32_vals)

theorem utilization_feature_float_witness:
  "next_time_fl f32 flag_af1 env_af1 = Inr env_af2 \<and> util_is_fl f32 (1 / 10 ^ 5) env_af2 0
   \<and> step_fl f32 env_af3 [(1, 0, 0)] = Some (Inr env_af4)
   \<and> time_advance_within_fl f32 0 (step_update_fl f32 env_af3 [(1, 0, 0)]) \<noteq> None
   \<and> act_of env_af3 [(1, 0, 0)] 0 \<noteq> None
   \<and> util_is_fl f32 (1 / 10 ^ 9) env_af4 0 \<and> feat_mas_batch env_af4 0 2 0 = 1
   \<and> step_fl f32 env_af [(0, 0, 0)] = Some (Inr env_af3)
   \<and> time_advance_within_fl f32 0 (step_update_fl f32 env_af [(0, 0, 0)]) = None
   \<and> util_is_fl f32 (1 / 10 ^ 5) env_af3 0
   \<and> next_time_fl f32 (\<lambda>b. 1) env_af = Inr env_af0 \<and> time env_af0 0 = 0
   \<and> 0 \<le> machines_batch env_af0 0 0 2 \<and> feat_mas_batch env_af0 0 2 0 = 0"
proof -
  have w3: "time_advance_within_fl f32 0 (step_update_fl f32 env_af3 [(1, 0, 0)]) \<noteq> None"
    using within_af3 by simp
  have a3: "act_of env_af3 [(1, 0, 0)] 0 \<noteq> None" using act_of_af3 by simp
  have s3: "step_fl f32 env_af3 [(1, 0, 0)] = Some (Inr env_af4)" using step_af3 by simp
  note u1 = utilization_feature_float[of flag_af1 env_af1 env_af2 0 env_af3 "[(1, 0, 0)]" env_af4
      env_af2 0]
  note u2 = utilization_feature_float[of "\<lambda>b. 1" env_af env_af0 0 env_af "[(0, 0, 0)]" env_af3
      env_af0 0]
  from u1 next_time_af1 s3 w3 a3
  have "util_is_fl f32 (1 / 10 ^ 5) env_af2 0" "util_is_fl f32 (1 / 10 ^ 9) env_af4 0" by blast+
  moreover from u2 step_af within_af_0 have "util_is_fl f32 (1 / 10 ^ 5) env_af3 0" by blast
  moreover from u2 next_time_af0 have "feat_mas_batch env_af0 0 2 0 = 0" by simp
  ultimately show ?thesis
    using next_time_af1 s3 w3 a3 step_af within_af_0 next_time_af0 feat_mas_af4 by simp
qed

text \<open>On \<open>ld_a\<close> the first \<open>step\<close> moves the clock to 3, where machine 0 has been busy
  for 3: the feature is the float32 number 2097145/2097152, not 3 / 3, which is 1 in
  float32 too.\<close>

theorem utilization_float_not_busy_over_clock:
  "step_fl f32 env_af [(0, 0, 0)] = Some (Inr env_af3) \<and> time env_af3 0 = 3
   \<and> machines_batch env_af3 0 0 2 = 3
   \<and> feat_mas_batch env_af3 0 2 0 = 2097145 / 2097152
   \<and> f32 (min (machines_batch env_af3 0 0 2) (time env_af3 0) / time env_af3 0) = 1
   \<and> feat_mas_batch env_af3 0 2 0
       \<noteq> min (machines_batch env_af3 0 0 2) (time env_af3 0) / time env_af3 0"
  using step_af by (simp add: env_af3_def env_af2_fields f32_vals)

text \<open>
  C2 (as the code has it, in float32).  For a run of \<open>step\<close> calls from a freshly
  constructed environment: the makespan baseline is, at the start and after every
  call, the maximum over the operations of the job completion feature (feature 4);
  the reward of a call is the float32 difference of the baseline before the call and
  the baseline after it; and the rewards of an instance add up to its first makespan
  minus its last whenever every one of these differences is exact in float32.
\<close>

theorem reward_sum_float:
  assumes "init_fl f32 bs nj nm n ld = Inr s0" and "run_steps_fl f32 s0 acts = Some ss"
  shows "length ss = length acts
    \<and> makespan_batch s0 b = tmax (feat_opes_batch s0 b 4) (num_opes s0)
    \<and> (\<forall>k<length ss.
          reward_of (ss ! k) b = f32 (makespan_batch ((s0 # ss) ! k) b - makespan_batch (ss ! k) b)
          \<and> makespan_batch (ss ! k) b = tmax (feat_opes_batch (ss ! k) b 4) (num_opes (ss ! k)))
    \<and> ((\<forall>k<length ss. f32 (makespan_batch ((s0 # ss) ! k) b - makespan_batch (ss ! k) b)
                         = makespan_batch ((s0 # ss) ! k) b - makespan_batch (ss ! k) b)
        \<longrightarrow> sum_list (map (\<lambda>t. reward_of t b) ss)
              = makespan_batch s0 b - makespan_batch (last (s0 # ss)) b)"
proof (intro conjI allI impI)
  show "length ss = length acts" by (rule run_steps_fl_length[OF assms(2)])
  show "makespan_batch s0 b = tmax (feat_opes_batch s0 b 4) (num_opes s0)"
    by (simp add: init_fl_schedule(6)[OF assms(1)])
next
  fix k assume k: "k < length ss"
  from run_steps_fl_rewards(1)[OF assms(2) k]
  show "reward_of (ss ! k) b = f32 (makespan_batch ((s0 # ss) ! k) b - makespan_batch (ss ! k) b)"
    by (simp add: reward_of_def)
  from run_steps_fl_rewards(2)[OF assms(2) k]
  show "makespan_batch (ss ! k) b = tmax (feat_opes_batch (ss ! k) b 4) (num_opes (ss ! k))"
    by simp
next
  assume "\<forall>k<length ss. f32 (makespan_batch ((s0 # ss) ! k) b - makespan_batch (ss ! k) b)
                         = makespan_batch ((s0 # ss) ! k) b - makespan_batch (ss ! k) b"
  from run_steps_fl_sum[OF assms(2) this]
  show "sum_list (map (\<lambda>t. reward_of t b) ss) = makespan_batch s0 b - makespan_batch (last (s0 # ss)) b" .
qed

theorem reward_sum_float_witness:
  "init_fl f32 1 1 2 2 ld_a = Inr env_af
   \<and> run_steps_fl f32 env_af [[(0, 0, 0)], [(1, 0, 0)]] = Some [env_af3, env_af4]
   \<and> makespan_batch env_af 0 = 6 \<and> makespan_batch env_af3 0 = 6 \<and> makespan_batch env_af4 0 = 5
   \<and> reward_of env_af3 0 = 0 \<and> reward_of env_af4 0 = 1
   \<and> f32 (makespan_batch env_af 0 - makespan_batch env_af3 0)
       = makespan_batch env_af 0 - makespan_batch env_af3 0
   \<and> f32 (makespan_batch env_af3 0 - makespan_batch env_af4 0)
       = makespan_batch env_af3 0 - makespan_batch env_af4 0
   \<and> sum_list (map (\<lambda>t. reward_of t 0) [env_af3, env_af4])
       = makespan_batch env_af 0 - makespan_batch env_af4 0"
proof -
  note m = makespan_af env_af3_state(15) makespan_af4
  let ?ss = "[env_af3, env_af4]"
  let ?d = "\<lambda>k. makespan_batch ((env_af # ?ss) ! k) 0 - makespan_batch (?ss ! k) 0"
  from reward_sum_float[OF init_af run_af, of 0]
  have r: "\<forall>k<length ?ss. reward_of (?ss ! k) 0 = f32 (?d k)
            \<and> makespan_batch (?ss ! k) 0 = tmax (feat_opes_batch (?ss ! k) 0 4) (num_opes (?ss ! k))"
    and s: "(\<forall>k<length ?ss. f32 (?d k) = ?d k)
            \<longrightarrow> sum_list (map (\<lambda>t. reward_of t 0) ?ss)
                  = makespan_batch env_af 0 - makespan_batch (last (env_af # ?ss)) 0"
    by blast+
  have e0: "f32 (?d 0) = ?d 0" and e1: "f32 (?d (Suc 0)) = ?d (Suc 0)"
    by (simp_all add: m f32_vals)
  have "\<forall>k<length ?ss. f32 (?d k) = ?d k"
  proof (intro allI impI)
    fix k assume "k < length ?ss"
    then have "k = 0 \<or> k = Suc 0" by auto
    with e0 e1 show "f32 (?d k) = ?d k" by blast
  qed
  with s have sm: "sum_list (map (\<lambda>t. reward_of t 0) ?ss)
                  = makespan_batch env_af 0 - makespan_batch (last (env_af # ?ss)) 0" by blast
  from r[rule_format, of 0] r[rule_format, of "Suc 0"]
  have "reward_of env_af3 0 = f32 (?d 0)" "reward_of env_af4 0 = f32 (?d (Suc 0))" by simp_all
  then have rw: "reward_of env_af3 0 = 0" "reward_of env_af4 0 = 1" by (simp_all add: m f32_vals)
  from e0 e1 have ex: "f32 (makespan_batch env_af 0 - makespan_batch env_af3 0)
       = makespan_batch env_af 0 - makespan_batch env_af3 0"
    "f32 (makespan_batch env_af3 0 - makespan_batch env_af4 0)
       = makespan_batch env_af3 0 - makespan_batch env_af4 0" by simp_all
  from sm have "sum_list (map (\<lambda>t. reward_of t 0) [env_af3, env_af4])
       = makespan_batch env_af 0 - makespan_batch env_af4 0" by simp
  with init_af run_af m rw ex show ?thesis by blast
qed

text \<open>On \<open>ld_f\<close> the two legal decisions give the rewards 5068117/524288 (9.66666603...)
  and -9786709/2097152 (-4.66666651...); their sum is 10485759/2097152, not the first
  makespan 16 minus the last makespan 11.\<close>

theorem reward_sum_float_fails:
  "wf_load 1 1 3 2 ld_f \<and> init_fl f32 1 1 3 2 ld_f = Inr env_ff
   \<and> legal_actions env_ff [(0, 1, 0)] \<and> legal_actions env_ff3 [(1, 1, 0)]
   \<and> run_steps_fl f32 env_ff [[(0, 1, 0)], [(1, 1, 0)]] = Some [env_ff3, env_ff4]
   \<and> makespan_batch env_ff 0 = 16 \<and> makespan_batch env_ff4 0 = 11
   \<and> reward_of env_ff3 0 = 5068117 / 524288 \<and> reward_of env_ff4 0 = - (9786709 / 2097152)
   \<and> sum_list (map (\<lambda>t. reward_of t 0) [env_ff3, env_ff4])
       \<noteq> makespan_batch env_ff 0 - makespan_batch env_ff4 0"
  using wf_f init_ff legal_ff legal_ff3 run_ff
  by (simp add: makespan_ff makespan_ff4 rewards_ff)

end
